(* ===== verification/Channel_Kind.thy ===== *)
theory Channel_Kind
  imports Prelude
begin

text \<open>
  Channel names, from \<^verbatim>\<open>src/channel/kind.rs\<close>: the authentication kind and the cache flag that a
  name encodes, and the validity check on names.
\<close>

definition SERVER_TO_USER_PREFIX :: string where
  "SERVER_TO_USER_PREFIX = ''#server-to-user-''"

datatype auth_kind = Public | Private | Presence | PrivateEncrypted

definition requires_auth :: "auth_kind \<Rightarrow> bool" where
  "requires_auth k = (k \<in> {Private, Presence, PrivateEncrypted})"

record channel_info =
  ci_auth :: auth_kind
  ci_cache :: bool

definition channel_info_of :: "string \<Rightarrow> channel_info" where
  "channel_info_of name =
     (let (auth, rest) =
        (case strip_prefix ''private-encrypted-'' name of
           Some r \<Rightarrow> (PrivateEncrypted, r)
         | None \<Rightarrow>
           (case strip_prefix ''presence-'' name of
              Some r \<Rightarrow> (Presence, r)
            | None \<Rightarrow>
              (case strip_prefix ''private-'' name of
                 Some r \<Rightarrow> (Private, r)
               | None \<Rightarrow> (Public, name))))
      in \<lparr>ci_auth = auth, ci_cache = starts_with ''cache-'' rest\<rparr>)"

definition channel_char_ok :: "char \<Rightarrow> bool" where
  "channel_char_ok c =
     (is_ascii_alphanumeric c \<or>
      c \<in> {CHR ''_'', CHR ''-'', CHR ''='', CHR ''@'', CHR '','', CHR ''.'', CHR '';''})"

definition validate_channel_name :: "string \<Rightarrow> nat \<Rightarrow> bool" where
  "validate_channel_name name max_len =
     (if name = [] \<or> max_len < length name then False else list_all channel_char_ok name)"


section \<open>What a name means\<close>

text \<open>The name of a channel of a given kind, as a client library composes it.\<close>

fun auth_prefix :: "auth_kind \<Rightarrow> string" where
  "auth_prefix Public = ''''"
| "auth_prefix Private = ''private-''"
| "auth_prefix Presence = ''presence-''"
| "auth_prefix PrivateEncrypted = ''private-encrypted-''"

definition cache_segment :: "bool \<Rightarrow> string" where
  "cache_segment cache = (if cache then ''cache-'' else '''')"

text \<open>A base name that does not itself begin with one of the reserved segments.\<close>

definition plain_base :: "string \<Rightarrow> bool" where
  "plain_base base =
     (list_all (\<lambda>p. \<not> starts_with p base) [''private-'', ''presence-'', ''cache-'', ''encrypted-''])"

text \<open>
  The classification of channel names inverts their composition: a name made of the
  prefix of an authentication kind, an optional \<open>cache-\<close> segment and a base name is
  classified with exactly that kind and that flag.
\<close>

lemma channel_info_of_compose:
  assumes "plain_base base"
  shows "channel_info_of (auth_prefix k @ cache_segment cache @ base)
    = \<lparr>ci_auth = k, ci_cache = cache\<rparr>"
proof -
  have "\<not> starts_with ''private-encrypted-'' base"
    using assms by (auto simp: plain_base_def starts_with_iff)
  with assms show ?thesis
    by (cases k; cases cache)
      (auto simp: channel_info_of_def plain_base_def cache_segment_def starts_with_def
        split: option.splits)
qed

lemma valid_name_chars: "validate_channel_name name n \<Longrightarrow> c \<in> set name \<Longrightarrow> channel_char_ok c"
  by (auto simp: validate_channel_name_def list_all_iff split: if_splits)

lemma valid_name_no_colon: "validate_channel_name name n \<Longrightarrow> CHR '':'' \<notin> set name"
  using valid_name_chars [of name n "CHR '':''"]
  by (auto simp: channel_char_ok_def is_ascii_alphanumeric_def is_ascii_digit_def less_eq_char_def)

lemma valid_name_no_hash: "validate_channel_name name n \<Longrightarrow> CHR ''#'' \<notin> set name"
  using valid_name_chars [of name n "CHR ''#''"]
  by (auto simp: channel_char_ok_def is_ascii_alphanumeric_def is_ascii_digit_def less_eq_char_def)

lemma server_to_user_not_valid: "\<not> validate_channel_name (SERVER_TO_USER_PREFIX @ user) n"
  using valid_name_no_hash [of "SERVER_TO_USER_PREFIX @ user" n]
  by (auto simp: SERVER_TO_USER_PREFIX_def)

end
