(* ===== verification/Protocol.thy ===== *)
theory Protocol
  imports Prelude
begin

text \<open>
  The Pusher v7 wire protocol, from \<^verbatim>\<open>src/protocol\<close>: socket ids, connection errors, the
  inbound commands and outbound events, version negotiation, and the (de)serialization of one
  frame. JSON printing and parsing are the \<open>serde_json\<close> crate's; they are the parameter \<open>sj\<close>
  of the definitions that call them.
\<close>


section \<open>JSON values\<close>

text \<open>
  \<open>serde_json::Value\<close> with the \<open>preserve_order\<close> feature (an object keeps insertion order).
  A float is kept as the bits of its \<open>f64\<close>.
\<close>

datatype number = PosInt u64 | NegInt u64 | Float u64

datatype json =
    Null
  | Bool bool
  | Number number
  | String string
  | Array "json list"
  | Object "(string \<times> json) list"

record serde_json =
  from_str :: "string \<Rightarrow> json option"
  to_string :: "json \<Rightarrow> string"
  number_to_string :: "number \<Rightarrow> string"
  value_eq :: "json \<Rightarrow> json \<Rightarrow> bool"

abbreviation json_nat :: "nat \<Rightarrow> json" where
  "json_nat n \<equiv> Number (PosInt (word_of_nat n))"

text \<open>\<open>Value::get\<close>, \<open>as_str\<close>, \<open>as_array\<close>, \<open>is_null\<close>.\<close>

fun json_get :: "string \<Rightarrow> json \<Rightarrow> json option" where
  "json_get k (Object m) = map_of m k"
| "json_get k _ = None"

fun as_str :: "json \<Rightarrow> string option" where
  "as_str (String s) = Some s"
| "as_str _ = None"

fun as_array :: "json \<Rightarrow> json list option" where
  "as_array (Array xs) = Some xs"
| "as_array _ = None"


section \<open>Socket ids\<close>

datatype socket_id = SocketId (sid_buf: string) (sid_len: nat)

definition CAPACITY :: nat where
  "CAPACITY = 24"

definition from_raw :: "string \<Rightarrow> socket_id" where
  "from_raw raw =
     (let n = min (length raw) CAPACITY
      in SocketId (take n raw @ replicate (CAPACITY - n) (char_of (0 :: nat))) n)"

definition socket_id_as_str :: "socket_id \<Rightarrow> string" where
  "socket_id_as_str i =
     (let s = take (sid_len i) (sid_buf i) in if utf8_valid (as_bytes s) then s else [])"

text \<open>\<open>a\<close> and \<open>b\<close> are the two random draws, each from \<open>1..10_000_000_000\<close>.\<close>

definition generate :: "nat \<Rightarrow> nat \<Rightarrow> socket_id" where
  "generate a b = from_raw (show_nat a @ ''.'' @ show_nat b)"


section \<open>Errors\<close>

record pusher_error =
  err_code :: nat
  err_message :: string

definition new_error :: "nat \<Rightarrow> string \<Rightarrow> pusher_error" where
  "new_error c m = \<lparr>err_code = c, err_message = m\<rparr>"

definition app_not_found :: pusher_error where
  "app_not_found = new_error 4001 ''Could not find app by key''"

definition app_disabled :: pusher_error where
  "app_disabled = new_error 4003 ''Application disabled''"

definition over_capacity :: pusher_error where
  "over_capacity = new_error 4004 ''App connection limit reached''"

definition path_not_found :: pusher_error where
  "path_not_found = new_error 4005 ''Path not found''"

definition invalid_version :: pusher_error where
  "invalid_version = new_error 4006 ''Invalid version string format''"

definition unsupported_protocol :: pusher_error where
  "unsupported_protocol = new_error 4007 ''Unsupported protocol version''"

definition no_protocol :: pusher_error where
  "no_protocol = new_error 4008 ''No protocol version supplied''"

definition server_over_capacity :: pusher_error where
  "server_over_capacity = new_error 4100 ''Server is over capacity''"

definition backend_unavailable :: pusher_error where
  "backend_unavailable = new_error 4103 ''application store temporarily unavailable''"

definition max_lifetime :: pusher_error where
  "max_lifetime = new_error 4202 ''Closed after inactivity''"


section \<open>Commands and events\<close>

datatype client_command =
    CmdPing
  | Subscribe string "string option" "string option"
  | Unsubscribe string
  | ClientEvent string string json
  | Signin string string
  | Unknown string

record watchlist_change =
  wc_name :: string
  wc_user_ids :: "string list"

record presence_payload =
  pp_ids :: "string list"
  pp_hash :: "(string \<times> json) list"
  pp_count :: nat

datatype server_event =
    ConnectionEstablished socket_id nat
  | Ping
  | Pong
  | SubscriptionSucceeded string "presence_payload option"
  | SubscriptionCount string nat
  | ErrorEvent pusher_error
  | ChannelEvent string string json "string option"
  | SubscriptionError string string string nat
  | MemberAdded string string json
  | MemberRemoved string string
  | CacheMiss string
  | SigninSuccess string
  | WatchlistEvents "watchlist_change list"
  | ClientEventError nat string
  | Close nat string
  | Raw string


section \<open>Frames\<close>

definition write_frame :: "serde_json \<Rightarrow> string \<Rightarrow> json \<Rightarrow> string" where
  "write_frame sj out frame = out @ to_string sj frame"

fun frames_encode_into :: "serde_json \<Rightarrow> server_event \<Rightarrow> string \<Rightarrow> string" where
  "frames_encode_into sj (ConnectionEstablished i activity_timeout) out =
     (let d = to_string sj (Object [(''socket_id'', String (socket_id_as_str i)),
                                    (''activity_timeout'', json_nat activity_timeout)])
      in write_frame sj out
           (Object [(''event'', String ''pusher:connection_established''), (''data'', String d)]))"
| "frames_encode_into sj Ping out =
     write_frame sj out (Object [(''event'', String ''pusher:ping''), (''data'', Object [])])"
| "frames_encode_into sj Pong out =
     write_frame sj out (Object [(''event'', String ''pusher:pong''), (''data'', Object [])])"
| "frames_encode_into sj (SubscriptionSucceeded ch presence) out =
     (let d = (case presence of
           None \<Rightarrow> ''{}''
         | Some p \<Rightarrow> to_string sj (Object [(''presence'',
             Object [(''ids'', Array (map String (pp_ids p))), (''hash'', Object (pp_hash p)),
                     (''count'', json_nat (pp_count p))])]))
      in write_frame sj out
           (Object [(''event'', String ''pusher_internal:subscription_succeeded''),
                    (''channel'', String ch), (''data'', String d)]))"
| "frames_encode_into sj (SubscriptionCount ch n) out =
     (let d = to_string sj (Object [(''subscription_count'', json_nat n)])
      in write_frame sj out
           (Object [(''event'', String ''pusher_internal:subscription_count''),
                    (''channel'', String ch), (''data'', String d)]))"
| "frames_encode_into sj (ErrorEvent e) out =
     write_frame sj out
       (Object [(''event'', String ''pusher:error''),
                (''data'', Object [(''code'', json_nat (err_code e)), (''message'', String (err_message e))])])"
| "frames_encode_into sj (ChannelEvent ch ev d user_id) out =
     write_frame sj out
       (Object ([(''event'', String ev), (''channel'', String ch), (''data'', d)] @
          (case user_id of None \<Rightarrow> [] | Some uid \<Rightarrow> [(''user_id'', String uid)])))"
| "frames_encode_into sj (SubscriptionError ch error_type err status) out =
     write_frame sj out
       (Object [(''event'', String ''pusher:subscription_error''), (''channel'', String ch),
                (''data'', Object [(''type'', String error_type), (''error'', String err),
                                   (''status'', json_nat status)])])"
| "frames_encode_into sj (MemberAdded ch uid info) out =
     (let d = to_string sj (Object [(''user_id'', String uid), (''user_info'', info)])
      in write_frame sj out
           (Object [(''event'', String ''pusher_internal:member_added''),
                    (''channel'', String ch), (''data'', String d)]))"
| "frames_encode_into sj (MemberRemoved ch uid) out =
     (let d = to_string sj (Object [(''user_id'', String uid)])
      in write_frame sj out
           (Object [(''event'', String ''pusher_internal:member_removed''),
                    (''channel'', String ch), (''data'', String d)]))"
| "frames_encode_into sj (CacheMiss ch) out =
     write_frame sj out (Object [(''event'', String ''pusher:cache_miss''), (''channel'', String ch)])"
| "frames_encode_into sj (SigninSuccess ud) out =
     write_frame sj out
       (Object [(''event'', String ''pusher:signin_success''),
                (''data'', Object [(''user_data'', String ud)])])"
| "frames_encode_into sj (WatchlistEvents evs) out =
     write_frame sj out
       (Object [(''event'', String ''pusher_internal:watchlist_events''),
                (''data'', Object [(''events'', Array (map (\<lambda>e.
                   Object [(''name'', String (wc_name e)),
                           (''user_ids'', Array (map String (wc_user_ids e)))]) evs))])])"
| "frames_encode_into sj (ClientEventError c m) out =
     write_frame sj out
       (Object [(''event'', String ''pusher:error''),
                (''data'', Object [(''code'', json_nat c), (''message'', String m)])])"
| "frames_encode_into sj (Close c r) out = out"
| "frames_encode_into sj (Raw s) out = out @ s"

datatype decode_error = JsonError | MissingField string

definition field_str :: "string \<Rightarrow> json \<Rightarrow> decode_error + string" where
  "field_str k v =
     (case Option.bind (json_get k v) as_str of None \<Rightarrow> Inl (MissingField k) | Some s \<Rightarrow> Inr s)"

definition decode :: "serde_json \<Rightarrow> string \<Rightarrow> decode_error + client_command" where
  "decode sj text =
     (case from_str sj text of
        None \<Rightarrow> Inl JsonError
      | Some v \<Rightarrow>
        (case field_str ''event'' v of
           Inl e \<Rightarrow> Inl e
         | Inr ev \<Rightarrow>
           if ev = ''pusher:ping'' then Inr CmdPing
           else if ev = ''pusher:subscribe'' then
             (case json_get ''data'' v of
                None \<Rightarrow> Inl (MissingField ''data'')
              | Some d \<Rightarrow>
                (case field_str ''channel'' d of
                   Inl e \<Rightarrow> Inl e
                 | Inr ch \<Rightarrow> Inr (Subscribe ch (Option.bind (json_get ''auth'' d) as_str)
                                (Option.bind (json_get ''channel_data'' d) as_str))))
           else if ev = ''pusher:unsubscribe'' then
             (case json_get ''data'' v of
                None \<Rightarrow> Inl (MissingField ''data'')
              | Some d \<Rightarrow>
                (case field_str ''channel'' d of Inl e \<Rightarrow> Inl e | Inr ch \<Rightarrow> Inr (Unsubscribe ch)))
           else if ev = ''pusher:signin'' then
             (case json_get ''data'' v of
                None \<Rightarrow> Inl (MissingField ''data'')
              | Some d \<Rightarrow>
                (case field_str ''auth'' d of
                   Inl e \<Rightarrow> Inl e
                 | Inr au \<Rightarrow>
                   (case field_str ''user_data'' d of
                      Inl e \<Rightarrow> Inl e | Inr ud \<Rightarrow> Inr (Signin au ud))))
           else if starts_with ''client-'' ev then
             (case field_str ''channel'' v of
                Inl e \<Rightarrow> Inl e
              | Inr ch \<Rightarrow> Inr (ClientEvent ev ch
                            (case json_get ''data'' v of None \<Rightarrow> Null | Some d \<Rightarrow> d)))
           else Inr (Unknown ev)))"


section \<open>Versions\<close>

record capabilities =
  cap_client_events :: bool
  cap_presence :: bool
  cap_encrypted_channels :: bool
  cap_cache_channels :: bool
  cap_user_auth :: bool
  cap_watchlist :: bool

definition capabilities_v7 :: capabilities where
  "capabilities_v7 = \<lparr>cap_client_events = True, cap_presence = True, cap_encrypted_channels = True,
     cap_cache_channels = True, cap_user_auth = True, cap_watchlist = True\<rparr>"

datatype codec = V7Codec

definition codec_version :: "codec \<Rightarrow> nat" where
  "codec_version c = (case c of V7Codec \<Rightarrow> 7)"

definition codec_capabilities :: "codec \<Rightarrow> capabilities" where
  "codec_capabilities c = (case c of V7Codec \<Rightarrow> capabilities_v7)"

definition MIN_PROTOCOL :: nat where "MIN_PROTOCOL = 7"
definition MAX_PROTOCOL :: nat where "MAX_PROTOCOL = 7"

definition codec_for :: "nat \<Rightarrow> codec" where
  "codec_for version = V7Codec"

definition supported_or_4007 :: "nat \<Rightarrow> pusher_error + codec" where
  "supported_or_4007 major =
     (if MIN_PROTOCOL \<le> major \<and> major \<le> MAX_PROTOCOL then Inr (codec_for major)
      else Inl unsupported_protocol)"

definition major_of :: "string \<Rightarrow> nat option" where
  "major_of version = parse_u32 (hd (split_on (CHR ''.'') version))"

definition negotiate :: "string option \<Rightarrow> string option \<Rightarrow> bool \<Rightarrow> pusher_error + codec" where
  "negotiate protocol version strict =
     (case protocol of
        Some s \<Rightarrow>
          (case parse_u32 s of None \<Rightarrow> Inl invalid_version | Some n \<Rightarrow> supported_or_4007 n)
      | None \<Rightarrow>
          (case version of
             Some v \<Rightarrow>
               (case major_of v of None \<Rightarrow> Inl invalid_version | Some m \<Rightarrow> supported_or_4007 m)
           | None \<Rightarrow> if strict then Inl no_protocol else Inr (codec_for MAX_PROTOCOL)))"

text \<open>
  \<open>protocol::wire\<close>: the version-aware entry point. An unsupported version panics in the code
  (\<open>unreachable!\<close>), which is \<open>None\<close> here.
\<close>

definition all_versions :: "nat list" where
  "all_versions = map (\<lambda>i. MIN_PROTOCOL + i) [0 ..< MAX_PROTOCOL - MIN_PROTOCOL + 1]"

definition wire_encode_into :: "serde_json \<Rightarrow> nat \<Rightarrow> server_event \<Rightarrow> string \<Rightarrow> string option" where
  "wire_encode_into sj version ev out =
     (if version = 7 then Some (frames_encode_into sj ev out) else None)"

definition wire_encode :: "serde_json \<Rightarrow> nat \<Rightarrow> server_event \<Rightarrow> string option" where
  "wire_encode sj version ev = wire_encode_into sj version ev []"

text \<open>The encoding at \<open>ACTIVE_VERSIONS[0]\<close> that every shared frame uses.\<close>

definition active_frame :: "serde_json \<Rightarrow> server_event \<Rightarrow> string" where
  "active_frame sj ev =
     (case wire_encode sj (all_versions ! 0) ev of Some s \<Rightarrow> s | None \<Rightarrow> [])"


section \<open>Properties\<close>

lemma frames_encode_into_append:
  "frames_encode_into sj ev out = out @ frames_encode_into sj ev []"
  by (cases ev) (simp_all add: write_frame_def Let_def)

lemma active_frame_eq: "active_frame sj ev = frames_encode_into sj ev []"
  by (simp add: active_frame_def wire_encode_def wire_encode_into_def all_versions_def
      MIN_PROTOCOL_def MAX_PROTOCOL_def)

lemma from_raw_as_str:
  assumes "length s \<le> CAPACITY" and "utf8_valid (as_bytes s)"
  shows "socket_id_as_str (from_raw s) = s"
  using assms by (simp add: from_raw_def socket_id_as_str_def min_absorb1 Let_def)

lemma generated_id_fits:
  assumes "a < 10 ^ 10" and "b < 10 ^ 10"
  shows "length (show_nat a @ ''.'' @ show_nat b) \<le> CAPACITY"
  using length_show_nat [of a 9] length_show_nat [of b 9] assms
  by (simp add: CAPACITY_def)

lemma generated_id_utf8: "utf8_valid (as_bytes (show_nat a @ ''.'' @ show_nat b))"
  by (rule utf8_valid_ascii)
    (auto simp: as_bytes_def dest!: show_nat_digits is_ascii_digit_byte)

lemma show_nat_inj: "show_nat a = show_nat b \<longleftrightarrow> a = b"
  using digits_value_show_nat by (metis of_nat_eq_iff)

lemma dot_notin_show_nat: "CHR ''.'' \<notin> set (show_nat n)"
  using show_nat_digits [of "CHR ''.''" n] by (auto simp: is_ascii_digit_def less_eq_char_def)

lemma parse_u32_show_nat: "n < 2 ^ 32 \<Longrightarrow> parse_u32 (show_nat n) = Some n"
proof -
  assume n: "n < 2 ^ 32"
  obtain c cs where s: "show_nat n = c # cs"
    by (cases "show_nat n") (simp_all add: show_nat.simps [of n] split: if_splits)
  have "CHR ''+'' \<notin> set (show_nat n)"
    using show_nat_digits [of "CHR ''+''" n] by (auto simp: is_ascii_digit_def less_eq_char_def)
  then have "c \<noteq> CHR ''+''" by (auto simp: s)
  moreover have "list_all is_ascii_digit (c # cs)"
    unfolding list_all_iff s [symmetric] using show_nat_digits by blast
  moreover have "digits_value (c # cs) = int n"
    unfolding s [symmetric] by (rule digits_value_show_nat)
  ultimately show ?thesis using n by (simp add: parse_u32_def s)
qed

lemma major_of_dot: "CHR ''.'' \<notin> set m \<Longrightarrow> major_of (m @ CHR ''.'' # rest) = parse_u32 m"
  by (simp add: major_of_def split_on_append)

lemma major_of_no_dot: "CHR ''.'' \<notin> set m \<Longrightarrow> major_of m = parse_u32 m"
  by (simp add: major_of_def split_on_no_sep)

lemma supported_or_4007_iff:
  "supported_or_4007 n = (if n = 7 then Inr V7Codec else Inl unsupported_protocol)"
  by (auto simp: supported_or_4007_def codec_for_def MIN_PROTOCOL_def MAX_PROTOCOL_def)

text \<open>
  A generated socket id is stored without truncation for every pair of draws the
  generator can make: reading it back gives the dotted decimal form, and two ids are equal
  only for equal draws.
\<close>

lemma generate_roundtrip:
  assumes "a < 10 ^ 10" and "b < 10 ^ 10" and "c < 10 ^ 10" and "d < 10 ^ 10"
  shows "socket_id_as_str (generate a b) = show_nat a @ ''.'' @ show_nat b
    \<and> (generate a b = generate c d \<longleftrightarrow> a = c \<and> b = d)"
proof -
  have str: "socket_id_as_str (generate m n) = show_nat m @ ''.'' @ show_nat n"
    if "m < 10 ^ 10" "n < 10 ^ 10" for m n
    unfolding generate_def
    by (rule from_raw_as_str [OF generated_id_fits generated_id_utf8]) (use that in simp_all)
  have "split_once (CHR ''.'') (show_nat m @ ''.'' @ show_nat n) = Some (show_nat m, show_nat n)" for m n
    by (simp add: dot_notin_show_nat)
  then have "show_nat a @ ''.'' @ show_nat b = show_nat c @ ''.'' @ show_nat d \<longleftrightarrow> a = c \<and> b = d"
    by (metis option.inject prod.inject show_nat_inj)
  with assms str show ?thesis
    by metis
qed

text \<open>
  Version negotiation: with the protocol number given as a query parameter, or as a
  client version whose major number it is, exactly protocol 7 is accepted and any other
  number is refused with error 4007; with neither, strict mode refuses with 4008 and lenient
  mode takes the newest protocol.
\<close>

lemma negotiate_versions:
  assumes "n < 2 ^ 32"
    and "answer = (if n = 7 then Inr V7Codec else Inl unsupported_protocol)"
  shows "negotiate (Some (show_nat n)) version strict = answer
    \<and> negotiate None (Some (show_nat n)) strict = answer
    \<and> negotiate None (Some (show_nat n @ ''.'' @ minor)) strict = answer
    \<and> negotiate None None strict = (if strict then Inl no_protocol else Inr V7Codec)"
  using assms
  by (simp add: negotiate_def parse_u32_show_nat supported_or_4007_iff major_of_dot
      major_of_no_dot dot_notin_show_nat codec_for_def)

text \<open>What a Pusher client library sends for a command, following the protocol.\<close>

fun client_frame :: "client_command \<Rightarrow> json" where
  "client_frame CmdPing = Object [(''event'', String ''pusher:ping''), (''data'', Object [])]"
| "client_frame (Subscribe ch au cd) =
     Object [(''event'', String ''pusher:subscribe''),
       (''data'', Object ([(''channel'', String ch)]
          @ (case au of None \<Rightarrow> [] | Some a \<Rightarrow> [(''auth'', String a)])
          @ (case cd of None \<Rightarrow> [] | Some c \<Rightarrow> [(''channel_data'', String c)])))]"
| "client_frame (Unsubscribe ch) =
     Object [(''event'', String ''pusher:unsubscribe''), (''data'', Object [(''channel'', String ch)])]"
| "client_frame (ClientEvent ev ch d) =
     Object [(''event'', String ev), (''channel'', String ch), (''data'', d)]"
| "client_frame (Signin au ud) =
     Object [(''event'', String ''pusher:signin''),
       (''data'', Object [(''auth'', String au), (''user_data'', String ud)])]"
| "client_frame (Unknown ev) = Object [(''event'', String ev)]"

fun client_frame_ok :: "client_command \<Rightarrow> bool" where
  "client_frame_ok (ClientEvent ev ch d) = starts_with ''client-'' ev"
| "client_frame_ok (Unknown ev) =
     (\<not> starts_with ''client-'' ev \<and>
      ev \<notin> {''pusher:ping'', ''pusher:subscribe'', ''pusher:unsubscribe'', ''pusher:signin''})"
| "client_frame_ok _ = True"

text \<open>
  C26. Decoding inverts the client's encoding of every command: whatever JSON printer and
  parser are used, when the parser reads back the printed frame, the decoder returns the
  command that was sent.
\<close>

theorem decode_client_frame:
  assumes "from_str sj (to_string sj (client_frame cmd)) = Some (client_frame cmd)"
    and "client_frame_ok cmd"
  shows "decode sj (to_string sj (client_frame cmd)) = Inr cmd"
  using assms
  by (cases cmd) (auto simp: decode_def field_str_def starts_with_iff split: option.splits)

theorem decode_client_frame_witness:
  "let cmd = Subscribe ''presence-room'' (Some ''key:sig'') (Some ''{}'');
       sj = \<lparr>from_str = (\<lambda>_. Some (client_frame cmd)), to_string = (\<lambda>_. ''text''),
             number_to_string = (\<lambda>_. ''0''), value_eq = (=)\<rparr>
   in decode sj ''text'' = Inr cmd"
proof -
  let ?cmd = "Subscribe ''presence-room'' (Some ''key:sig'') (Some ''{}'')"
  let ?sj = "\<lparr>from_str = (\<lambda>_. Some (client_frame ?cmd)), to_string = (\<lambda>_. ''text''),
             number_to_string = (\<lambda>_. ''0''), value_eq = (=)\<rparr>"
  show ?thesis using decode_client_frame [of ?sj ?cmd] by simp
qed

end
