(* ===== verification/Mailbox.thy ===== *)
theory Mailbox
  imports Protocol
begin

text \<open>
  Cross-connection delivery, from \<^verbatim>\<open>src/connection/handle.rs\<close>. Every connection owns one
  bounded mailbox, shared by reference by all the handles to it, so the mailboxes, the dirty
  queues of the workers and the drop counters form an explicit store. A queue is addressed by
  a number, and a worker by a number; the worker's waker is a pending flag.
\<close>


section \<open>The store\<close>

record chan =
  queue :: "server_event list"
  capacity :: nat
  receiver_alive :: bool

record mailboxes =
  chans :: "nat \<Rightarrow> chan"
  dirty_queue :: "nat \<Rightarrow> nat list"
  woken :: "nat \<Rightarrow> bool"
  dropped :: "nat \<Rightarrow> u64"

datatype try_send_result = Sent | Full | Closed

text \<open>\<open>tokio::sync::mpsc::Sender::try_send\<close> on the queue at address \<open>c\<close>.\<close>

definition try_send :: "nat \<Rightarrow> server_event \<Rightarrow> mailboxes \<Rightarrow> try_send_result \<times> mailboxes" where
  "try_send c ev w =
     (let q = chans w c
      in if \<not> receiver_alive q then (Closed, w)
         else if capacity q \<le> length (queue q) then (Full, w)
         else (Sent, w\<lparr>chans := (chans w)(c := q\<lparr>queue := queue q @ [ev]\<rparr>)\<rparr>))"


section \<open>Mailboxes and handles\<close>

record mailbox_notify =
  token :: nat
  dirty :: nat

record mailbox =
  inner :: nat
  notify :: "mailbox_notify option"
  mailbox_dropped :: "nat option"

definition mailbox_send ::
  "mailbox \<Rightarrow> server_event \<Rightarrow> mailboxes \<Rightarrow> (server_event + unit) \<times> mailboxes" where
  "mailbox_send m ev w =
     (case try_send (inner m) ev w of
        (Sent, w') \<Rightarrow>
          (Inr (), case notify m of
             None \<Rightarrow> w'
           | Some n \<Rightarrow> w'\<lparr>dirty_queue := (dirty_queue w')(dirty n := dirty_queue w' (dirty n) @ [token n]),
                          woken := (woken w')(dirty n := True)\<rparr>)
      | (Full, w') \<Rightarrow>
          (Inr (), case mailbox_dropped m of
             None \<Rightarrow> w'
           | Some r \<Rightarrow> w'\<lparr>dropped := (dropped w')(r := dropped w' r + 1)\<rparr>)
      | (Closed, w') \<Rightarrow> (Inl ev, w'))"

record connection_handle =
  handle_socket_id :: socket_id
  handle_mailbox :: mailbox

text \<open>Every call site discards the result: \<open>let _ = handle.mailbox.send(event)\<close>.\<close>

abbreviation deliver :: "connection_handle \<Rightarrow> server_event \<Rightarrow> mailboxes \<Rightarrow> mailboxes" where
  "deliver h ev w \<equiv> snd (mailbox_send (handle_mailbox h) ev w)"


section \<open>What one send does\<close>

text \<open>The mailbox at \<open>c\<close> accepts another event.\<close>

definition accepts :: "mailboxes \<Rightarrow> nat \<Rightarrow> bool" where
  "accepts w c = (receiver_alive (chans w c) \<and> length (queue (chans w c)) < capacity (chans w c))"

lemma try_send_cases:
  "try_send c ev w =
     (if accepts w c
      then (Sent, w\<lparr>chans := (chans w)(c := (chans w c)\<lparr>queue := queue (chans w c) @ [ev]\<rparr>)\<rparr>)
      else (if receiver_alive (chans w c) then Full else Closed, w))"
  by (simp add: try_send_def accepts_def Let_def)

text \<open>The content of a mailbox after one delivery: appended if accepted, otherwise as before.\<close>

definition chan_after :: "server_event \<Rightarrow> chan \<Rightarrow> chan" where
  "chan_after ev q =
     (if receiver_alive q \<and> length (queue q) < capacity q then q\<lparr>queue := queue q @ [ev]\<rparr> else q)"

lemma chans_deliver:
  "chans (deliver h ev w) =
     (chans w)(inner (handle_mailbox h) := chan_after ev (chans w (inner (handle_mailbox h))))"
  by (simp add: mailbox_send_def try_send_cases accepts_def chan_after_def split: option.split)

text \<open>
  No wake-up is lost: a wired mailbox with events in it has its token in its worker's dirty
  queue. \<open>ms\<close> are the mailboxes in use.
\<close>

definition notified :: "mailbox list \<Rightarrow> mailboxes \<Rightarrow> bool" where
  "notified ms w \<longleftrightarrow>
     (\<forall>m \<in> set ms. \<forall>n. notify m = Some n \<longrightarrow> queue (chans w (inner m)) \<noteq> [] \<longrightarrow>
        token n \<in> set (dirty_queue w (dirty n)) \<and> woken w (dirty n))"

definition one_mailbox_per_queue :: "mailbox list \<Rightarrow> bool" where
  "one_mailbox_per_queue ms \<longleftrightarrow>
     (\<forall>m \<in> set ms. \<forall>m' \<in> set ms. inner m = inner m' \<longrightarrow> notify m = notify m')"

lemma queue_send:
  "queue (chans (snd (mailbox_send m ev w)) c) =
     (if c = inner m \<and> accepts w c then queue (chans w c) @ [ev] else queue (chans w c))"
  by (simp add: mailbox_send_def try_send_cases split: option.split)

lemma dirty_send:
  "set (dirty_queue (snd (mailbox_send m ev w)) d) =
     set (dirty_queue w d) \<union>
       (case notify m of Some n \<Rightarrow> if accepts w (inner m) \<and> dirty n = d then {token n} else {} | None \<Rightarrow> {})"
  by (simp add: mailbox_send_def try_send_cases split: option.split)

lemma woken_send:
  "woken (snd (mailbox_send m ev w)) d \<longleftrightarrow>
     woken w d \<or> (\<exists>n. notify m = Some n \<and> accepts w (inner m) \<and> dirty n = d)"
  by (simp add: mailbox_send_def try_send_cases split: option.split)

lemma notified_send:
  assumes one: "one_mailbox_per_queue ms" and m: "m \<in> set ms" and w: "notified ms w"
  shows "notified ms (snd (mailbox_send m ev w))"
  unfolding notified_def
proof (intro ballI allI impI)
  fix m' n
  assume m': "m' \<in> set ms" and n: "notify m' = Some n"
    and q: "queue (chans (snd (mailbox_send m ev w)) (inner m')) \<noteq> []"
  show "token n \<in> set (dirty_queue (snd (mailbox_send m ev w)) (dirty n)) \<and>
      woken (snd (mailbox_send m ev w)) (dirty n)"
  proof (cases "inner m' = inner m \<and> accepts w (inner m)")
    case True
    from one m m' have "inner m' = inner m \<longrightarrow> notify m' = notify m"
      unfolding one_mailbox_per_queue_def by blast
    with True n have "notify m = Some n" by simp
    with True show ?thesis by (simp add: dirty_send woken_send)
  next
    case False
    with q have "queue (chans w (inner m')) \<noteq> []" by (auto simp: queue_send split: if_splits)
    with w m' n have "token n \<in> set (dirty_queue w (dirty n)) \<and> woken w (dirty n)"
      unfolding notified_def by blast
    then show ?thesis by (simp add: dirty_send woken_send)
  qed
qed

end
