(* ===== verification/Channel_State.thy ===== *)
theory Channel_State
  imports Mailbox "HOL-Library.Multiset"
begin

text \<open>
  The state of one channel, from \<^verbatim>\<open>src/channel/state.rs\<close>, \<^verbatim>\<open>src/channel/outcome.rs\<close> and
  \<^verbatim>\<open>src/presence/member.rs\<close>: its subscribers, the roster of distinct presence users with
  their connections in join order, and the two caches derived from them (the membership
  snapshot and the encoded roster frame). The reference behaviour is the list of current
  subscriptions in join order.
\<close>


section \<open>Presence members\<close>

record presence_member =
  pm_user_id :: string
  pm_user_info :: json

datatype channel_data_error = NotJson | MissingUserId

definition parse_channel_data :: "serde_json \<Rightarrow> string \<Rightarrow> channel_data_error + presence_member" where
  "parse_channel_data sj raw =
     (case from_str sj raw of
        None \<Rightarrow> Inl NotJson
      | Some v \<Rightarrow>
        (let user_info = (case json_get ''user_info'' v of None \<Rightarrow> Null | Some i \<Rightarrow> i)
         in case json_get ''user_id'' v of
              Some (String s) \<Rightarrow> Inr \<lparr>pm_user_id = s, pm_user_info = user_info\<rparr>
            | Some (Number n) \<Rightarrow> Inr \<lparr>pm_user_id = number_to_string sj n, pm_user_info = user_info\<rparr>
            | _ \<Rightarrow> Inl MissingUserId))"


section \<open>State and outcomes\<close>

record subscriber =
  sub_handle :: connection_handle
  sub_member :: "presence_member option"

record presence_user =
  pu_info :: json
  pu_conns :: "socket_id list"

type_synonym shared_snapshot = "(socket_id \<times> subscriber) list"

record channel_state =
  cs_subscribers :: "(socket_id \<times> subscriber) list"
  cs_users :: "(string \<times> presence_user) list"
  cs_snapshot :: "shared_snapshot option"
  cs_roster_frame :: "string option"

definition channel_state_default :: channel_state where
  "channel_state_default =
     \<lparr>cs_subscribers = [], cs_users = [], cs_snapshot = None, cs_roster_frame = None\<rparr>"

record presence_join =
  first_for_user :: bool
  join_roster_frame :: string
  join_member :: presence_member

record presence_leave =
  last_for_user :: bool
  leave_user_id :: string

record subscribe_outcome =
  so_subscription_count :: nat
  so_presence :: "presence_join option"
  so_occupied :: bool

record unsubscribe_outcome =
  uo_subscription_count :: nat
  uo_presence :: "presence_leave option"
  uo_vacated :: bool

record channel_summary =
  sum_name :: string
  sum_occupied :: bool
  sum_subscription_count :: nat
  sum_user_count :: "nat option"


section \<open>Operations\<close>

definition subscription_count :: "channel_state \<Rightarrow> nat" where
  "subscription_count s = length (cs_subscribers s)"

definition socket_ids :: "channel_state \<Rightarrow> socket_id list" where
  "socket_ids s = map fst (cs_subscribers s)"

definition cs_is_empty :: "channel_state \<Rightarrow> bool" where
  "cs_is_empty s = (cs_subscribers s = [])"

definition user_count :: "channel_state \<Rightarrow> nat option" where
  "user_count s = (if cs_users s = [] then None else Some (length (cs_users s)))"

definition roster :: "channel_state \<Rightarrow> presence_payload" where
  "roster s =
     \<lparr>pp_ids = map fst (cs_users s), pp_hash = map (\<lambda>(i, u). (i, pu_info u)) (cs_users s),
      pp_count = length (cs_users s)\<rparr>"

definition members :: "channel_state \<Rightarrow> presence_member list" where
  "members s = map (\<lambda>(i, u). \<lparr>pm_user_id = i, pm_user_info = pu_info u\<rparr>) (cs_users s)"

text \<open>\<open>get_or_init\<close> fills the cache, so the new state is returned with the frame.\<close>

definition cached_roster_frame ::
  "serde_json \<Rightarrow> string \<Rightarrow> channel_state \<Rightarrow> string \<times> channel_state" where
  "cached_roster_frame sj channel s =
     (case cs_roster_frame s of
        Some f \<Rightarrow> (f, s)
      | None \<Rightarrow>
        (let f = active_frame sj (SubscriptionSucceeded channel (Some (roster s)))
         in (f, s\<lparr>cs_roster_frame := Some f\<rparr>)))"

definition reseat_user_info ::
  "serde_json \<Rightarrow> string \<Rightarrow> socket_id \<Rightarrow> channel_state \<Rightarrow> channel_state" where
  "reseat_user_info sj uid oldest s =
     (case map_option pm_user_info (Option.bind (map_of (cs_subscribers s) oldest) sub_member) of
        None \<Rightarrow> s
      | Some info \<Rightarrow>
        (case map_of (cs_users s) uid of
           None \<Rightarrow> s
         | Some user \<Rightarrow>
           if value_eq sj (pu_info user) info then s
           else s\<lparr>cs_users := bt_insert uid (user\<lparr>pu_info := info\<rparr>) (cs_users s),
                  cs_roster_frame := None\<rparr>))"

definition cs_remove ::
  "serde_json \<Rightarrow> socket_id \<Rightarrow> channel_state \<Rightarrow> presence_leave option \<times> channel_state" where
  "cs_remove sj sid s =
     (case map_of (cs_subscribers s) sid of
        None \<Rightarrow> (None, s)
      | Some sub \<Rightarrow>
        (let s1 = s\<lparr>cs_subscribers := AList.delete sid (cs_subscribers s), cs_snapshot := None\<rparr>
         in case sub_member sub of
              None \<Rightarrow> (None, s1)
            | Some m \<Rightarrow>
              (let (oldest_left, s2) =
                 (case map_of (cs_users s1) (pm_user_id m) of
                    Some u \<Rightarrow>
                      (let cs = filter (\<lambda>x. x \<noteq> sid) (pu_conns u)
                       in (case cs of [] \<Rightarrow> None | c # _ \<Rightarrow> Some c,
                           s1\<lparr>cs_users := bt_insert (pm_user_id m) (u\<lparr>pu_conns := cs\<rparr>) (cs_users s1)\<rparr>))
                  | None \<Rightarrow> (None, s1));
               s3 = (case oldest_left of
                  None \<Rightarrow> s2\<lparr>cs_users := bt_remove (pm_user_id m) (cs_users s2), cs_roster_frame := None\<rparr>
                | Some oldest \<Rightarrow> reseat_user_info sj (pm_user_id m) oldest s2)
               in (Some \<lparr>last_for_user = (oldest_left = None), leave_user_id = pm_user_id m\<rparr>, s3))))"

definition cs_add ::
  "serde_json \<Rightarrow> string \<Rightarrow> connection_handle \<Rightarrow> presence_member option \<Rightarrow> channel_state
     \<Rightarrow> presence_join option \<times> channel_state" where
  "cs_add sj channel handle member s =
     (let sid = handle_socket_id handle;
          s1 = snd (cs_remove sj sid s);
          (join, s2) =
            (case member of
               None \<Rightarrow> (None, s1)
             | Some m \<Rightarrow>
               (let u = (case map_of (cs_users s1) (pm_user_id m) of
                           Some u \<Rightarrow> u
                         | None \<Rightarrow> \<lparr>pu_info = pm_user_info m, pu_conns = []\<rparr>);
                    u' = u\<lparr>pu_conns := pu_conns u @ [sid]\<rparr>
                in (Some \<lparr>first_for_user = (length (pu_conns u') = 1), join_roster_frame = '''',
                          join_member = m\<rparr>,
                    s1\<lparr>cs_users := bt_insert (pm_user_id m) u' (cs_users s1)\<rparr>)));
          s3 = s2\<lparr>cs_subscribers :=
                    AList.update sid \<lparr>sub_handle = handle, sub_member = member\<rparr> (cs_subscribers s2),
                  cs_snapshot := None\<rparr>;
          s4 = (case join of
                  Some j \<Rightarrow> if first_for_user j then s3\<lparr>cs_roster_frame := None\<rparr> else s3
                | None \<Rightarrow> s3)
      in case join of
           None \<Rightarrow> (None, s4)
         | Some j \<Rightarrow>
           (let (f, s5) = cached_roster_frame sj channel s4
            in (Some (j\<lparr>join_roster_frame := f\<rparr>), s5)))"


section \<open>Fan-out\<close>

definition PARALLEL_THRESHOLD :: nat where "PARALLEL_THRESHOLD = 256"
definition SEND_CHUNK :: nat where "SEND_CHUNK = 512"

record fanout =
  fo_frame :: string
  fo_snapshot :: shared_snapshot
  fo_except :: "socket_id option"
  fo_parallel :: bool

definition cs_fanout ::
  "serde_json \<Rightarrow> server_event \<Rightarrow> socket_id option \<Rightarrow> channel_state \<Rightarrow> fanout \<times> channel_state" where
  "cs_fanout sj event except s =
     (let frame = (case event of Raw f \<Rightarrow> f | _ \<Rightarrow> active_frame sj event);
          (snap, s') = (case cs_snapshot s of
             Some v \<Rightarrow> (v, s)
           | None \<Rightarrow> (cs_subscribers s, s\<lparr>cs_snapshot := Some (cs_subscribers s)\<rparr>))
      in (\<lparr>fo_frame = frame, fo_snapshot = snap, fo_except = except,
           fo_parallel = (PARALLEL_THRESHOLD < length (cs_subscribers s))\<rparr>, s'))"

text \<open>The body of the loop over the snapshot, for one subscriber.\<close>

definition send_one ::
  "string \<Rightarrow> socket_id option \<Rightarrow> socket_id \<times> subscriber \<Rightarrow> mailboxes \<Rightarrow> mailboxes" where
  "send_one frame except e w =
     (if Some (fst e) = except then w else deliver (sub_handle (snd e)) (Raw frame) w)"

function par_chunks :: "nat \<Rightarrow> 'a list \<Rightarrow> 'a list list" where
  "par_chunks n xs = (if xs = [] \<or> n = 0 then [] else take n xs # par_chunks n (drop n xs))"
  by pat_completeness auto
termination by (relation "measure (length \<circ> snd)") auto

declare par_chunks.simps [simp del]

text \<open>
  The jobs of the pool, one per chunk, run concurrently. A schedule names, step by step, the
  job that performs its next send; the remaining work of every job is threaded through.
\<close>

fun run_chunks ::
  "string \<Rightarrow> socket_id option \<Rightarrow> nat list \<Rightarrow> shared_snapshot list \<Rightarrow> mailboxes
     \<Rightarrow> shared_snapshot list \<times> mailboxes" where
  "run_chunks frame except [] cs w = (cs, w)"
| "run_chunks frame except (i # sched) cs w =
     (if i < length cs \<and> cs ! i \<noteq> []
      then run_chunks frame except sched (cs[i := tl (cs ! i)]) (send_one frame except (hd (cs ! i)) w)
      else run_chunks frame except sched cs w)"

text \<open>The result with the work left, which is empty when every job has finished.\<close>

definition fanout_send :: "nat list \<Rightarrow> fanout \<Rightarrow> mailboxes \<Rightarrow> shared_snapshot list \<times> mailboxes" where
  "fanout_send sched f w =
     (if \<not> fo_parallel f then ([], fold (send_one (fo_frame f) (fo_except f)) (fo_snapshot f) w)
      else run_chunks (fo_frame f) (fo_except f) sched (par_chunks SEND_CHUNK (fo_snapshot f)) w)"


section \<open>Delivery of a fan-out\<close>

text \<open>The mailboxes that a fan-out over \<open>snap\<close> addresses.\<close>

definition mailbox_of :: "socket_id \<times> subscriber \<Rightarrow> nat" where
  "mailbox_of e = inner (handle_mailbox (sub_handle (snd e)))"

definition targets :: "socket_id option \<Rightarrow> (socket_id \<times> subscriber) multiset \<Rightarrow> nat set" where
  "targets except snap = mailbox_of ` {e \<in> set_mset snap. Some (fst e) \<noteq> except}"

definition delivered :: "string \<Rightarrow> nat set \<Rightarrow> (nat \<Rightarrow> chan) \<Rightarrow> nat \<Rightarrow> chan" where
  "delivered frame T q = (\<lambda>c. if c \<in> T then chan_after (Raw frame) (q c) else q c)"

definition own_mailboxes :: "(socket_id \<times> subscriber) multiset \<Rightarrow> bool" where
  "own_mailboxes snap \<longleftrightarrow> (\<forall>c. count (image_mset mailbox_of snap) c \<le> 1)"

lemma chans_send_one:
  "chans (send_one frame except e w) = delivered frame (targets except {#e#}) (chans w)"
  by (auto simp: send_one_def delivered_def targets_def mailbox_of_def chans_deliver)

lemma own_mailboxes_add:
  assumes "own_mailboxes (add_mset e snap)"
  shows "own_mailboxes snap" and "mailbox_of e \<notin> mailbox_of ` set_mset snap"
proof -
  show "own_mailboxes snap"
    using assms unfolding own_mailboxes_def
    by (metis count_add_mset image_mset_add_mset le_SucI not_less_eq_eq)
  have "count (image_mset mailbox_of snap) (mailbox_of e) = 0"
    using assms unfolding own_mailboxes_def
    by (metis One_nat_def Suc_le_mono count_add_mset image_mset_add_mset le_zero_eq)
  then show "mailbox_of e \<notin> mailbox_of ` set_mset snap"
    by (metis count_eq_zero_iff set_image_mset)
qed

lemma delivered_add:
  assumes "own_mailboxes (add_mset e snap)"
  shows "delivered frame (targets except snap) (delivered frame (targets except {#e#}) q) =
    delivered frame (targets except (add_mset e snap)) q"
  using own_mailboxes_add (2) [OF assms] by (fastforce simp: delivered_def targets_def)

lemma chans_fold_send_one:
  "own_mailboxes (mset snap) \<Longrightarrow>
     chans (fold (send_one frame except) snap w) =
       delivered frame (targets except (mset snap)) (chans w)"
proof (induction snap arbitrary: w)
  case Nil
  then show ?case by (simp add: delivered_def targets_def)
next
  case (Cons e snap)
  with own_mailboxes_add (1) [of e "mset snap"] show ?case
    by (simp add: chans_send_one delivered_add)
qed

lemma mset_concat_step:
  assumes "i < length cs" and "cs ! i \<noteq> []"
  shows "mset (concat cs) = add_mset (hd (cs ! i)) (mset (concat (cs[i := tl (cs ! i)])))"
  using assms
proof (induction cs arbitrary: i)
  case (Cons c cs)
  then show ?case
    by (cases i; cases c) auto
qed simp

lemma chans_run_chunks:
  assumes "own_mailboxes (mset (concat cs))"
    and "run_chunks frame except sched cs w = (cs', w')" and "concat cs' = []"
  shows "chans w' = delivered frame (targets except (mset (concat cs))) (chans w)"
  using assms
proof (induction frame except sched cs w rule: run_chunks.induct)
  case (1 frame except cs w)
  then have "mset (concat cs) = {#}" by simp
  with 1 show ?case by (simp only: targets_def delivered_def) simp
next
  case (2 frame except i sched cs w)
  show ?case
  proof (cases "i < length cs \<and> cs ! i \<noteq> []")
    case True
    then have "mset (concat cs) = add_mset (hd (cs ! i)) (mset (concat (cs[i := tl (cs ! i)])))"
      using mset_concat_step by blast
    with 2 True own_mailboxes_add (1) show ?thesis
      by (auto simp: chans_send_one delivered_add)
  next
    case False
    with 2 show ?thesis by auto
  qed
qed

lemma concat_par_chunks: "0 < n \<Longrightarrow> concat (par_chunks n xs) = xs"
proof (induction n xs rule: par_chunks.induct)
  case (1 n xs)
  then show ?case
    by (cases "xs = []") (simp_all add: par_chunks.simps [of n])
qed


section \<open>The reference behaviour\<close>

text \<open>
  The reference state is the list of current subscriptions in join order. A user's live
  connections are read off it in that order.
\<close>

type_synonym subscriptions = "(socket_id \<times> presence_member option) list"

definition ref_remove :: "socket_id \<Rightarrow> subscriptions \<Rightarrow> subscriptions" where
  "ref_remove sid l = filter (\<lambda>e. fst e \<noteq> sid) l"

definition ref_add :: "socket_id \<Rightarrow> presence_member option \<Rightarrow> subscriptions \<Rightarrow> subscriptions" where
  "ref_add sid member l = ref_remove sid l @ [(sid, member)]"

definition of_user :: "string \<Rightarrow> presence_member option \<Rightarrow> bool" where
  "of_user uid mo = (case mo of None \<Rightarrow> False | Some m \<Rightarrow> pm_user_id m = uid)"

definition ref_conns :: "string \<Rightarrow> subscriptions \<Rightarrow> socket_id list" where
  "ref_conns uid l = map fst (filter (\<lambda>e. of_user uid (snd e)) l)"

text \<open>What the roster advertises for a user: the info of the oldest live connection.\<close>

definition same_info :: "serde_json \<Rightarrow> json \<Rightarrow> json \<Rightarrow> bool" where
  "same_info sj a b = (a = b \<or> value_eq sj a b)"

definition user_rel :: "serde_json \<Rightarrow> subscriptions \<Rightarrow> string \<Rightarrow> presence_user option \<Rightarrow> bool" where
  "user_rel sj l uid u =
     (case u of
        None \<Rightarrow> ref_conns uid l = []
      | Some pu \<Rightarrow> ref_conns uid l \<noteq> [] \<and> pu_conns pu = ref_conns uid l \<and>
          (\<exists>m. map_of l (hd (ref_conns uid l)) = Some (Some m) \<and> same_info sj (pu_info pu) (pm_user_info m)))"

definition subs_rel :: "(socket_id \<times> subscriber) list \<Rightarrow> subscriptions \<Rightarrow> bool" where
  "subs_rel subs l \<longleftrightarrow>
     hm_ok subs \<and> distinct (map fst l) \<and> map_of l = map_option sub_member \<circ> map_of subs \<and>
     (\<forall>sid sub. map_of subs sid = Some sub \<longrightarrow> handle_socket_id (sub_handle sub) = sid)"

definition caches_ok :: "serde_json \<Rightarrow> string \<Rightarrow> channel_state \<Rightarrow> bool" where
  "caches_ok sj channel s \<longleftrightarrow>
     (\<forall>v. cs_snapshot s = Some v \<longrightarrow> v = cs_subscribers s) \<and>
     (\<forall>f. cs_roster_frame s = Some f \<longrightarrow>
        f = active_frame sj (SubscriptionSucceeded channel (Some (roster s))))"

definition cs_rel :: "serde_json \<Rightarrow> string \<Rightarrow> channel_state \<Rightarrow> subscriptions \<Rightarrow> bool" where
  "cs_rel sj channel s l \<longleftrightarrow>
     subs_rel (cs_subscribers s) l \<and> bt_ok (cs_users s) \<and>
     (\<forall>uid. user_rel sj l uid (map_of (cs_users s) uid)) \<and> caches_ok sj channel s"

lemma distinct_ref_remove: "distinct (map fst l) \<Longrightarrow> distinct (map fst (ref_remove sid l))"
  unfolding ref_remove_def by (rule distinct_map_filter)

lemma map_of_ref_remove: "map_of (ref_remove sid l) = (map_of l)(sid := None)"
  unfolding ref_remove_def by (induction l) auto

lemma map_of_snoc_fresh:
  "k \<notin> fst ` set l \<Longrightarrow> map_of (l @ [(k, v)]) = (map_of l)(k \<mapsto> v)"
  by (induction l) (auto simp: fun_upd_twist)

lemma ref_conns_remove: "ref_conns uid (ref_remove sid l) = filter (\<lambda>x. x \<noteq> sid) (ref_conns uid l)"
  unfolding ref_conns_def ref_remove_def by (induction l) auto

lemma ref_conns_snoc:
  "ref_conns uid (l @ [(sid, mo)]) = ref_conns uid l @ (if of_user uid mo then [sid] else [])"
  by (simp add: ref_conns_def)

lemma set_ref_conns:
  "distinct (map fst l) \<Longrightarrow>
     sid \<in> set (ref_conns uid l) \<longleftrightarrow> (\<exists>mo. map_of l sid = Some mo \<and> of_user uid mo)"
  by (auto simp: ref_conns_def map_of_eq_Some_iff image_iff)

lemma distinct_ref_conns: "distinct (map fst l) \<Longrightarrow> distinct (ref_conns uid l)"
  unfolding ref_conns_def by (rule distinct_map_filter)

lemma ref_conns_remove_other:
  "distinct (map fst l) \<Longrightarrow> map_of l sid = Some mo \<Longrightarrow> \<not> of_user uid mo \<Longrightarrow>
     ref_conns uid (ref_remove sid l) = ref_conns uid l"
  using set_ref_conns [of l sid uid] by (auto simp: ref_conns_remove filter_id_conv)

lemma hd_ref_conns:
  assumes "distinct (map fst l)" and "ref_conns uid l \<noteq> []"
  shows "\<exists>m. map_of l (hd (ref_conns uid l)) = Some (Some m) \<and> pm_user_id m = uid"
proof -
  have "hd (ref_conns uid l) \<in> set (ref_conns uid l)" using assms(2) by simp
  with assms(1) show ?thesis
    by (auto simp: set_ref_conns of_user_def split: option.splits)
qed

text \<open>Only the subscriptions of a user matter for its roster entry.\<close>

lemma user_rel_cong:
  assumes "ref_conns uid l' = ref_conns uid l"
    and "\<And>sid. sid \<in> set (ref_conns uid l) \<Longrightarrow> map_of l' sid = map_of l sid"
  shows "user_rel sj l' uid u = user_rel sj l uid u"
  using assms(2) [of "hd (ref_conns uid l)"]
  by (cases "ref_conns uid l = []") (auto simp: user_rel_def assms(1) split: option.splits)

lemma user_rel_remove_other:
  assumes "distinct (map fst l)" and "map_of l sid = Some mo" and "\<not> of_user uid mo"
  shows "user_rel sj (ref_remove sid l) uid u = user_rel sj l uid u"
proof (rule user_rel_cong)
  show "ref_conns uid (ref_remove sid l) = ref_conns uid l"
    using assms by (rule ref_conns_remove_other)
  show "map_of (ref_remove sid l) x = map_of l x" if "x \<in> set (ref_conns uid l)" for x
  proof -
    from that assms have "x \<noteq> sid" by (metis set_ref_conns option.inject)
    then show ?thesis by (simp add: map_of_ref_remove)
  qed
qed

lemma subs_rel_remove:
  "subs_rel subs l \<Longrightarrow> subs_rel (AList.delete sid subs) (ref_remove sid l)"
  by (auto simp: subs_rel_def hm_simps distinct_ref_remove map_of_ref_remove fun_eq_iff)

lemma subs_rel_add:
  assumes "subs_rel subs l" and "sid \<notin> fst ` set l" and "handle_socket_id handle = sid"
  shows "subs_rel (AList.update sid \<lparr>sub_handle = handle, sub_member = member\<rparr> subs) (l @ [(sid, member)])"
  using assms
  by (auto simp: subs_rel_def hm_simps map_of_snoc_fresh fun_eq_iff simp del: map_of_append)

lemma notin_ref_remove: "sid \<notin> fst ` set (ref_remove sid l)"
  by (auto simp: ref_remove_def)

lemma reseat_user_info_correct:
  assumes subs: "subs_rel (cs_subscribers s) l" and users: "bt_ok (cs_users s)"
    and pu: "map_of (cs_users s) uid = Some pu"
    and conns: "ref_conns uid l \<noteq> []" "pu_conns pu = ref_conns uid l"
    and others: "\<And>v. v \<noteq> uid \<Longrightarrow> user_rel sj l v (map_of (cs_users s) v)"
    and caches: "caches_ok sj channel s"
    and t: "t = reseat_user_info sj uid (hd (ref_conns uid l)) s"
  shows "cs_rel sj channel t l"
proof -
  from subs have dist: "distinct (map fst l)" by (simp add: subs_rel_def)
  from hd_ref_conns [OF dist conns(1)] obtain m where
    m: "map_of l (hd (ref_conns uid l)) = Some (Some m)" by blast
  with subs obtain sub where sub: "map_of (cs_subscribers s) (hd (ref_conns uid l)) = Some sub"
    and mem: "sub_member sub = Some m"
    unfolding subs_rel_def by (auto simp: fun_eq_iff)
  show ?thesis
  proof (cases "value_eq sj (pu_info pu) (pm_user_info m)")
    case True
    then have "t = s" using t pu sub mem by (simp add: reseat_user_info_def)
    moreover have "user_rel sj l uid (Some pu)"
      using True conns m by (auto simp: user_rel_def same_info_def)
    ultimately show ?thesis
      using subs users others caches pu by (auto simp: cs_rel_def) metis
  next
    case False
    then have t': "t = s\<lparr>cs_users := bt_insert uid (pu\<lparr>pu_info := pm_user_info m\<rparr>) (cs_users s),
        cs_roster_frame := None\<rparr>"
      using t pu sub mem by (simp add: reseat_user_info_def)
    have "user_rel sj l uid (Some (pu\<lparr>pu_info := pm_user_info m\<rparr>))"
      using conns m by (auto simp: user_rel_def same_info_def)
    then show ?thesis
      unfolding t' cs_rel_def using subs users others caches
      by (auto simp: bt_simps caches_ok_def)
  qed
qed

lemma bt_insert_same_key:
  assumes "bt_ok m" and "map_of m k = Some v" and "f v' = f v"
  shows "map fst (bt_insert k v' m) = map fst m"
    and "map (\<lambda>(i, u). (i, f u)) (bt_insert k v' m) = map (\<lambda>(i, u). (i, f u)) m"
  using assms
  by (induction k v' m rule: bt_insert.induct)
    (auto simp: bt_ok_Cons split: if_splits dest!: map_of_SomeD)

text \<open>Removal of a presence member, in the two cases of the code.\<close>

definition after_delete :: "socket_id \<Rightarrow> channel_state \<Rightarrow> channel_state" where
  "after_delete sid s =
     s\<lparr>cs_subscribers := AList.delete sid (cs_subscribers s), cs_snapshot := None\<rparr>"

lemma cs_remove_member:
  assumes "map_of (cs_subscribers s) sid = Some sub" and "sub_member sub = Some m"
    and "map_of (cs_users s) (pm_user_id m) = Some pu"
    and "cs = filter (\<lambda>x. x \<noteq> sid) (pu_conns pu)"
    and "s2 = (after_delete sid s)\<lparr>cs_users := bt_insert (pm_user_id m) (pu\<lparr>pu_conns := cs\<rparr>) (cs_users s)\<rparr>"
  shows "cs_remove sj sid s =
    (Some \<lparr>last_for_user = (cs = []), leave_user_id = pm_user_id m\<rparr>,
     if cs = [] then s2\<lparr>cs_users := bt_remove (pm_user_id m) (cs_users s2), cs_roster_frame := None\<rparr>
     else reseat_user_info sj (pm_user_id m) (hd cs) s2)"
  using assms(1-3) unfolding assms(4,5)
  by (cases "filter (\<lambda>x. x \<noteq> sid) (pu_conns pu)") (simp_all add: cs_remove_def after_delete_def Let_def)

lemma cs_rel_remove_member:
  assumes rel: "cs_rel sj channel s l" and m: "map_of l sid = Some (Some m)"
    and r: "cs_remove sj sid s = (leave, s')"
  shows "cs_rel sj channel s' (ref_remove sid l) \<and>
    leave = Some \<lparr>last_for_user = (ref_conns (pm_user_id m) (ref_remove sid l) = []),
                  leave_user_id = pm_user_id m\<rparr>"
proof -
  let ?l = "ref_remove sid l" and ?u = "pm_user_id m"
  have subs: "subs_rel (cs_subscribers s) l" and users: "bt_ok (cs_users s)"
    and urel: "user_rel sj l uid (map_of (cs_users s) uid)" and caches: "caches_ok sj channel s" for uid
    using rel by (auto simp: cs_rel_def)
  have dist: "distinct (map fst l)" using subs by (simp add: subs_rel_def)
  from subs m obtain sub where sub: "map_of (cs_subscribers s) sid = Some sub" "sub_member sub = Some m"
    by (auto simp: subs_rel_def)
  have "sid \<in> set (ref_conns ?u l)"
    using dist m by (simp add: set_ref_conns of_user_def)
  with urel [of ?u] obtain pu where pu: "map_of (cs_users s) ?u = Some pu" "pu_conns pu = ref_conns ?u l"
    by (auto simp: user_rel_def split: option.splits)
  define s2 where "s2 = (after_delete sid s)\<lparr>cs_users :=
    bt_insert ?u (pu\<lparr>pu_conns := ref_conns ?u ?l\<rparr>) (cs_users s)\<rparr>"
  have conns: "ref_conns ?u ?l = filter (\<lambda>x. x \<noteq> sid) (pu_conns pu)"
    by (simp add: pu(2) ref_conns_remove)
  note r' = r [unfolded cs_remove_member [OF sub pu(1) conns s2_def]]
  have subs2: "subs_rel (cs_subscribers s2) ?l"
    using subs by (simp add: s2_def after_delete_def subs_rel_remove)
  have others: "user_rel sj ?l uid (map_of (cs_users s) uid)" if "uid \<noteq> ?u" for uid
    using user_rel_remove_other [OF dist m, of uid] that urel by (simp add: of_user_def)
  show ?thesis
  proof (cases "ref_conns ?u ?l = []")
    case True
    with r' have "s' = s2\<lparr>cs_users := bt_remove ?u (cs_users s2), cs_roster_frame := None\<rparr>"
      and leave: "leave = Some \<lparr>last_for_user = True, leave_user_id = ?u\<rparr>" by auto
    then have "cs_rel sj channel s' ?l"
      using subs2 others True users
      by (auto simp: cs_rel_def caches_ok_def s2_def after_delete_def bt_simps user_rel_def)
    with leave True show ?thesis by simp
  next
    case False
    have ros: "roster s2 = roster s"
      using bt_insert_same_key [of "cs_users s" ?u pu pu_info "pu\<lparr>pu_conns := ref_conns ?u ?l\<rparr>"] users pu(1)
      by (simp add: roster_def s2_def bt.len_ins)
    have "cs_rel sj channel s' ?l"
    proof (rule reseat_user_info_correct [OF subs2])
      show "s' = reseat_user_info sj ?u (hd (ref_conns ?u ?l)) s2" using r' False by simp
      show "caches_ok sj channel s2"
        using caches ros by (simp add: caches_ok_def s2_def after_delete_def)
    qed (use False users others in \<open>auto simp: s2_def bt_simps\<close>)
    with r' False show ?thesis by auto
  qed
qed

text \<open>
  Removal, on the concrete and on the reference state; \<open>last_for_user\<close> is exact.
\<close>

lemma cs_remove_rel:
  assumes rel: "cs_rel sj channel s l" and r: "cs_remove sj sid s = (leave, s')"
  shows "cs_rel sj channel s' (ref_remove sid l) \<and>
    leave = Option.bind (map_of l sid) (map_option (\<lambda>m.
      \<lparr>last_for_user = (ref_conns (pm_user_id m) (ref_remove sid l) = []), leave_user_id = pm_user_id m\<rparr>))"
proof -
  have subs: "subs_rel (cs_subscribers s) l"
    and urel: "user_rel sj l uid (map_of (cs_users s) uid)" and caches: "caches_ok sj channel s" for uid
    using rel by (auto simp: cs_rel_def)
  have dist: "distinct (map fst l)"
    and mo: "map_of l sid = map_option sub_member (map_of (cs_subscribers s) sid)"
    using subs by (auto simp: subs_rel_def)
  consider "map_of l sid = None" | "map_of l sid = Some None" | m where "map_of l sid = Some (Some m)"
    by (cases "map_of l sid") auto
  then show ?thesis
  proof cases
    case 1
    then have "ref_remove sid l = l" by (auto simp: ref_remove_def filter_id_conv map_of_eq_None_iff)
    with 1 rel r mo show ?thesis by (simp add: cs_remove_def)
  next
    case 2
    with mo obtain sub where "map_of (cs_subscribers s) sid = Some sub" "sub_member sub = None"
      by (cases "map_of (cs_subscribers s) sid") auto
    with r have "leave = None" and s': "s' = after_delete sid s"
      by (auto simp: cs_remove_def after_delete_def)
    moreover have "user_rel sj (ref_remove sid l) uid (map_of (cs_users s') uid)" for uid
      using urel [of uid] user_rel_remove_other [OF dist 2, of uid]
      by (simp add: of_user_def s' after_delete_def)
    ultimately show ?thesis
      using rel subs 2
      by (auto simp: cs_rel_def caches_ok_def roster_def after_delete_def subs_rel_remove)
  next
    case 3
    from cs_rel_remove_member [OF rel 3 r] 3 show ?thesis by simp
  qed
qed

lemma user_rel_snoc_other:
  assumes dist: "distinct (map fst l)" and "sid \<notin> fst ` set l" and "\<not> of_user uid mo"
  shows "user_rel sj (l @ [(sid, mo)]) uid u = user_rel sj l uid u"
proof (rule user_rel_cong)
  show "ref_conns uid (l @ [(sid, mo)]) = ref_conns uid l"
    using assms by (simp add: ref_conns_snoc)
  show "map_of (l @ [(sid, mo)]) x = map_of l x" if "x \<in> set (ref_conns uid l)" for x
  proof -
    from that assms have "x \<noteq> sid" by (auto simp: ref_conns_def)
    with assms show ?thesis by (simp add: map_of_snoc_fresh del: map_of_append)
  qed
qed

lemma cached_roster_frame_rel:
  assumes "cs_rel sj channel s l" and "cached_roster_frame sj channel s = (f, s')"
  shows "cs_rel sj channel s' l \<and> roster s' = roster s \<and>
    f = active_frame sj (SubscriptionSucceeded channel (Some (roster s)))"
  using assms
  by (auto simp: cs_rel_def caches_ok_def cached_roster_frame_def roster_def Let_def
      split: option.splits)

text \<open>The state before the frame is attached to the join, in the three cases of the code.\<close>

definition with_subscriber ::
  "connection_handle \<Rightarrow> presence_member option \<Rightarrow> channel_state \<Rightarrow> channel_state" where
  "with_subscriber handle member s =
     s\<lparr>cs_subscribers := AList.update (handle_socket_id handle)
          \<lparr>sub_handle = handle, sub_member = member\<rparr> (cs_subscribers s), cs_snapshot := None\<rparr>"

lemma with_subscriber_simps [simp]:
  "cs_users (with_subscriber handle member s) = cs_users s"
  "roster (with_subscriber handle member s) = roster s"
  "cs_roster_frame (with_subscriber handle member s) = cs_roster_frame s"
  by (simp_all add: with_subscriber_def roster_def)

lemma cs_rel_enter_plain:
  assumes rel: "cs_rel sj channel s l" and "sid \<notin> fst ` set l" and "handle_socket_id handle = sid"
  shows "cs_rel sj channel (with_subscriber handle None s) (l @ [(sid, None)])"
proof -
  from rel have "distinct (map fst l)" by (simp add: cs_rel_def subs_rel_def)
  with assms show ?thesis
    by (auto simp: cs_rel_def with_subscriber_def subs_rel_add caches_ok_def roster_def
        user_rel_snoc_other of_user_def)
qed

lemma cs_rel_enter_first:
  assumes rel: "cs_rel sj channel s l" and new: "sid \<notin> fst ` set l"
    and h: "handle_socket_id handle = sid" and none: "map_of (cs_users s) (pm_user_id m) = None"
  shows "cs_rel sj channel ((with_subscriber handle (Some m) (s\<lparr>cs_users :=
        bt_insert (pm_user_id m) \<lparr>pu_info = pm_user_info m, pu_conns = [sid]\<rparr> (cs_users s)\<rparr>))
      \<lparr>cs_roster_frame := None\<rparr>) (l @ [(sid, Some m)])"
    (is "cs_rel sj channel ?t ?l")
proof -
  from rel have dist: "distinct (map fst l)" and bt: "bt_ok (cs_users s)"
    and none': "ref_conns (pm_user_id m) l = []"
    using none by (auto simp: cs_rel_def subs_rel_def user_rel_def dest!: spec [of _ "pm_user_id m"])
  have "user_rel sj ?l uid (map_of (cs_users ?t) uid)" for uid
  proof (cases "uid = pm_user_id m")
    case True
    with none' new bt show ?thesis
      by (auto simp: user_rel_def bt_simps ref_conns_snoc of_user_def same_info_def map_of_snoc_fresh
          simp del: map_of_append)
  next
    case False
    with rel bt new dist show ?thesis
      by (auto simp: user_rel_snoc_other of_user_def bt_simps cs_rel_def)
  qed
  with rel new h bt show ?thesis
    by (auto simp: cs_rel_def with_subscriber_def subs_rel_add caches_ok_def bt_simps)
qed

lemma cs_rel_enter_again:
  assumes rel: "cs_rel sj channel s l" and new: "sid \<notin> fst ` set l"
    and h: "handle_socket_id handle = sid" and some: "map_of (cs_users s) (pm_user_id m) = Some pu"
  shows "cs_rel sj channel (with_subscriber handle (Some m) (s\<lparr>cs_users :=
        bt_insert (pm_user_id m) (pu\<lparr>pu_conns := pu_conns pu @ [sid]\<rparr>) (cs_users s)\<rparr>))
      (l @ [(sid, Some m)])"
    (is "cs_rel sj channel ?t ?l")
proof -
  let ?u = "pm_user_id m"
  from rel have dist: "distinct (map fst l)" and bt: "bt_ok (cs_users s)"
    and pu: "user_rel sj l ?u (Some pu)"
    using some by (auto simp: cs_rel_def subs_rel_def dest!: spec [of _ "pm_user_id m"])
  have ros: "roster ?t = roster s"
    using bt_insert_same_key [of "cs_users s" ?u pu pu_info "pu\<lparr>pu_conns := pu_conns pu @ [sid]\<rparr>"] bt some
    by (simp add: roster_def bt.len_ins)
  have "user_rel sj ?l uid (map_of (cs_users ?t) uid)" for uid
  proof (cases "uid = ?u")
    case True
    from pu have "ref_conns ?u l \<noteq> []" by (simp add: user_rel_def)
    then have "hd (ref_conns ?u l) \<in> set (ref_conns ?u l)" by simp
    then have "hd (ref_conns ?u l) \<noteq> sid" using new by (auto simp: ref_conns_def)
    with True pu new bt show ?thesis
      by (auto simp: user_rel_def bt_simps ref_conns_snoc of_user_def map_of_snoc_fresh
          simp del: map_of_append)
  next
    case False
    with rel bt new dist show ?thesis
      by (auto simp: user_rel_snoc_other of_user_def bt_simps cs_rel_def)
  qed
  with rel new h bt ros show ?thesis
    by (auto simp: cs_rel_def with_subscriber_def subs_rel_add caches_ok_def bt_simps)
qed

lemma cs_add_rel:
  assumes rel: "cs_rel sj channel s l" and a: "cs_add sj channel handle member s = (join, s')"
    and sid: "handle_socket_id handle = sid"
  shows "cs_rel sj channel s' (ref_add sid member l) \<and>
    join = map_option (\<lambda>m. \<lparr>first_for_user = (ref_conns (pm_user_id m) (ref_remove sid l) = []),
      join_roster_frame = active_frame sj (SubscriptionSucceeded channel (Some (roster s'))),
      join_member = m\<rparr>) member"
proof -
  let ?l = "ref_remove sid l"
  obtain leave s1 where r: "cs_remove sj sid s = (leave, s1)" by fastforce
  with rel have rel1: "cs_rel sj channel s1 ?l" using cs_remove_rel by blast
  note new = notin_ref_remove [of sid l]
  show ?thesis
  proof (cases member)
    case None
    with a r sid have "join = None" and "s' = with_subscriber handle None s1"
      by (auto simp: cs_add_def with_subscriber_def)
    with None cs_rel_enter_plain [OF rel1 new sid] show ?thesis by (simp add: ref_add_def)
  next
    case (Some m)
    let ?u = "pm_user_id m"
    define pu where "pu = (case map_of (cs_users s1) ?u of
      Some u \<Rightarrow> u | None \<Rightarrow> \<lparr>pu_info = pm_user_info m, pu_conns = []\<rparr>)"
    define s4 where "s4 = (with_subscriber handle (Some m) (s1\<lparr>cs_users :=
        bt_insert ?u (pu\<lparr>pu_conns := pu_conns pu @ [sid]\<rparr>) (cs_users s1)\<rparr>))
      \<lparr>cs_roster_frame := if pu_conns pu = [] then None else cs_roster_frame s1\<rparr>"
    have conns: "pu_conns pu = ref_conns ?u ?l"
      and rel4: "cs_rel sj channel s4 (ref_add sid member l)"
    proof (atomize (full), cases "map_of (cs_users s1) ?u")
      case None
      with rel1 have "ref_conns ?u ?l = []"
        by (auto simp: cs_rel_def user_rel_def dest!: spec [of _ ?u])
      with None cs_rel_enter_first [OF rel1 new sid None] Some
      show "pu_conns pu = ref_conns ?u ?l \<and> cs_rel sj channel s4 (ref_add sid member l)"
        by (simp add: pu_def s4_def ref_add_def)
    next
      case (Some u)
      with rel1 have "pu_conns u = ref_conns ?u ?l" "ref_conns ?u ?l \<noteq> []"
        by (auto simp: cs_rel_def user_rel_def dest!: spec [of _ ?u])
      with Some cs_rel_enter_again [OF rel1 new sid Some] \<open>member = Some m\<close>
      show "pu_conns pu = ref_conns ?u ?l \<and> cs_rel sj channel s4 (ref_add sid member l)"
        by (simp add: pu_def s4_def ref_add_def with_subscriber_def)
    qed
    obtain f s5 where f: "cached_roster_frame sj channel s4 = (f, s5)" by fastforce
    have "cs_add sj channel handle member s =
      (Some \<lparr>first_for_user = (pu_conns pu = []), join_roster_frame = f, join_member = m\<rparr>, s5)"
      using r sid Some f
      by (cases "pu_conns pu")
        (simp_all add: cs_add_def Let_def pu_def s4_def with_subscriber_def split: option.splits)
    with a cached_roster_frame_rel [OF rel4 f] Some conns show ?thesis by auto
  qed
qed

lemma cs_fanout_rel:
  assumes "cs_rel sj channel s l" and "cs_fanout sj ev except s = (f, s')"
  shows "cs_rel sj channel s' l \<and> fo_snapshot f = cs_subscribers s \<and> fo_except f = except \<and>
    fo_frame f = (case ev of Raw x \<Rightarrow> x | _ \<Rightarrow> active_frame sj ev)"
  using assms
  by (auto simp: cs_rel_def caches_ok_def cs_fanout_def roster_def Let_def split: option.splits)

text \<open>Every operation a client of the channel can call, on both sides.\<close>

datatype channel_op =
    AddOp connection_handle "presence_member option"
  | RemoveOp socket_id
  | FanoutOp server_event "socket_id option"
  | RosterFrameOp

fun cs_step :: "serde_json \<Rightarrow> string \<Rightarrow> channel_state \<Rightarrow> channel_op \<Rightarrow> channel_state" where
  "cs_step sj channel s (AddOp handle member) = snd (cs_add sj channel handle member s)"
| "cs_step sj channel s (RemoveOp sid) = snd (cs_remove sj sid s)"
| "cs_step sj channel s (FanoutOp ev except) = snd (cs_fanout sj ev except s)"
| "cs_step sj channel s RosterFrameOp = snd (cached_roster_frame sj channel s)"

fun ref_step :: "subscriptions \<Rightarrow> channel_op \<Rightarrow> subscriptions" where
  "ref_step l (AddOp handle member) = ref_add (handle_socket_id handle) member l"
| "ref_step l (RemoveOp sid) = ref_remove sid l"
| "ref_step l (FanoutOp ev except) = l"
| "ref_step l RosterFrameOp = l"

lemma cs_step_rel:
  assumes rel: "cs_rel sj channel s l"
  shows "cs_rel sj channel (cs_step sj channel s x) (ref_step l x)"
proof (cases x)
  case (AddOp handle member)
  obtain j s' where "cs_add sj channel handle member s = (j, s')" by fastforce
  with AddOp cs_add_rel [OF rel this refl] show ?thesis by simp
next
  case (RemoveOp sid)
  obtain j s' where "cs_remove sj sid s = (j, s')" by fastforce
  with RemoveOp cs_remove_rel [OF rel this] show ?thesis by simp
next
  case (FanoutOp ev except)
  obtain j s' where "cs_fanout sj ev except s = (j, s')" by fastforce
  with FanoutOp cs_fanout_rel [OF rel this] show ?thesis by simp
next
  case RosterFrameOp
  obtain j s' where "cached_roster_frame sj channel s = (j, s')" by fastforce
  with RosterFrameOp cached_roster_frame_rel [OF rel this] show ?thesis by simp
qed

interpretation channel: refinement "cs_step sj channel" ref_step "cs_rel sj channel" for sj channel
  by unfold_locales (rule cs_step_rel)

lemma cs_rel_default: "cs_rel sj channel channel_state_default []"
  by (auto simp: cs_rel_def channel_state_default_def subs_rel_def user_rel_def ref_conns_def
      caches_ok_def fun_eq_iff)

abbreviation cs_run :: "serde_json \<Rightarrow> string \<Rightarrow> channel_op list \<Rightarrow> channel_state" where
  "cs_run sj channel ops \<equiv> foldl (cs_step sj channel) channel_state_default ops"

abbreviation ref_run :: "channel_op list \<Rightarrow> subscriptions" where
  "ref_run ops \<equiv> foldl ref_step [] ops"

lemma cs_run_rel: "cs_rel sj channel (cs_run sj channel ops) (ref_run ops)"
  by (rule channel.run_rel [OF cs_rel_default])

lemma cs_rel_users:
  assumes "cs_rel sj channel s l"
  shows "set (map fst (cs_users s)) = {uid. ref_conns uid l \<noteq> []}"
proof -
  have "user_rel sj l uid (map_of (cs_users s) uid)" for uid
    using assms by (simp add: cs_rel_def)
  then have "ref_conns uid l \<noteq> [] \<longleftrightarrow> map_of (cs_users s) uid \<noteq> None" for uid
    by (cases "map_of (cs_users s) uid") (auto simp: user_rel_def dest: meta_spec [of _ uid])
  then show ?thesis
    unfolding list.set_map map_of_eq_None_iff by blast
qed

lemma cs_rel_count:
  assumes "cs_rel sj channel s l"
  shows "subscription_count s = length l \<and> set (socket_ids s) = fst ` set l"
proof -
  from assms have hm: "hm_ok (cs_subscribers s)" and dist: "distinct (map fst l)"
    and eq: "map_of l = map_option sub_member \<circ> map_of (cs_subscribers s)"
    by (auto simp: cs_rel_def subs_rel_def)
  have "dom (map_of l) = dom (map_of (cs_subscribers s))" unfolding eq by (auto simp: dom_def)
  then have sets: "fst ` set l = fst ` set (cs_subscribers s)" by (simp add: dom_map_of_conv_image_fst)
  have "length (map fst l) = length (map fst (cs_subscribers s))"
    using hm dist sets by (metis distinct_card hm_ok_def list.set_map)
  with sets show ?thesis by (simp add: subscription_count_def socket_ids_def)
qed


section \<open>Properties\<close>

text \<open>
  C21. Whatever sequence of joins, leaves, fan-outs and roster reads a channel has seen, its
  subscriber map and its roster of users agree with the list of current subscriptions in join
  order: every user's connections are listed in that order, the advertised user info is the
  one of the oldest live connection, and both caches equal what they cache.
\<close>

theorem channel_refines_subscriptions:
  "cs_rel sj channel (cs_run sj channel ops) (ref_run ops)"
  by (rule cs_run_rel)

lemma sorted_roster_ids:
  assumes "cs_rel sj channel s l"
  shows "pp_ids (roster s) = sorted_list_of_set {uid. ref_conns uid l \<noteq> []}"
proof -
  from assms have "sorted_wrt (<) (map fst (cs_users s))" by (simp add: cs_rel_def bt_ok_def)
  then have "sorted_list_of_set (set (map fst (cs_users s))) = map fst (cs_users s)"
    by (intro sorted_list_of_set.idem_if_sorted_distinct) (simp_all add: strict_sorted_iff)
  with cs_rel_users [OF assms] show ?thesis by (simp add: roster_def)
qed

text \<open>
  C23. A presence join is reported exactly: \<open>first_for_user\<close> holds iff the user had no other
  live connection on the channel, and the frame handed to the joiner is the encoding of the
  roster after the join, whose ids are the sorted users with a live connection.
\<close>

theorem presence_join_exact:
  assumes "cs_add sj channel handle (Some m) (cs_run sj channel ops) = (join, s')"
    and "l = ref_remove (handle_socket_id handle) (ref_run ops)"
  shows "join = Some \<lparr>first_for_user = (ref_conns (pm_user_id m) l = []),
      join_roster_frame = active_frame sj (SubscriptionSucceeded channel (Some (roster s'))),
      join_member = m\<rparr>
    \<and> pp_ids (roster s') =
        sorted_list_of_set (insert (pm_user_id m) {uid. ref_conns uid l \<noteq> []})
    \<and> pp_count (roster s') = card (insert (pm_user_id m) {uid. ref_conns uid l \<noteq> []})"
proof -
  note add = cs_add_rel [OF cs_run_rel assms(1) refl]
  have set: "{uid. ref_conns uid (ref_add (handle_socket_id handle) (Some m) (ref_run ops)) \<noteq> []} =
      insert (pm_user_id m) {uid. ref_conns uid l \<noteq> []}"
    by (auto simp: ref_add_def ref_conns_snoc of_user_def assms(2))
  from add have "distinct (map fst (cs_users s'))" by (intro bt_ok_distinct) (simp add: cs_rel_def)
  from distinct_card [OF this] have "pp_count (roster s') = card (set (map fst (cs_users s')))"
    by (simp add: roster_def)
  with add sorted_roster_ids [OF conjunct1 [OF add]] cs_rel_users [OF conjunct1 [OF add]] show ?thesis
    by (simp only: set assms(2) option.map)
qed

definition example_handle :: "string \<Rightarrow> nat \<Rightarrow> connection_handle" where
  "example_handle sid q =
     \<lparr>handle_socket_id = from_raw sid,
      handle_mailbox = \<lparr>inner = q, notify = Some \<lparr>token = q, dirty = 0\<rparr>, mailbox_dropped = Some 0\<rparr>\<rparr>"

definition example_json :: serde_json where
  "example_json = \<lparr>from_str = (\<lambda>_. None), to_string = (\<lambda>_. ''json''),
     number_to_string = (\<lambda>_. ''0''), value_eq = (=)\<rparr>"

lemma from_raw_eq_iff:
  "length s \<le> CAPACITY \<Longrightarrow> length t \<le> CAPACITY \<Longrightarrow> from_raw s = from_raw t \<longleftrightarrow> s = t"
  by (auto simp: from_raw_def Let_def min_absorb1)

theorem presence_join_exact_witness:
  "let alice = \<lparr>pm_user_id = ''alice'', pm_user_info = Null\<rparr>;
       s = cs_run example_json ''presence-c'' [AddOp (example_handle ''1.1'' 0) (Some alice)];
       (join, s') = cs_add example_json ''presence-c'' (example_handle ''2.2'' 1) (Some alice) s
   in map_option first_for_user join = Some False \<and> pp_ids (roster s') = [''alice'']
      \<and> pp_count (roster s') = 1"
proof -
  let ?alice = "\<lparr>pm_user_id = ''alice'', pm_user_info = Null\<rparr>"
  let ?ops = "[AddOp (example_handle ''1.1'' 0) (Some ?alice)]"
  let ?r = "cs_add example_json ''presence-c'' (example_handle ''2.2'' 1) (Some ?alice)
    (cs_run example_json ''presence-c'' ?ops)"
  let ?l = "ref_remove (from_raw ''2.2'') (ref_run ?ops)"
  have l: "?l = [(from_raw ''1.1'', Some ?alice)]"
    by (simp add: ref_remove_def ref_add_def example_handle_def from_raw_eq_iff CAPACITY_def)
  have "{uid. ref_conns uid ?l \<noteq> []} = {''alice''}"
    unfolding l by (auto simp: ref_conns_def of_user_def)
  with presence_join_exact [of example_json "''presence-c''" "example_handle ''2.2'' 1" ?alice ?ops
      "fst ?r" "snd ?r" ?l] l
  show ?thesis
    by (simp add: case_prod_unfold Let_def example_handle_def ref_conns_def of_user_def)
qed

text \<open>
  A leave is reported exactly: \<open>last_for_user\<close> holds iff no other live connection of the
  user remains, a socket that was no presence member reports nothing, and afterwards the
  socket is in no user's list of connections.
\<close>

lemma presence_leave_exact:
  assumes "cs_remove sj sid (cs_run sj channel ops) = (leave, s')"
    and "l = ref_remove sid (ref_run ops)"
  shows "leave = (case map_of (ref_run ops) sid of
        Some (Some m) \<Rightarrow> Some \<lparr>last_for_user = (ref_conns (pm_user_id m) l = []), leave_user_id = pm_user_id m\<rparr>
      | _ \<Rightarrow> None)
    \<and> sid \<notin> set (socket_ids s')
    \<and> pp_ids (roster s') = sorted_list_of_set {uid. ref_conns uid l \<noteq> []}"
proof -
  note rm = cs_remove_rel [OF cs_run_rel assms(1)]
  from cs_rel_count [OF conjunct1 [OF rm]] have "sid \<notin> set (socket_ids s')"
    using notin_ref_remove [of sid "ref_run ops"] by simp
  with rm sorted_roster_ids [OF conjunct1 [OF rm]] show ?thesis
    by (auto simp: assms(2) split: option.splits bind_splits)
qed

text \<open>The jobs of a parallel fan-out can always be run to the end.\<close>

lemma run_chunks_all:
  "\<exists>sched. concat (fst (run_chunks frame except sched cs w)) = []"
proof (induction "length (concat cs)" arbitrary: cs w rule: less_induct)
  case less
  show ?case
  proof (cases "concat cs = []")
    case True
    then show ?thesis by (intro exI [of _ "[]"]) simp
  next
    case False
    then obtain c where "c \<in> set cs" "c \<noteq> []" by auto
    then obtain i where i: "i < length cs" "cs ! i \<noteq> []" by (auto simp: in_set_conv_nth)
    let ?cs = "cs[i := tl (cs ! i)]" and ?w = "send_one frame except (hd (cs ! i)) w"
    have "size (mset (concat cs)) = Suc (size (mset (concat ?cs)))"
      unfolding mset_concat_step [OF i] by simp
    then have "length (concat ?cs) < length (concat cs)" by (simp only: size_mset)
    then obtain sched where "concat (fst (run_chunks frame except sched ?cs ?w)) = []"
      using less by blast
    with i show ?thesis by (intro exI [of _ "i # sched"]) simp
  qed
qed

text \<open>
  C28. A fan-out reaches exactly the subscribers of the moment except the excluded socket:
  each of their mailboxes gets the frame appended once (or is left alone when it is full or
  closed) and no other mailbox changes, on the serial path and on the parallel path under
  every schedule of the jobs that runs them to the end; such a schedule exists.
\<close>

theorem fanout_reaches_exactly:
  assumes "cs_fanout sj ev except (cs_run sj channel ops) = (f, s')"
    and "own_mailboxes (mset (cs_subscribers (cs_run sj channel ops)))"
    and "frame = (case ev of Raw x \<Rightarrow> x | _ \<Rightarrow> active_frame sj ev)"
    and "T = {mailbox_of (sid, sub) | sid sub.
               map_of (cs_subscribers (cs_run sj channel ops)) sid = Some sub \<and> Some sid \<noteq> except}"
  shows "(\<forall>sched left w'. fanout_send sched f w = (left, w') \<and> concat left = [] \<longrightarrow>
       chans w' = (\<lambda>c. if c \<in> T then chan_after (Raw frame) (chans w c) else chans w c))
    \<and> (\<exists>sched. concat (fst (fanout_send sched f w)) = [])"
proof -
  let ?subs = "cs_subscribers (cs_run sj channel ops)"
  from cs_fanout_rel [OF cs_run_rel assms(1)] assms(3)
  have f: "fo_snapshot f = ?subs" "fo_except f = except" "fo_frame f = frame" by simp_all
  have "hm_ok ?subs" using cs_run_rel by (simp add: cs_rel_def subs_rel_def)
  then have T: "T = targets except (mset ?subs)"
    unfolding assms(4) targets_def by (force simp: hm.entries_iff)
  have chunks: "concat (par_chunks SEND_CHUNK ?subs) = ?subs"
    by (simp add: concat_par_chunks SEND_CHUNK_def)
  have "chans w' = delivered frame T (chans w)"
    if "fanout_send sched f w = (left, w')" and "concat left = []" for sched left w'
    using that assms(2) chans_fold_send_one [of ?subs] chans_run_chunks [of "par_chunks SEND_CHUNK ?subs"]
    by (auto simp: fanout_send_def f T chunks split: if_splits)
  moreover have "\<exists>sched. concat (fst (fanout_send sched f w)) = []"
    using run_chunks_all by (auto simp: fanout_send_def)
  ultimately show ?thesis unfolding delivered_def by blast
qed

definition example_store :: mailboxes where
  "example_store = \<lparr>chans = (\<lambda>_. \<lparr>queue = [], capacity = 4, receiver_alive = True\<rparr>),
     dirty_queue = (\<lambda>_. []), woken = (\<lambda>_. False), dropped = (\<lambda>_. 0)\<rparr>"

lemma example_subscribers:
  "cs_subscribers (cs_run example_json ''c''
     [AddOp (example_handle ''1.1'' 0) None, AddOp (example_handle ''2.2'' 1) None]) =
   [(from_raw ''1.1'', \<lparr>sub_handle = example_handle ''1.1'' 0, sub_member = None\<rparr>),
    (from_raw ''2.2'', \<lparr>sub_handle = example_handle ''2.2'' 1, sub_member = None\<rparr>)]"
  by (simp add: cs_add_def cs_remove_def channel_state_default_def example_handle_def from_raw_eq_iff
      CAPACITY_def Let_def)

theorem fanout_reaches_exactly_witness:
  "let (f, _) = cs_fanout example_json (Raw ''hi'') (Some (from_raw ''1.1'')) (cs_run example_json ''c''
         [AddOp (example_handle ''1.1'' 0) None, AddOp (example_handle ''2.2'' 1) None]);
       (left, w) = fanout_send [] f example_store
   in queue (chans w 0) = [] \<and> queue (chans w 1) = [Raw ''hi'']"
proof -
  let ?ops = "[AddOp (example_handle ''1.1'' 0) None, AddOp (example_handle ''2.2'' 1) None]"
  let ?s = "cs_run example_json ''c'' ?ops"
  let ?r = "cs_fanout example_json (Raw ''hi'') (Some (from_raw ''1.1'')) ?s"
  have own: "own_mailboxes (mset (cs_subscribers ?s))"
    unfolding example_subscribers by (simp add: own_mailboxes_def mailbox_of_def example_handle_def)
  have T: "{1} = {mailbox_of (sid, sub) | sid sub.
      map_of (cs_subscribers ?s) sid = Some sub \<and> Some sid \<noteq> Some (from_raw ''1.1'')}"
    unfolding example_subscribers
    by (auto simp: mailbox_of_def example_handle_def from_raw_eq_iff CAPACITY_def split: if_splits)
  have serial: "\<not> fo_parallel (fst ?r)"
    unfolding cs_fanout_def Let_def example_subscribers by (simp add: PARALLEL_THRESHOLD_def split: option.split)
  from fanout_reaches_exactly [of example_json "Raw ''hi''" "Some (from_raw ''1.1'')" "''c''" ?ops
      "fst ?r" "snd ?r" "''hi''" "{1}" example_store, OF _ own _ T] serial
  show ?thesis
    by (auto simp: case_prod_unfold Let_def fanout_send_def example_store_def chan_after_def simp del: foldl_Cons)
qed

end
