(* ===== verification/Channel_Registry.thy ===== *)
theory Channel_Registry
  imports Channel_State
begin

text \<open>
  The registry of channels, from \<^verbatim>\<open>src/channel/registry.rs\<close>: one channel state per application
  and channel name, created by the first subscription and dropped with the last.
\<close>


section \<open>Operations\<close>

type_synonym channel_key = "string \<times> string"
type_synonym registry = "(channel_key \<times> channel_state) list"

definition registry_subscribe ::
  "serde_json \<Rightarrow> string \<Rightarrow> string \<Rightarrow> connection_handle \<Rightarrow> presence_member option \<Rightarrow> registry
     \<Rightarrow> subscribe_outcome \<times> registry" where
  "registry_subscribe sj app channel handle member r =
     (let key = (app, channel);
          state = (case map_of r key of Some s \<Rightarrow> s | None \<Rightarrow> channel_state_default);
          was_empty = (subscription_count state = 0);
          (presence, state') = cs_add sj channel handle member state;
          count = subscription_count state'
      in (\<lparr>so_subscription_count = count, so_presence = presence,
           so_occupied = (was_empty \<and> count = 1)\<rparr>,
          AList.update key state' r))"

definition registry_unsubscribe ::
  "serde_json \<Rightarrow> string \<Rightarrow> string \<Rightarrow> socket_id \<Rightarrow> registry \<Rightarrow> unsubscribe_outcome \<times> registry" where
  "registry_unsubscribe sj app channel sid r =
     (let key = (app, channel);
          (count, presence, now_empty, r1) =
            (case map_of r key of
               Some state \<Rightarrow>
                 (let (presence, state') = cs_remove sj sid state
                  in (subscription_count state', presence, cs_is_empty state', AList.update key state' r))
             | None \<Rightarrow> (0, None, False, r));
          r2 = (if now_empty
                then (case map_of r1 key of
                        Some s \<Rightarrow> if cs_is_empty s then AList.delete key r1 else r1
                      | None \<Rightarrow> r1)
                else r1)
      in (\<lparr>uo_subscription_count = count, uo_presence = presence, uo_vacated = now_empty\<rparr>, r2))"

text \<open>\<open>sched\<close> is the schedule of the parallel sends.\<close>

definition registry_broadcast ::
  "serde_json \<Rightarrow> nat list \<Rightarrow> string \<Rightarrow> string \<Rightarrow> server_event \<Rightarrow> socket_id option \<Rightarrow> registry \<Rightarrow> mailboxes
     \<Rightarrow> shared_snapshot list \<times> registry \<times> mailboxes" where
  "registry_broadcast sj sched app channel event except r w =
     (case map_of r (app, channel) of
        None \<Rightarrow> ([], r, w)
      | Some state \<Rightarrow>
        (let (f, state') = cs_fanout sj event except state;
             (left, w') = fanout_send sched f w
         in (left, AList.update (app, channel) state' r, w')))"

definition channel_summary_of :: "string \<Rightarrow> string \<Rightarrow> registry \<Rightarrow> channel_summary" where
  "channel_summary_of app channel r =
     (case map_of r (app, channel) of
        Some s \<Rightarrow> \<lparr>sum_name = channel, sum_occupied = (\<not> cs_is_empty s),
                   sum_subscription_count = subscription_count s, sum_user_count = user_count s\<rparr>
      | None \<Rightarrow> \<lparr>sum_name = channel, sum_occupied = False, sum_subscription_count = 0,
                 sum_user_count = None\<rparr>)"

definition registry_channels :: "string \<Rightarrow> string option \<Rightarrow> registry \<Rightarrow> channel_summary list" where
  "registry_channels app prefix r =
     map (\<lambda>((_, name), s). \<lparr>sum_name = name, sum_occupied = True,
            sum_subscription_count = subscription_count s, sum_user_count = user_count s\<rparr>)
       (filter (\<lambda>((_, name), s). case prefix of None \<Rightarrow> True | Some p \<Rightarrow> starts_with p name)
         (filter (\<lambda>((a, _), s). a = app \<and> \<not> cs_is_empty s) r))"

definition registry_presence_members :: "string \<Rightarrow> string \<Rightarrow> registry \<Rightarrow> presence_member list" where
  "registry_presence_members app channel r =
     (case map_of r (app, channel) of Some s \<Rightarrow> members s | None \<Rightarrow> [])"

definition registry_roster_frame ::
  "serde_json \<Rightarrow> string \<Rightarrow> string \<Rightarrow> registry \<Rightarrow> string option \<times> registry" where
  "registry_roster_frame sj app channel r =
     (case map_of r (app, channel) of
        None \<Rightarrow> (None, r)
      | Some s \<Rightarrow>
        if user_count s = None then (None, r)
        else (let (f, s') = cached_roster_frame sj channel s
              in (Some f, AList.update (app, channel) s' r)))"

definition registry_local_members :: "registry \<Rightarrow> (channel_key \<times> socket_id list) list" where
  "registry_local_members r =
     map (\<lambda>(k, s). (k, socket_ids s)) (filter (\<lambda>(k, s). \<not> cs_is_empty s) r)"


section \<open>The reference behaviour\<close>

text \<open>Every channel key has a list of subscriptions; a key is stored iff its list is not empty.\<close>

type_synonym subscription_table = "channel_key \<Rightarrow> subscriptions"

definition entry_rel :: "serde_json \<Rightarrow> string \<Rightarrow> channel_state option \<Rightarrow> subscriptions \<Rightarrow> bool" where
  "entry_rel sj channel so l =
     (case so of None \<Rightarrow> l = [] | Some s \<Rightarrow> l \<noteq> [] \<and> cs_rel sj channel s l)"

definition reg_rel :: "serde_json \<Rightarrow> registry \<Rightarrow> subscription_table \<Rightarrow> bool" where
  "reg_rel sj r tab \<longleftrightarrow> hm_ok r \<and> (\<forall>k. entry_rel sj (snd k) (map_of r k) (tab k))"

lemma reg_rel_empty: "reg_rel sj [] (\<lambda>_. [])"
  by (simp add: reg_rel_def entry_rel_def)

lemma reg_rel_entry: "reg_rel sj r tab \<Longrightarrow> entry_rel sj (snd k) (map_of r k) (tab k)"
  unfolding reg_rel_def by blast

lemma reg_rel_None: "reg_rel sj r tab \<Longrightarrow> map_of r k = None \<Longrightarrow> tab k = []"
  using reg_rel_entry [of sj r tab k] by (simp add: entry_rel_def)

lemma reg_rel_Some:
  "reg_rel sj r tab \<Longrightarrow> map_of r k = Some s \<Longrightarrow> tab k \<noteq> [] \<and> cs_rel sj (snd k) s (tab k)"
  using reg_rel_entry [of sj r tab k] by (simp add: entry_rel_def)

lemma reg_rel_state:
  assumes "reg_rel sj r tab"
  shows "cs_rel sj (snd k) (case map_of r k of Some s \<Rightarrow> s | None \<Rightarrow> channel_state_default) (tab k)"
  using reg_rel_None [OF assms] reg_rel_Some [OF assms] cs_rel_default by (auto split: option.split)

lemma reg_rel_update:
  assumes "reg_rel sj r tab" and "cs_rel sj (snd k) s l" and "l \<noteq> []"
  shows "reg_rel sj (AList.update k s r) (tab(k := l))"
  using assms by (simp add: reg_rel_def hm_simps entry_rel_def del: split_paired_All)

lemma reg_rel_delete: "reg_rel sj r tab \<Longrightarrow> reg_rel sj (AList.delete k r) (tab(k := []))"
  by (simp add: reg_rel_def hm_simps entry_rel_def del: split_paired_All)

lemma cs_rel_is_empty: "cs_rel sj channel s l \<Longrightarrow> cs_is_empty s \<longleftrightarrow> l = []"
  using cs_rel_count [of sj channel s l] by (auto simp: cs_is_empty_def subscription_count_def)

lemma registry_subscribe_rel:
  assumes rel: "reg_rel sj r tab" and s: "registry_subscribe sj app channel handle member r = (out, r')"
    and sid: "handle_socket_id handle = sid"
  shows "reg_rel sj r' (tab((app, channel) := ref_add sid member (tab (app, channel)))) \<and>
    so_occupied out = (tab (app, channel) = []) \<and>
    so_subscription_count out = length (ref_add sid member (tab (app, channel)))"
proof -
  let ?k = "(app, channel)"
  define st where "st = (case map_of r ?k of Some s \<Rightarrow> s | None \<Rightarrow> channel_state_default)"
  have st: "cs_rel sj channel st (tab ?k)"
    using reg_rel_state [OF rel, of ?k] by (simp add: st_def)
  obtain j st' where a: "cs_add sj channel handle member st = (j, st')" by fastforce
  with cs_add_rel [OF st a sid] have st': "cs_rel sj channel st' (ref_add sid member (tab ?k))" by blast
  have ne: "ref_add sid member (tab ?k) \<noteq> []" by (simp add: ref_add_def)
  have "tab ?k = [] \<Longrightarrow> length (ref_add sid member (tab ?k)) = 1"
    by (simp add: ref_add_def ref_remove_def)
  with s a reg_rel_update [OF rel, of ?k st' "ref_add sid member (tab ?k)"] st' ne
    cs_rel_count [OF st] cs_rel_count [OF st'] show ?thesis
    by (auto simp: registry_subscribe_def Let_def simp flip: st_def)
qed

lemma registry_unsubscribe_rel:
  assumes rel: "reg_rel sj r tab" and s: "registry_unsubscribe sj app channel sid r = (out, r')"
  shows "reg_rel sj r' (tab((app, channel) := ref_remove sid (tab (app, channel)))) \<and>
    uo_vacated out = (tab (app, channel) \<noteq> [] \<and> ref_remove sid (tab (app, channel)) = []) \<and>
    uo_subscription_count out = length (ref_remove sid (tab (app, channel)))"
proof (cases "map_of r (app, channel)")
  case None
  with reg_rel_None [OF rel None] rel s show ?thesis
    by (auto simp: registry_unsubscribe_def ref_remove_def fun_upd_idem)
next
  case (Some st)
  let ?k = "(app, channel)"
  obtain j st' where a: "cs_remove sj sid st = (j, st')" by fastforce
  have ne: "tab ?k \<noteq> []" and st: "cs_rel sj channel st (tab ?k)"
    using reg_rel_Some [OF rel Some] by simp_all
  with cs_remove_rel [OF st a] have st': "cs_rel sj channel st' (ref_remove sid (tab ?k))" by blast
  have hm: "hm_ok r" using rel by (simp add: reg_rel_def)
  show ?thesis
  proof (cases "ref_remove sid (tab ?k) = []")
    case True
    have "AList.delete ?k (AList.update ?k st' r) = AList.delete ?k r"
      by (induction r) auto
    with True Some a s ne st' cs_rel_is_empty [OF st'] cs_rel_count [OF st'] hm
      reg_rel_delete [OF rel, of ?k] show ?thesis
      by (auto simp: registry_unsubscribe_def hm_simps Let_def)
  next
    case False
    with Some a s ne st' cs_rel_is_empty [OF st'] cs_rel_count [OF st']
      reg_rel_update [OF rel, of ?k st' "ref_remove sid (tab ?k)"] show ?thesis
      by (auto simp: registry_unsubscribe_def Let_def)
  qed
qed

lemma reg_rel_touch:
  assumes "reg_rel sj r tab" and "map_of r k = Some s" and "cs_rel sj (snd k) s' (tab k)"
  shows "reg_rel sj (AList.update k s' r) tab"
  using reg_rel_update [OF assms(1,3)] reg_rel_Some [OF assms(1,2)] by (simp add: fun_upd_idem)

lemma registry_broadcast_rel:
  assumes rel: "reg_rel sj r tab" and b: "registry_broadcast sj sched app channel ev except r w = (left, r', w')"
  shows "reg_rel sj r' tab"
proof (cases "map_of r (app, channel)")
  case None
  with rel b show ?thesis by (simp add: registry_broadcast_def)
next
  case (Some s)
  obtain f s' where f: "cs_fanout sj ev except s = (f, s')" by fastforce
  from reg_rel_Some [OF rel Some] have "cs_rel sj channel s (tab (app, channel))" by simp
  with f have "cs_rel sj channel s' (tab (app, channel))" using cs_fanout_rel by blast
  with reg_rel_touch [OF rel Some, of s'] b Some f show ?thesis
    by (auto simp: registry_broadcast_def split: prod.splits)
qed

lemma registry_roster_frame_rel:
  assumes rel: "reg_rel sj r tab" and b: "registry_roster_frame sj app channel r = (f, r')"
  shows "reg_rel sj r' tab"
proof (cases "map_of r (app, channel)")
  case None
  with rel b show ?thesis by (simp add: registry_roster_frame_def)
next
  case (Some s)
  obtain g s' where g: "cached_roster_frame sj channel s = (g, s')" by fastforce
  from reg_rel_Some [OF rel Some] have "cs_rel sj channel s (tab (app, channel))" by simp
  with g have "cs_rel sj channel s' (tab (app, channel))" using cached_roster_frame_rel by blast
  with reg_rel_touch [OF rel Some, of s'] b Some g rel show ?thesis
    by (auto simp: registry_roster_frame_def split: if_splits)
qed

datatype registry_op =
    SubscribeOp string string connection_handle "presence_member option"
  | UnsubscribeOp string string socket_id
  | BroadcastOp "nat list" string string server_event "socket_id option" mailboxes
  | RegistryRosterOp string string

fun registry_step :: "serde_json \<Rightarrow> registry \<Rightarrow> registry_op \<Rightarrow> registry" where
  "registry_step sj r (SubscribeOp app ch handle member) = snd (registry_subscribe sj app ch handle member r)"
| "registry_step sj r (UnsubscribeOp app ch sid) = snd (registry_unsubscribe sj app ch sid r)"
| "registry_step sj r (BroadcastOp sched app ch ev except w) =
     fst (snd (registry_broadcast sj sched app ch ev except r w))"
| "registry_step sj r (RegistryRosterOp app ch) = snd (registry_roster_frame sj app ch r)"

fun table_step :: "subscription_table \<Rightarrow> registry_op \<Rightarrow> subscription_table" where
  "table_step tab (SubscribeOp app ch handle member) =
     tab((app, ch) := ref_add (handle_socket_id handle) member (tab (app, ch)))"
| "table_step tab (UnsubscribeOp app ch sid) = tab((app, ch) := ref_remove sid (tab (app, ch)))"
| "table_step tab (BroadcastOp sched app ch ev except w) = tab"
| "table_step tab (RegistryRosterOp app ch) = tab"

lemma registry_step_rel:
  assumes rel: "reg_rel sj r tab"
  shows "reg_rel sj (registry_step sj r x) (table_step tab x)"
proof (cases x)
  case (SubscribeOp app ch handle member)
  obtain j s' where "registry_subscribe sj app ch handle member r = (j, s')" by fastforce
  with SubscribeOp registry_subscribe_rel [OF rel this refl] show ?thesis by simp
next
  case (UnsubscribeOp app ch sid)
  obtain j s' where "registry_unsubscribe sj app ch sid r = (j, s')" by fastforce
  with UnsubscribeOp registry_unsubscribe_rel [OF rel this] show ?thesis by simp
next
  case (BroadcastOp sched app ch ev except w)
  obtain l s' w' where "registry_broadcast sj sched app ch ev except r w = (l, s', w')"
    using prod_cases3 by blast
  with BroadcastOp registry_broadcast_rel [OF rel this] show ?thesis by simp
next
  case (RegistryRosterOp app ch)
  obtain j s' where "registry_roster_frame sj app ch r = (j, s')" by fastforce
  with RegistryRosterOp registry_roster_frame_rel [OF rel this] show ?thesis by simp
qed

interpretation registry: refinement "registry_step sj" table_step "reg_rel sj" for sj
  by unfold_locales (rule registry_step_rel)

abbreviation registry_run :: "serde_json \<Rightarrow> registry_op list \<Rightarrow> registry" where
  "registry_run sj ops \<equiv> foldl (registry_step sj) [] ops"

abbreviation table_run :: "registry_op list \<Rightarrow> subscription_table" where
  "table_run ops \<equiv> foldl table_step (\<lambda>_. []) ops"

lemma registry_run_rel: "reg_rel sj (registry_run sj ops) (table_run ops)"
  by (rule registry.run_rel [OF reg_rel_empty])

lemma length_filter_key:
  "hm_ok r \<Longrightarrow> length (filter (\<lambda>e. fst e = k \<and> P (snd e)) r) =
     (case map_of r k of None \<Rightarrow> 0 | Some v \<Rightarrow> if P v then 1 else 0)"
proof (induction r)
  case (Cons e r)
  then show ?case
    by (cases "fst e = k")
      (auto simp: hm_ok_def map_of_eq_None_iff split: option.splits dest: map_of_SomeD intro: rev_image_eqI)
qed simp

lemma length_listing:
  assumes "hm_ok r"
  shows "length (filter (\<lambda>s. sum_name s = channel) (registry_channels app None r)) =
    (case map_of r (app, channel) of None \<Rightarrow> 0 | Some s \<Rightarrow> if \<not> cs_is_empty s then 1 else 0)"
proof -
  have "length (filter (\<lambda>s. sum_name s = channel) (registry_channels app None r)) =
      length (filter (\<lambda>e. fst e = (app, channel) \<and> \<not> cs_is_empty (snd e)) r)"
    unfolding registry_channels_def by (induction r) auto
  with length_filter_key [OF assms, of "(app, channel)" "\<lambda>s. \<not> cs_is_empty s"] show ?thesis by simp
qed

lemma cs_rel_user_count:
  assumes "cs_rel sj channel s l"
  shows "user_count s = (let n = card {uid. ref_conns uid l \<noteq> []} in if n = 0 then None else Some n)"
proof -
  from assms have "distinct (map fst (cs_users s))" by (intro bt_ok_distinct) (simp add: cs_rel_def)
  from distinct_card [OF this] show ?thesis
    unfolding cs_rel_users [OF assms] by (simp add: user_count_def Let_def)
qed


section \<open>Properties\<close>

text \<open>
  C27. After any sequence of calls the registry stores a channel iff it has a subscription, so
  no empty channel is ever kept; its summary reports exactly the subscriptions and the
  distinct users of that channel, and the listing of an application has each occupied
  channel once.
\<close>

theorem registry_tracks_subscriptions:
  assumes "r = registry_run sj ops" and "l = table_run ops (app, channel)"
  shows "(map_of r (app, channel) = None \<longleftrightarrow> l = [])
    \<and> sum_occupied (channel_summary_of app channel r) = (l \<noteq> [])
    \<and> sum_subscription_count (channel_summary_of app channel r) = length l
    \<and> sum_user_count (channel_summary_of app channel r) =
        (let n = card {uid. ref_conns uid l \<noteq> []} in if n = 0 then None else Some n)
    \<and> length (filter (\<lambda>s. sum_name s = channel) (registry_channels app None r)) =
        (if l = [] then 0 else 1)"
proof -
  have rel: "reg_rel sj r (table_run ops)" unfolding assms(1) by (rule registry_run_rel)
  then have "hm_ok r" by (simp add: reg_rel_def)
  show ?thesis
  proof (cases "map_of r (app, channel)")
    case None
    then have "l = []" using reg_rel_None [OF rel None] assms(2) by simp
    with None length_listing [OF \<open>hm_ok r\<close>, of channel app] show ?thesis
      by (simp add: channel_summary_of_def ref_conns_def)
  next
    case (Some s)
    with reg_rel_Some [OF rel Some] assms(2) have ne: "l \<noteq> []" and cs: "cs_rel sj channel s l" by simp_all
    with Some length_listing [OF \<open>hm_ok r\<close>, of channel app] cs_rel_is_empty [OF cs] cs_rel_count [OF cs]
      cs_rel_user_count [OF cs] show ?thesis
      by (simp add: channel_summary_of_def)
  qed
qed

text \<open>
  The webhook edges are exact: a subscription reports \<open>occupied\<close> iff the channel had no
  subscriber, a removal reports \<open>vacated\<close> iff it took the last one away, and both report
  the number of subscribers left.
\<close>

lemma registry_edges_exact:
  assumes "registry_subscribe sj app channel handle member (registry_run sj ops) = (joined, r1)"
    and "registry_unsubscribe sj app channel sid (registry_run sj ops) = (gone, r2)"
    and "l = table_run ops (app, channel)"
  shows "so_occupied joined = (l = [])
    \<and> so_subscription_count joined = length (ref_add (handle_socket_id handle) member l)
    \<and> uo_vacated gone = (l \<noteq> [] \<and> ref_remove sid l = [])
    \<and> uo_subscription_count gone = length (ref_remove sid l)"
  using registry_subscribe_rel [OF registry_run_rel assms(1) refl]
    registry_unsubscribe_rel [OF registry_run_rel assms(2)] assms(3) by simp

theorem registry_tracks_subscriptions_witness:
  "let ops = [SubscribeOp ''a'' ''c'' (example_handle ''1.1'' 0) None,
              SubscribeOp ''a'' ''c'' (example_handle ''2.2'' 1) None,
              UnsubscribeOp ''a'' ''c'' (from_raw ''1.1'')]
   in sum_subscription_count (channel_summary_of ''a'' ''c'' (registry_run example_json ops)) = 1"
  using registry_tracks_subscriptions [OF refl refl, of example_json "[SubscribeOp ''a'' ''c'' (example_handle ''1.1'' 0) None,
        SubscribeOp ''a'' ''c'' (example_handle ''2.2'' 1) None, UnsubscribeOp ''a'' ''c'' (from_raw ''1.1'')]" "''a''" "''c''"]
  by (simp add: ref_add_def ref_remove_def example_handle_def from_raw_eq_iff CAPACITY_def del: foldl_Cons)
    (simp add: ref_add_def ref_remove_def example_handle_def from_raw_eq_iff CAPACITY_def)

end
