(* ===== verification/User_Registry.thy ===== *)
theory User_Registry
  imports Mailbox
begin

text \<open>
  The indexes of connections by user and by application, from \<^verbatim>\<open>src/user/registry.rs\<close>,
  \<^verbatim>\<open>src/user/mod.rs\<close> and \<^verbatim>\<open>src/adapter/app_registry.rs\<close>. Each index maps a key to a non-empty
  set of sockets with their handles; the three of them share the operations on such groups.
\<close>


section \<open>Groups of sockets\<close>

type_synonym ('k, 'v) socket_table = "('k \<times> (socket_id \<times> 'v) list) list"
type_synonym sockets = "(socket_id \<times> connection_handle) list"
type_synonym 'k groups = "('k, connection_handle) socket_table"

text \<open>\<open>entry(k).or_default()\<close>, an insertion into it, and a removal followed by \<open>remove_if(empty)\<close>.\<close>

definition group_of :: "('k, 'v) socket_table \<Rightarrow> 'k \<Rightarrow> (socket_id \<times> 'v) list" where
  "group_of g k = (case map_of g k of Some e \<Rightarrow> e | None \<Rightarrow> [])"

definition group_put :: "'k \<Rightarrow> socket_id \<Rightarrow> 'v \<Rightarrow> ('k, 'v) socket_table \<Rightarrow> ('k, 'v) socket_table" where
  "group_put k sid v g = AList.update k (AList.update sid v (group_of g k)) g"

definition group_insert :: "'k \<Rightarrow> connection_handle \<Rightarrow> 'k groups \<Rightarrow> 'k groups" where
  "group_insert k handle g = group_put k (handle_socket_id handle) handle g"

definition remove_if_empty :: "'k \<Rightarrow> ('k, 'v) socket_table \<Rightarrow> ('k, 'v) socket_table" where
  "remove_if_empty k g = (if map_of g k = Some [] then AList.delete k g else g)"

definition group_remove :: "'k \<Rightarrow> socket_id \<Rightarrow> ('k, 'v) socket_table \<Rightarrow> ('k, 'v) socket_table" where
  "group_remove k sid g =
     (case map_of g k of
        None \<Rightarrow> g
      | Some e \<Rightarrow> remove_if_empty k (AList.update k (AList.delete sid e) g))"

definition groups_ok :: "('k, 'v) socket_table \<Rightarrow> bool" where
  "groups_ok g \<longleftrightarrow> hm_ok g \<and> (\<forall>k e. map_of g k = Some e \<longrightarrow> e \<noteq> [] \<and> hm_ok e)"

text \<open>What a group holds.\<close>

definition gview :: "('k, 'v) socket_table \<Rightarrow> 'k \<Rightarrow> socket_id \<Rightarrow> 'v option" where
  "gview g k = map_of (group_of g k)"

lemma groups_ok_Nil [simp]: "groups_ok []"
  by (simp add: groups_ok_def)

lemma gview_Nil [simp]: "gview [] = (\<lambda>k. Map.empty)"
  by (simp add: gview_def group_of_def fun_eq_iff)

lemma group_of_ok: "groups_ok g \<Longrightarrow> hm_ok (group_of g k)"
  by (auto simp: groups_ok_def group_of_def split: option.splits)

lemma groups_ok_update:
  "groups_ok g \<Longrightarrow> e \<noteq> [] \<Longrightarrow> hm_ok e \<Longrightarrow> groups_ok (AList.update k e g)"
  by (auto simp: groups_ok_def hm_simps split: if_splits)

lemma groups_ok_delete: "groups_ok g \<Longrightarrow> groups_ok (AList.delete k g)"
  by (auto simp: groups_ok_def hm_simps split: if_splits)

lemma gview_update: "hm_ok g \<Longrightarrow> gview (AList.update k e g) = (gview g)(k := map_of e)"
  by (auto simp: gview_def group_of_def hm_simps fun_eq_iff)

lemma gview_delete: "hm_ok g \<Longrightarrow> gview (AList.delete k g) = (gview g)(k := Map.empty)"
  by (auto simp: gview_def group_of_def hm_simps fun_eq_iff)

lemma map_of_empty_iff: "map_of e = Map.empty \<longleftrightarrow> e = []"
  by (cases e) (auto simp: fun_eq_iff)

lemma group_present_iff: "groups_ok g \<Longrightarrow> map_of g k = None \<longleftrightarrow> gview g k = Map.empty"
  by (auto simp: gview_def group_of_def groups_ok_def map_of_empty_iff split: option.splits)

lemma group_of_empty_iff: "group_of g k = [] \<longleftrightarrow> gview g k = Map.empty"
  by (simp add: gview_def map_of_empty_iff)

lemma AList_update_ne [simp]: "AList.update k v m \<noteq> []"
  by (cases m) auto

lemma group_put_correct:
  assumes "groups_ok g"
  shows "groups_ok (group_put k sid v g)" and "gview (group_put k sid v g) = (gview g)(k := (gview g k)(sid \<mapsto> v))"
  using assms group_of_ok [OF assms, of k]
  by (auto simp: group_put_def groups_ok_update hm_simps gview_update groups_ok_def)
    (auto simp: gview_def)

lemma group_insert_correct:
  assumes "groups_ok g"
  shows "groups_ok (group_insert k handle g)"
    and "gview (group_insert k handle g) = (gview g)(k := (gview g k)(handle_socket_id handle \<mapsto> handle))"
  using group_put_correct [OF assms] by (simp_all add: group_insert_def)

lemma delete_update_same: "AList.delete k (AList.update k v m) = AList.delete k m"
  by (induction m) auto

lemma group_remove_cases:
  assumes "groups_ok g" and "map_of g k = Some e"
  shows "group_remove k sid g =
    (if AList.delete sid e = [] then AList.delete k g else AList.update k (AList.delete sid e) g)"
  using assms by (simp add: group_remove_def remove_if_empty_def groups_ok_def hm_simps delete_update_same)

lemma group_remove_absent:
  assumes "groups_ok g" and "map_of g k = None"
  shows "group_remove k sid g = g" and "(gview g)(k := (gview g k)(sid := None)) = gview g"
proof -
  show "group_remove k sid g = g" using assms(2) by (simp add: group_remove_def)
  have "gview g k = Map.empty"
    using assms(2) by (simp only: group_present_iff [OF assms(1)])
  then show "(gview g)(k := (gview g k)(sid := None)) = gview g"
    by (auto simp: fun_eq_iff)
qed

lemma group_remove_correct:
  assumes "groups_ok g"
  shows "groups_ok (group_remove k sid g)"
    and "gview (group_remove k sid g) = (gview g)(k := (gview g k)(sid := None))"
proof (atomize (full), cases "map_of g k")
  case None
  show "groups_ok (group_remove k sid g) \<and>
      gview (group_remove k sid g) = (gview g)(k := (gview g k)(sid := None))"
    using assms by (simp only: group_remove_absent [OF assms None])
next
  case (Some e)
  with assms have ok: "hm_ok g" "hm_ok e" by (auto simp: groups_ok_def)
  have v: "gview g k = map_of e" using Some by (simp add: gview_def group_of_def)
  have d: "map_of (AList.delete sid e) = (gview g k)(sid := None)"
    unfolding v using ok(2) by (rule hm.get_del)
  show "groups_ok (group_remove k sid g) \<and>
      gview (group_remove k sid g) = (gview g)(k := (gview g k)(sid := None))"
  proof (cases "AList.delete sid e = []")
    case True
    then have e: "(gview g k)(sid := None) = Map.empty" unfolding d [symmetric] by simp
    have "group_remove k sid g = AList.delete k g"
      unfolding group_remove_cases [OF assms Some] using True by simp
    then show ?thesis
      by (simp only: e gview_delete [OF ok(1)] groups_ok_delete [OF assms])
  next
    case False
    then have "group_remove k sid g = AList.update k (AList.delete sid e) g"
      unfolding group_remove_cases [OF assms Some] by simp
    then show ?thesis
      by (simp only: d gview_update [OF ok(1)] groups_ok_update [OF assms False hm.ok_del [OF ok(2)]])
  qed
qed

lemmas group_simps = group_insert_correct group_remove_correct


section \<open>Users\<close>

record authenticated_user =
  au_id :: string
  au_user_data_raw :: string
  au_watchlist :: "string list"

datatype user_data_error = UserDataNotJson | UserDataMissingId

definition parse_user_data :: "serde_json \<Rightarrow> string \<Rightarrow> user_data_error + authenticated_user" where
  "parse_user_data sj raw =
     (case from_str sj raw of
        None \<Rightarrow> Inl UserDataNotJson
      | Some v \<Rightarrow>
        (let watchlist = (case Option.bind (json_get ''watchlist'' v) as_array of
                            Some a \<Rightarrow> List.map_filter as_str a
                          | None \<Rightarrow> [])
         in case json_get ''id'' v of
              Some (String s) \<Rightarrow>
                if s \<noteq> [] then Inr \<lparr>au_id = s, au_user_data_raw = raw, au_watchlist = watchlist\<rparr>
                else Inl UserDataMissingId
            | _ \<Rightarrow> Inl UserDataMissingId))"

record user_registry =
  ur_users :: "(string \<times> string) groups"
  ur_watchers :: "(string \<times> string) groups"
  ur_watching :: "((string \<times> socket_id) \<times> string list) list"

definition user_registry_new :: user_registry where
  "user_registry_new = \<lparr>ur_users = [], ur_watchers = [], ur_watching = []\<rparr>"

text \<open>The outcome is \<open>first_for_user\<close>.\<close>

definition ur_signin ::
  "string \<Rightarrow> string \<Rightarrow> connection_handle \<Rightarrow> user_registry \<Rightarrow> bool \<times> user_registry" where
  "ur_signin app uid handle ur =
     (let entry = group_of (ur_users ur) (app, uid)
      in (entry = [], ur\<lparr>ur_users := group_insert (app, uid) handle (ur_users ur)\<rparr>))"

text \<open>The outcome is \<open>last_for_user\<close>.\<close>

definition ur_signout ::
  "string \<Rightarrow> string \<Rightarrow> socket_id \<Rightarrow> user_registry \<Rightarrow> bool \<times> user_registry" where
  "ur_signout app uid sid ur =
     (case map_of (ur_users ur) (app, uid) of
        None \<Rightarrow> (False, ur)
      | Some entry \<Rightarrow>
        (AList.delete sid entry = [], ur\<lparr>ur_users := group_remove (app, uid) sid (ur_users ur)\<rparr>))"

definition ur_handles :: "string \<Rightarrow> string \<Rightarrow> user_registry \<Rightarrow> connection_handle list" where
  "ur_handles app uid ur = map snd (group_of (ur_users ur) (app, uid))"

definition ur_is_online :: "string \<Rightarrow> string \<Rightarrow> user_registry \<Rightarrow> bool" where
  "ur_is_online app uid ur =
     (case map_of (ur_users ur) (app, uid) of None \<Rightarrow> False | Some e \<Rightarrow> e \<noteq> [])"

fun unwatch_loop ::
  "string \<Rightarrow> socket_id \<Rightarrow> string list \<Rightarrow> (string \<times> string) groups \<Rightarrow> string list \<times> (string \<times> string) groups" where
  "unwatch_loop app sid [] g = ([], g)"
| "unwatch_loop app sid (w # ws) g =
     (case map_of g (app, w) of
        None \<Rightarrow> unwatch_loop app sid ws g
      | Some e \<Rightarrow>
        (let (now_empty, g') = unwatch_loop app sid ws (group_remove (app, w) sid g)
         in (if AList.delete sid e = [] then w # now_empty else now_empty, g')))"

definition ur_unwatch :: "string \<Rightarrow> socket_id \<Rightarrow> user_registry \<Rightarrow> string list \<times> user_registry" where
  "ur_unwatch app sid ur =
     (case map_of (ur_watching ur) (app, sid) of
        None \<Rightarrow> ([], ur)
      | Some watched \<Rightarrow>
        (let (now_empty, g) = unwatch_loop app sid watched (ur_watchers ur)
         in (now_empty, ur\<lparr>ur_watchers := g, ur_watching := AList.delete (app, sid) (ur_watching ur)\<rparr>)))"

fun watch_loop ::
  "string \<Rightarrow> connection_handle \<Rightarrow> string list \<Rightarrow> (string \<times> string) groups \<Rightarrow> string list \<times> (string \<times> string) groups" where
  "watch_loop app handle [] g = ([], g)"
| "watch_loop app handle (w # ws) g =
     (let (newly, g') = watch_loop app handle ws (group_insert (app, w) handle g)
      in (if group_of g (app, w) = [] then w # newly else newly, g'))"

definition ur_watch ::
  "string \<Rightarrow> connection_handle \<Rightarrow> string list \<Rightarrow> user_registry \<Rightarrow> (string list \<times> string list) \<times> user_registry" where
  "ur_watch app handle watched ur =
     (let sock = handle_socket_id handle;
          ur1 = snd (ur_unwatch app sock ur);
          (newly_watched, g) = watch_loop app handle watched (ur_watchers ur1);
          online = filter (\<lambda>w. ur_is_online app w ur1) watched
      in ((online, newly_watched),
          ur1\<lparr>ur_watchers := g, ur_watching := AList.update (app, sock) watched (ur_watching ur1)\<rparr>))"

definition ur_watchers_of :: "string \<Rightarrow> string \<Rightarrow> user_registry \<Rightarrow> connection_handle list" where
  "ur_watchers_of app uid ur = map snd (group_of (ur_watchers ur) (app, uid))"

definition ur_local_bindings :: "user_registry \<Rightarrow> ((string \<times> string) \<times> socket_id list) list" where
  "ur_local_bindings ur =
     map (\<lambda>(k, e). (k, map fst e)) (filter (\<lambda>(k, e). e \<noteq> []) (ur_users ur))"


section \<open>Connections by application\<close>

type_synonym app_registry = "string groups"

definition app_insert :: "string \<Rightarrow> connection_handle \<Rightarrow> app_registry \<Rightarrow> app_registry" where
  "app_insert app handle r = group_insert app handle r"

definition app_remove :: "string \<Rightarrow> socket_id \<Rightarrow> app_registry \<Rightarrow> app_registry" where
  "app_remove app sid r = group_remove app sid r"

definition drain_app :: "string \<Rightarrow> app_registry \<Rightarrow> connection_handle list \<times> app_registry" where
  "drain_app app r =
     (case map_of r app of None \<Rightarrow> ([], r) | Some e \<Rightarrow> (map snd e, AList.delete app r))"

definition connected_app_ids :: "app_registry \<Rightarrow> string list" where
  "connected_app_ids r = map fst r"


section \<open>The reference behaviour\<close>

text \<open>
  Who is signed in, and what each connection watches. The two indexes of the registry for
  watching are views of the latter.
\<close>

record user_ref =
  signed_in :: "string \<times> string \<Rightarrow> socket_id \<Rightarrow> connection_handle option"
  watches :: "string \<times> socket_id \<Rightarrow> (string list \<times> connection_handle) option"

definition watchers_view ::
  "(string \<times> socket_id \<Rightarrow> (string list \<times> connection_handle) option)
     \<Rightarrow> string \<times> string \<Rightarrow> socket_id \<Rightarrow> connection_handle option" where
  "watchers_view wt k sid =
     (case wt (fst k, sid) of
        Some (ws, h) \<Rightarrow> if snd k \<in> set ws then Some h else None
      | None \<Rightarrow> None)"

definition ur_rel :: "user_registry \<Rightarrow> user_ref \<Rightarrow> bool" where
  "ur_rel ur a \<longleftrightarrow>
     groups_ok (ur_users ur) \<and> gview (ur_users ur) = signed_in a \<and>
     groups_ok (ur_watchers ur) \<and> gview (ur_watchers ur) = watchers_view (watches a) \<and>
     hm_ok (ur_watching ur) \<and> map_of (ur_watching ur) = map_option fst \<circ> watches a"

definition user_ref_new :: user_ref where
  "user_ref_new = \<lparr>signed_in = (\<lambda>_. Map.empty), watches = Map.empty\<rparr>"

lemma ur_rel_new: "ur_rel user_registry_new user_ref_new"
  by (auto simp: ur_rel_def user_registry_new_def user_ref_new_def watchers_view_def fun_eq_iff)

lemma dom_gview_empty_iff: "group_of g k = [] \<longleftrightarrow> dom (gview g k) = {}"
  by (simp add: group_of_empty_iff)

lemma group_last_iff:
  assumes "groups_ok g" and "map_of g k = Some e"
  shows "AList.delete sid e = [] \<longleftrightarrow> dom (gview g k) = {sid}"
proof -
  have ok: "hm_ok e" "e \<noteq> []" using assms by (auto simp: groups_ok_def)
  have v: "gview g k = map_of e" using assms by (simp add: gview_def group_of_def)
  have "AList.delete sid e = [] \<longleftrightarrow> dom (map_of (AList.delete sid e)) = {}"
    by (cases "AList.delete sid e") auto
  also have "\<dots> \<longleftrightarrow> dom (map_of e) \<subseteq> {sid}"
    by (simp add: hm.get_del [OF ok(1)])
  also have "\<dots> \<longleftrightarrow> dom (map_of e) = {sid}"
    using ok(2) by (cases e) auto
  finally show ?thesis unfolding v .
qed

text \<open>The views changed by a loop over the users \<open>ws\<close> of an application.\<close>

definition apply_at :: "string \<Rightarrow> string list \<Rightarrow> ('m \<Rightarrow> 'm) \<Rightarrow> (string \<times> string \<Rightarrow> 'm) \<Rightarrow> string \<times> string \<Rightarrow> 'm" where
  "apply_at app ws f v = (\<lambda>k. if fst k = app \<and> snd k \<in> set ws then f (v k) else v k)"

lemma apply_at_Cons:
  assumes "\<And>m. f (f m) = f m"
  shows "apply_at app (w # ws) f v = apply_at app ws f (v((app, w) := f (v (app, w))))"
  using assms by (auto simp: apply_at_def)

lemma unwatch_loop_correct:
  assumes "groups_ok g" and "unwatch_loop app sid ws g = (em, g')"
  shows "groups_ok g' \<and>
    gview g' = apply_at app ws (\<lambda>m. m(sid := None)) (gview g) \<and>
    set em = {w \<in> set ws. dom (gview g (app, w)) = {sid}} \<and> distinct em"
  using assms
proof (induction app sid ws g arbitrary: em g' rule: unwatch_loop.induct)
  case (1 app sid g)
  then show ?case by (simp add: apply_at_def)
next
  case (2 app sid w ws g)
  show ?case
  proof (cases "map_of g (app, w)")
    case None
    then have e: "gview g (app, w) = Map.empty" using group_present_iff [OF "2.prems"(1)] by simp
    then have "(gview g (app, w))(sid := None) = gview g (app, w)" by (auto simp: fun_eq_iff)
    then have up: "apply_at app (w # ws) (\<lambda>m. m(sid := None)) (gview g) = apply_at app ws (\<lambda>m. m(sid := None)) (gview g)"
      by (auto simp: apply_at_def)
    have "unwatch_loop app sid ws g = (em, g')" using "2.prems"(2) None by simp
    note IH = "2.IH"(1) [OF None "2.prems"(1) this]
    have "{v \<in> set (w # ws). dom (gview g (app, v)) = {sid}} = {v \<in> set ws. dom (gview g (app, v)) = {sid}}"
      using e by auto
    with IH show ?thesis by (simp only: up)
  next
    case (Some e)
    let ?g = "group_remove (app, w) sid g"
    note g1 = group_remove_correct [OF "2.prems"(1), of "(app, w)" sid]
    note del = group_last_iff [OF "2.prems"(1) Some, of sid]
    obtain em1 g1' where r: "unwatch_loop app sid ws ?g = (em1, g1')" by fastforce
    note IH = "2.IH"(2) [OF Some g1(1) r]
    have em: "em = (if AList.delete sid e = [] then w # em1 else em1)" and g': "g' = g1'"
      using "2.prems"(2) Some r by auto
    have v: "dom (gview ?g (app, v)) = {sid} \<longleftrightarrow> v \<noteq> w \<and> dom (gview g (app, v)) = {sid}" for v
      by (auto simp: g1(2))
    have view: "gview g' = apply_at app (w # ws) (\<lambda>m. m(sid := None)) (gview g)"
      by (simp only: g' g1(2) conjunct1 [OF conjunct2 [OF IH]] apply_at_Cons fun_upd_upd)
    from IH have se: "set em1 = {v \<in> set ws. v \<noteq> w \<and> dom (gview g (app, v)) = {sid}}"
      and dist: "distinct em1" and ok: "groups_ok g1'" by (simp_all only: v)
    have "set em = {v \<in> set (w # ws). dom (gview g (app, v)) = {sid}}"
      unfolding em del using se by auto
    moreover have "distinct em" unfolding em using dist se by simp
    ultimately show ?thesis using ok view by (simp only: g')
  qed
qed

lemma watch_loop_correct:
  assumes "groups_ok g" and "watch_loop app h ws g = (newly, g')"
  shows "groups_ok g' \<and>
    gview g' = apply_at app ws (\<lambda>m. m(handle_socket_id h \<mapsto> h)) (gview g) \<and>
    set newly = {w \<in> set ws. dom (gview g (app, w)) = {}} \<and> distinct newly"
  using assms
proof (induction app h ws g arbitrary: newly g' rule: watch_loop.induct)
  case (1 app h g)
  then show ?case by (simp add: apply_at_def)
next
  case (2 app h w ws g)
  let ?g = "group_insert (app, w) h g"
  note g1 = group_insert_correct [OF "2.prems"(1), of "(app, w)" h]
  obtain n1 g1' where r: "watch_loop app h ws ?g = (n1, g1')" by fastforce
  note IH = "2.IH" [OF g1(1) r]
  have newly: "newly = (if dom (gview g (app, w)) = {} then w # n1 else n1)" and g': "g' = g1'"
    using "2.prems"(2) r by (auto simp: dom_gview_empty_iff)
  have v: "dom (gview ?g (app, v)) = {} \<longleftrightarrow> v \<noteq> w \<and> dom (gview g (app, v)) = {}" for v
    by (auto simp: g1(2))
  have view: "gview g' = apply_at app (w # ws) (\<lambda>m. m(handle_socket_id h \<mapsto> h)) (gview g)"
    by (simp only: g' g1(2) conjunct1 [OF conjunct2 [OF IH]] apply_at_Cons fun_upd_upd)
  from IH have se: "set n1 = {v \<in> set ws. v \<noteq> w \<and> dom (gview g (app, v)) = {}}"
    and dist: "distinct n1" and ok: "groups_ok g1'" by (simp_all only: v)
  have "set newly = {v \<in> set (w # ws). dom (gview g (app, v)) = {}}"
    unfolding newly using se by auto
  moreover have "distinct newly" unfolding newly using dist se by simp
  ultimately show ?case using ok view by (simp only: g')
qed

datatype user_op =
    SigninOp string string connection_handle
  | SignoutOp string string socket_id
  | WatchOp string connection_handle "string list"
  | UnwatchOp string socket_id

fun user_step :: "user_registry \<Rightarrow> user_op \<Rightarrow> user_registry" where
  "user_step ur (SigninOp app uid h) = snd (ur_signin app uid h ur)"
| "user_step ur (SignoutOp app uid sid) = snd (ur_signout app uid sid ur)"
| "user_step ur (WatchOp app h ws) = snd (ur_watch app h ws ur)"
| "user_step ur (UnwatchOp app sid) = snd (ur_unwatch app sid ur)"

fun user_ref_step :: "user_ref \<Rightarrow> user_op \<Rightarrow> user_ref" where
  "user_ref_step a (SigninOp app uid h) =
     a\<lparr>signed_in := (signed_in a)((app, uid) := (signed_in a (app, uid))(handle_socket_id h \<mapsto> h))\<rparr>"
| "user_ref_step a (SignoutOp app uid sid) =
     a\<lparr>signed_in := (signed_in a)((app, uid) := (signed_in a (app, uid))(sid := None))\<rparr>"
| "user_ref_step a (WatchOp app h ws) =
     a\<lparr>watches := (watches a)((app, handle_socket_id h) \<mapsto> (ws, h))\<rparr>"
| "user_ref_step a (UnwatchOp app sid) = a\<lparr>watches := (watches a)((app, sid) := None)\<rparr>"

lemma ur_signin_rel:
  assumes "ur_rel ur a"
  shows "ur_rel (snd (ur_signin app uid h ur)) (user_ref_step a (SigninOp app uid h))"
    and "fst (ur_signin app uid h ur) \<longleftrightarrow> dom (signed_in a (app, uid)) = {}"
  using assms by (simp_all add: ur_signin_def ur_rel_def group_insert_correct group_of_empty_iff)

lemma ur_signout_rel:
  assumes "ur_rel ur a"
  shows "ur_rel (snd (ur_signout app uid sid ur)) (user_ref_step a (SignoutOp app uid sid))"
    and "fst (ur_signout app uid sid ur) \<longleftrightarrow> dom (signed_in a (app, uid)) = {sid}"
proof -
  have ok: "groups_ok (ur_users ur)" and v: "gview (ur_users ur) = signed_in a"
    using assms by (auto simp: ur_rel_def)
  have eq: "snd (ur_signout app uid sid ur) =
      ur\<lparr>ur_users := group_remove (app, uid) sid (ur_users ur)\<rparr>"
    by (simp add: ur_signout_def group_remove_def split: option.split)
  show "ur_rel (snd (ur_signout app uid sid ur)) (user_ref_step a (SignoutOp app uid sid))"
    unfolding eq using assms group_remove_correct [OF ok, of "(app, uid)" sid]
    by (simp add: ur_rel_def)
  show "fst (ur_signout app uid sid ur) \<longleftrightarrow> dom (signed_in a (app, uid)) = {sid}"
  proof (cases "map_of (ur_users ur) (app, uid)")
    case None
    then have "gview (ur_users ur) (app, uid) = Map.empty" by (simp add: group_present_iff [OF ok])
    with None v show ?thesis by (simp add: ur_signout_def)
  next
    case (Some e)
    from group_last_iff [OF ok Some, of sid] Some v show ?thesis by (simp add: ur_signout_def)
  qed
qed

lemma watchers_view_unwatch:
  assumes "wt (app, sid) = Some (ws, h)"
  shows "apply_at app ws (\<lambda>m. m(sid := None)) (watchers_view wt) = watchers_view (wt((app, sid) := None))"
proof (intro ext)
  fix k s
  show "apply_at app ws (\<lambda>m. m(sid := None)) (watchers_view wt) k s = watchers_view (wt((app, sid) := None)) k s"
    using assms by (cases "fst k = app"; cases "s = sid") (auto simp: apply_at_def watchers_view_def)
qed

lemma watchers_view_watch:
  assumes "wt (app, sid) = None"
  shows "apply_at app ws (\<lambda>m. m(sid \<mapsto> h)) (watchers_view wt) = watchers_view (wt((app, sid) \<mapsto> (ws, h)))"
proof (intro ext)
  fix k s
  show "apply_at app ws (\<lambda>m. m(sid \<mapsto> h)) (watchers_view wt) k s =
      watchers_view (wt((app, sid) \<mapsto> (ws, h))) k s"
    using assms by (cases "fst k = app"; cases "s = sid") (auto simp: apply_at_def watchers_view_def)
qed

lemma ur_unwatch_rel:
  assumes rel: "ur_rel ur a" and u: "ur_unwatch app sid ur = (em, ur')"
  shows "ur_rel ur' (user_ref_step a (UnwatchOp app sid)) \<and>
    set em = {w. (\<exists>ws h. watches a (app, sid) = Some (ws, h) \<and> w \<in> set ws) \<and>
                 dom (watchers_view (watches a) (app, w)) = {sid}} \<and> distinct em"
proof -
  have ok: "groups_ok (ur_watchers ur)" and v: "gview (ur_watchers ur) = watchers_view (watches a)"
    and hm: "hm_ok (ur_watching ur)" and m: "map_of (ur_watching ur) (app, sid) = map_option fst (watches a (app, sid))"
    using rel by (auto simp: ur_rel_def)
  show ?thesis
  proof (cases "watches a (app, sid)")
    case None
    then have "(watches a)((app, sid) := None) = watches a" by (auto simp: fun_eq_iff)
    with None rel u m show ?thesis by (simp add: ur_unwatch_def)
  next
    case (Some x)
    then obtain ws h where wh: "watches a (app, sid) = Some (ws, h)" by (cases x) auto
    obtain g where g: "unwatch_loop app sid ws (ur_watchers ur) = (em, g)"
      and ur': "ur' = ur\<lparr>ur_watchers := g, ur_watching := AList.delete (app, sid) (ur_watching ur)\<rparr>"
      using u m wh by (auto simp: ur_unwatch_def split: prod.splits)
    note loop = unwatch_loop_correct [OF ok g, unfolded v]
    have "map_of (AList.delete (app, sid) (ur_watching ur)) = map_option fst \<circ> (watches a)((app, sid) := None)"
      unfolding hm.get_del [OF hm] using rel by (auto simp: ur_rel_def fun_eq_iff)
    moreover have "gview g = watchers_view ((watches a)((app, sid) := None))"
      unfolding watchers_view_unwatch [of "watches a", OF wh, symmetric] using loop by (elim conjE)
    ultimately have "ur_rel ur' (user_ref_step a (UnwatchOp app sid))"
      using rel loop hm.ok_del [OF hm] by (simp add: ur_rel_def ur')
    with loop wh show ?thesis by simp
  qed
qed

lemma ur_is_online_rel: "ur_rel ur a \<Longrightarrow> ur_is_online app uid ur \<longleftrightarrow> dom (signed_in a (app, uid)) \<noteq> {}"
proof -
  assume rel: "ur_rel ur a"
  then have "ur_is_online app uid ur \<longleftrightarrow> group_of (ur_users ur) (app, uid) \<noteq> []"
    by (simp add: ur_is_online_def group_of_def split: option.split)
  with rel show ?thesis by (simp add: dom_gview_empty_iff ur_rel_def)
qed

lemma ur_watch_rel:
  assumes rel: "ur_rel ur a" and u: "ur_watch app h ws ur = ((online, newly), ur')"
    and others: "wt = (watches a)((app, handle_socket_id h) := None)"
  shows "ur_rel ur' (user_ref_step a (WatchOp app h ws)) \<and>
    online = filter (\<lambda>w. dom (signed_in a (app, w)) \<noteq> {}) ws \<and>
    set newly = {w \<in> set ws. dom (watchers_view wt (app, w)) = {}} \<and> distinct newly"
proof -
  let ?sid = "handle_socket_id h"
  obtain em ur1 where u1: "ur_unwatch app ?sid ur = (em, ur1)" by fastforce
  have rel1: "ur_rel ur1 (a\<lparr>watches := wt\<rparr>)" using ur_unwatch_rel [OF rel u1] others by simp
  then have ok: "groups_ok (ur_watchers ur1)" and v: "gview (ur_watchers ur1) = watchers_view wt"
    and hm: "hm_ok (ur_watching ur1)" and m: "map_of (ur_watching ur1) = map_option fst \<circ> wt"
    by (auto simp: ur_rel_def)
  obtain g where g: "watch_loop app h ws (ur_watchers ur1) = (newly, g)"
    and on: "online = filter (\<lambda>w. ur_is_online app w ur1) ws"
    and ur': "ur' = ur1\<lparr>ur_watchers := g, ur_watching := AList.update (app, ?sid) ws (ur_watching ur1)\<rparr>"
    using u u1 by (auto simp: ur_watch_def Let_def split: prod.splits)
  note loop = watch_loop_correct [OF ok g, unfolded v]
  have wt: "wt (app, ?sid) = None" "wt((app, ?sid) \<mapsto> x) = (watches a)((app, ?sid) \<mapsto> x)" for x
    by (simp_all add: others)
  have "gview g = watchers_view ((watches a)((app, ?sid) \<mapsto> (ws, h)))"
    unfolding wt(2) [symmetric] watchers_view_watch [of wt, OF wt(1), symmetric] using loop by (elim conjE)
  moreover have "map_of (AList.update (app, ?sid) ws (ur_watching ur1)) =
      map_option fst \<circ> (watches a)((app, ?sid) \<mapsto> (ws, h))"
    unfolding hm.get_ins [OF hm] m wt(2) [symmetric] by (auto simp: fun_eq_iff)
  ultimately have "ur_rel ur' (user_ref_step a (WatchOp app h ws))"
    using rel1 loop hm.ok_ins [OF hm] by (simp add: ur_rel_def ur')
  with loop show ?thesis using ur_is_online_rel [OF rel1] by (simp add: on)
qed

lemma user_step_rel:
  assumes rel: "ur_rel ur a"
  shows "ur_rel (user_step ur x) (user_ref_step a x)"
proof (cases x)
  case (SigninOp app uid h)
  with ur_signin_rel(1) [OF rel] show ?thesis by simp
next
  case (SignoutOp app uid sid)
  with ur_signout_rel(1) [OF rel] show ?thesis by simp
next
  case (WatchOp app h ws)
  obtain on nw ur' where u: "ur_watch app h ws ur = ((on, nw), ur')" by (metis surj_pair)
  from conjunct1 [OF ur_watch_rel [OF rel u refl]] u WatchOp show ?thesis by simp
next
  case (UnwatchOp app sid)
  obtain em ur' where u: "ur_unwatch app sid ur = (em, ur')" by fastforce
  from conjunct1 [OF ur_unwatch_rel [OF rel u]] u UnwatchOp show ?thesis by simp
qed

interpretation users: refinement user_step user_ref_step ur_rel
  by unfold_locales (rule user_step_rel)

abbreviation user_run :: "user_op list \<Rightarrow> user_registry" where
  "user_run ops \<equiv> foldl user_step user_registry_new ops"

abbreviation user_ref_run :: "user_op list \<Rightarrow> user_ref" where
  "user_ref_run ops \<equiv> foldl user_ref_step user_ref_new ops"

lemma user_run_rel: "ur_rel (user_run ops) (user_ref_run ops)"
  by (rule users.run_rel [OF ur_rel_new])


section \<open>Properties\<close>

text \<open>
  C24. The three indexes of the user registry stay consistent under any sequence of sign-ins,
  sign-outs, watches and unwatches: a user's handles are exactly its signed-in connections, a
  user's watchers are exactly the connections whose current watchlist names it, and a user is
  online iff it is signed in on some connection.
\<close>

theorem user_indexes_consistent:
  "gview (ur_users (user_run ops)) = signed_in (user_ref_run ops)
    \<and> gview (ur_watchers (user_run ops)) = watchers_view (watches (user_ref_run ops))
    \<and> map_of (ur_watching (user_run ops)) = map_option fst \<circ> watches (user_ref_run ops)
    \<and> groups_ok (ur_users (user_run ops)) \<and> groups_ok (ur_watchers (user_run ops))
    \<and> ur_is_online app uid (user_run ops) = (dom (signed_in (user_ref_run ops) (app, uid)) \<noteq> {})"
  using user_run_rel [of ops] ur_is_online_rel [OF user_run_rel] by (simp add: ur_rel_def)

text \<open>
  The edges that drive notifications and cluster subscriptions are exact: a sign-in brings
  the user online iff it was on no connection, a sign-out takes it offline iff this was its
  only one, a watch reports the watched users that no other connection watched and those that
  are online, and an unwatch reports the users that nobody watches any more.
\<close>

lemma user_edges_exact:
  assumes "a = user_ref_run ops" and "ur_watch app h ws (user_run ops) = ((online, newly), ur1)"
    and "ur_unwatch app sid (user_run ops) = (emptied, ur2)"
  shows "fst (ur_signin app uid h (user_run ops)) = (dom (signed_in a (app, uid)) = {})
    \<and> fst (ur_signout app uid sid (user_run ops)) = (dom (signed_in a (app, uid)) = {sid})
    \<and> online = filter (\<lambda>w. dom (signed_in a (app, w)) \<noteq> {}) ws
    \<and> set newly = {w \<in> set ws. dom (watchers_view ((watches a)((app, handle_socket_id h) := None)) (app, w)) = {}}
    \<and> set emptied = {w. dom (watchers_view (watches a) (app, w)) = {sid}}"
proof -
  note rel = user_run_rel [of ops, folded assms(1)]
  have "(\<exists>ws h. watches a (app, sid) = Some (ws, h) \<and> w \<in> set ws) \<longleftrightarrow>
      sid \<in> dom (watchers_view (watches a) (app, w))" for w
    by (auto simp: watchers_view_def split: option.splits if_splits)
  with ur_signin_rel(2) [OF rel] ur_signout_rel(2) [OF rel] ur_watch_rel [OF rel assms(2) refl]
    ur_unwatch_rel [OF rel assms(3)] show ?thesis
    by auto
qed

lemma app_insert_correct:
  assumes "groups_ok r"
  shows "groups_ok (app_insert app h r)"
    and "gview (app_insert app h r) = (gview r)(app := (gview r app)(handle_socket_id h \<mapsto> h))"
  using group_insert_correct [OF assms] by (simp_all add: app_insert_def)

lemma app_remove_correct:
  assumes "groups_ok r"
  shows "groups_ok (app_remove app sid r)"
    and "gview (app_remove app sid r) = (gview r)(app := (gview r app)(sid := None))"
  using group_remove_correct [OF assms] by (simp_all add: app_remove_def)

lemma drain_app_correct:
  assumes "groups_ok r" and "drain_app app r = (hs, r')"
  shows "groups_ok r' \<and> gview r' = (gview r)(app := Map.empty) \<and> set hs = ran (gview r app)"
proof (cases "map_of r app")
  case None
  then have "gview r app = Map.empty" by (simp add: group_present_iff [OF assms(1)])
  then have "(gview r)(app := Map.empty) = gview r" by (auto simp: fun_eq_iff)
  with None assms \<open>gview r app = Map.empty\<close> show ?thesis by (simp add: drain_app_def)
next
  case (Some e)
  then have ok: "hm_ok r" "hm_ok e" and v: "gview r app = map_of e"
    using assms(1) by (auto simp: groups_ok_def gview_def group_of_def)
  have "ran (map_of e) = snd ` set e" using ok(2) by (simp add: ran_distinct hm_ok_def)
  with Some assms ok v show ?thesis
    by (auto simp only: drain_app_def groups_ok_delete gview_delete option.case set_map prod.inject)
qed

end
