(* ===== verification/Timer_Wheel.thy ===== *)
theory Timer_Wheel
  imports Prelude "HOL-Library.Multiset"
begin

text \<open>
  The liveness timers of a worker, from \<^verbatim>\<open>src/transport/timer.rs\<close>: per connection one idle or pong
  deadline, one lifetime deadline and one handshake deadline, indexed by a timeline of
  deadlines in milliseconds. The reference behaviour is a table of armed deadlines, each
  pending or already reported. Arithmetic on the clock is that of \<open>u64\<close>.
\<close>


section \<open>State\<close>

type_synonym conn_id = nat

datatype due = DuePing conn_id | Close4201 conn_id | Close4202 conn_id | HandshakeTimeout conn_id

datatype kind = Idle | PongWait | Lifetime | Handshake

record timer =
  t_deadline_ms :: u64
  t_kind :: kind

datatype slot = Slot (slot_conn: conn_id) (slot_kind: kind)

type_synonym timeline = "(u64 \<times> slot list) list"

record timer_wheel =
  activity_timeout_ms :: u64
  pong_timeout_ms :: u64
  tw_timeline :: timeline
  tw_live :: "(conn_id \<times> timer) list"
  tw_lifetime :: "(conn_id \<times> u64) list"
  tw_handshake :: "(conn_id \<times> u64) list"

text \<open>The timeouts are configured in seconds, as \<open>u32\<close>.\<close>

definition with_timeouts :: "u32 \<Rightarrow> u32 \<Rightarrow> timer_wheel" where
  "with_timeouts activity_secs pong_secs =
     \<lparr>activity_timeout_ms = ucast activity_secs * 1000, pong_timeout_ms = ucast pong_secs * 1000,
      tw_timeline = [], tw_live = [], tw_lifetime = [], tw_handshake = []\<rparr>"

definition timer_wheel_new :: timer_wheel where
  "timer_wheel_new = with_timeouts 120 30"


section \<open>Operations\<close>

definition tl_scrub :: "conn_id \<Rightarrow> u64 \<Rightarrow> kind \<Rightarrow> timeline \<Rightarrow> timeline" where
  "tl_scrub conn deadline kind line =
     (case map_of line deadline of
        None \<Rightarrow> line
      | Some bucket \<Rightarrow>
        (let kept = filter (\<lambda>s. \<not> (slot_conn s = conn \<and> slot_kind s = kind)) bucket
         in if kept = [] then bt_remove deadline line else bt_insert deadline kept line))"

definition scrub :: "conn_id \<Rightarrow> u64 \<Rightarrow> kind \<Rightarrow> timer_wheel \<Rightarrow> timer_wheel" where
  "scrub conn deadline kind w = w\<lparr>tw_timeline := tl_scrub conn deadline kind (tw_timeline w)\<rparr>"

text \<open>\<open>timeline.entry(deadline).or_default().push(slot)\<close>.\<close>

definition tl_push :: "u64 \<Rightarrow> slot \<Rightarrow> timeline \<Rightarrow> timeline" where
  "tl_push deadline s line =
     bt_insert deadline ((case map_of line deadline of Some b \<Rightarrow> b | None \<Rightarrow> []) @ [s]) line"

definition push :: "u64 \<Rightarrow> slot \<Rightarrow> timer_wheel \<Rightarrow> timer_wheel" where
  "push deadline s w = w\<lparr>tw_timeline := tl_push deadline s (tw_timeline w)\<rparr>"

definition schedule :: "conn_id \<Rightarrow> u64 \<Rightarrow> kind \<Rightarrow> timer_wheel \<Rightarrow> timer_wheel" where
  "schedule conn deadline kind w =
     (let w1 = (case map_of (tw_live w) conn of
                  Some old \<Rightarrow> scrub conn (t_deadline_ms old) (t_kind old) w
                | None \<Rightarrow> w);
          w2 = w1\<lparr>tw_live := AList.update conn \<lparr>t_deadline_ms = deadline, t_kind = kind\<rparr> (tw_live w1)\<rparr>
      in push deadline (Slot conn kind) w2)"

definition touch :: "conn_id \<Rightarrow> u64 \<Rightarrow> timer_wheel \<Rightarrow> timer_wheel" where
  "touch conn now w = schedule conn (sat_add now (activity_timeout_ms w)) Idle w"

definition mark_ping_sent :: "conn_id \<Rightarrow> u64 \<Rightarrow> timer_wheel \<Rightarrow> timer_wheel" where
  "mark_ping_sent conn now w = schedule conn (sat_add now (pong_timeout_ms w)) PongWait w"

definition arm_lifetime :: "conn_id \<Rightarrow> u64 \<Rightarrow> timer_wheel \<Rightarrow> timer_wheel" where
  "arm_lifetime conn deadline w =
     (let w1 = w\<lparr>tw_lifetime := AList.update conn deadline (tw_lifetime w)\<rparr>;
          w2 = (case map_of (tw_lifetime w) conn of Some old \<Rightarrow> scrub conn old Lifetime w1 | None \<Rightarrow> w1)
      in push deadline (Slot conn Lifetime) w2)"

definition arm_handshake :: "conn_id \<Rightarrow> u64 \<Rightarrow> timer_wheel \<Rightarrow> timer_wheel" where
  "arm_handshake conn deadline w =
     (let w1 = w\<lparr>tw_handshake := AList.update conn deadline (tw_handshake w)\<rparr>;
          w2 = (case map_of (tw_handshake w) conn of Some old \<Rightarrow> scrub conn old Handshake w1 | None \<Rightarrow> w1)
      in push deadline (Slot conn Handshake) w2)"

definition clear_handshake :: "conn_id \<Rightarrow> timer_wheel \<Rightarrow> timer_wheel" where
  "clear_handshake conn w =
     (case map_of (tw_handshake w) conn of
        Some deadline \<Rightarrow> scrub conn deadline Handshake (w\<lparr>tw_handshake := AList.delete conn (tw_handshake w)\<rparr>)
      | None \<Rightarrow> w)"

definition clear_liveness :: "conn_id \<Rightarrow> timer_wheel \<Rightarrow> timer_wheel" where
  "clear_liveness conn w =
     (case map_of (tw_live w) conn of
        Some t \<Rightarrow> scrub conn (t_deadline_ms t) (t_kind t) (w\<lparr>tw_live := AList.delete conn (tw_live w)\<rparr>)
      | None \<Rightarrow> w)"

definition clear_lifetime :: "conn_id \<Rightarrow> timer_wheel \<Rightarrow> timer_wheel" where
  "clear_lifetime conn w =
     (case map_of (tw_lifetime w) conn of
        Some deadline \<Rightarrow> scrub conn deadline Lifetime (w\<lparr>tw_lifetime := AList.delete conn (tw_lifetime w)\<rparr>)
      | None \<Rightarrow> w)"

text \<open>\<open>remove\<close> clears the three tables in turn.\<close>

definition tw_remove :: "conn_id \<Rightarrow> timer_wheel \<Rightarrow> timer_wheel" where
  "tw_remove conn w = clear_handshake conn (clear_lifetime conn (clear_liveness conn w))"

text \<open>One popped slot, validated against its side table.\<close>

definition honour :: "timer_wheel \<Rightarrow> u64 \<Rightarrow> slot \<Rightarrow> due list" where
  "honour w deadline s =
     (let conn = slot_conn s
      in case slot_kind s of
           Idle \<Rightarrow>
             (case map_of (tw_live w) conn of
                Some t \<Rightarrow> if t_deadline_ms t = deadline \<and> t_kind t = slot_kind s then [DuePing conn] else []
              | None \<Rightarrow> [])
         | PongWait \<Rightarrow>
             (case map_of (tw_live w) conn of
                Some t \<Rightarrow> if t_deadline_ms t = deadline \<and> t_kind t = slot_kind s then [Close4201 conn] else []
              | None \<Rightarrow> [])
         | Lifetime \<Rightarrow>
             if map_of (tw_lifetime w) conn = Some deadline then [Close4202 conn] else []
         | Handshake \<Rightarrow>
             if map_of (tw_handshake w) conn = Some deadline then [HandshakeTimeout conn] else [])"

text \<open>\<open>BTreeMap::split_off\<close> keeps the keys below the bound and returns the others.\<close>

definition due_at :: "u64 \<Rightarrow> timer_wheel \<Rightarrow> due list \<times> timer_wheel" where
  "due_at now w =
     (let expired = filter (\<lambda>(d, _). d < now + 1) (tw_timeline w);
          future = filter (\<lambda>(d, _). \<not> d < now + 1) (tw_timeline w)
      in (concat (map (\<lambda>(d, slots). concat (map (honour w d) slots)) expired),
          w\<lparr>tw_timeline := future\<rparr>))"


section \<open>The timeline as a set of slots\<close>

definition flat :: "timeline \<Rightarrow> (u64 \<times> slot) list" where
  "flat line = concat (map (\<lambda>(d, b). map (Pair d) b) line)"

definition line_ok :: "timeline \<Rightarrow> bool" where
  "line_ok line \<longleftrightarrow> bt_ok line \<and> (\<forall>(d, b) \<in> set line. b \<noteq> [])"

lemma flat_simps [simp]:
  "flat [] = []" "flat ((d, b) # line) = map (Pair d) b @ flat line" "flat (x @ y) = flat x @ flat y"
  by (simp_all add: flat_def)

lemma line_ok_Nil [simp]: "line_ok []"
  by (simp add: line_ok_def)

lemma set_flat: "(d, s) \<in> set (flat line) \<longleftrightarrow> (\<exists>b. (d, b) \<in> set line \<and> s \<in> set b)"
  by (auto simp: flat_def)

lemma bt_split:
  assumes "bt_ok m" and "map_of m k = Some v"
  obtains a b where "m = a @ (k, v) # b" and "k \<notin> fst ` set a" and "k \<notin> fst ` set b"
    and "\<forall>v'. bt_insert k v' m = a @ (k, v') # b" and "bt_remove k m = a @ b"
proof -
  from assms(2) have "(k, v) \<in> set m" by (rule map_of_SomeD)
  then obtain a b where m: "m = a @ (k, v) # b" by (metis split_list)
  have k: "\<forall>x \<in> fst ` set a. x < k" "\<forall>x \<in> fst ` set b. k < x"
    using assms(1) by (auto simp: bt_ok_def m sorted_wrt_append)
  have ins: "bt_insert k v' m = a @ (k, v') # b" for v'
    using k(1) unfolding m by (induction a) auto
  have rem: "bt_remove k m = a @ b"
  proof -
    have "filter (\<lambda>e. fst e \<noteq> k) a = a" "filter (\<lambda>e. fst e \<noteq> k) b = b"
      using k by (auto intro!: filter_True)
    then show ?thesis by (simp add: m bt_remove_def)
  qed
  show thesis using that [OF m] k ins rem by blast
qed

lemma flat_tl_scrub:
  assumes "line_ok line"
  shows "line_ok (tl_scrub c d k line) \<and> flat (tl_scrub c d k line) = filter (\<lambda>x. x \<noteq> (d, Slot c k)) (flat line)"
proof (cases "map_of line d")
  case None
  then have "(d, Slot c k) \<notin> set (flat line)" by (auto simp: set_flat map_of_eq_None_iff image_iff)
  then have "filter (\<lambda>x. x \<noteq> (d, Slot c k)) (flat line) = flat line" by (intro filter_True) auto
  then show ?thesis using None assms by (simp add: tl_scrub_def)
next
  case (Some v)
  from assms have bt: "bt_ok line" by (simp add: line_ok_def)
  from bt Some obtain a b where l: "line = a @ (d, v) # b" and d: "d \<notin> fst ` set a" "d \<notin> fst ` set b"
    and ins: "\<forall>v'. bt_insert d v' line = a @ (d, v') # b" and rem: "bt_remove d line = a @ b"
    by (rule bt_split)
  let ?kept = "filter (\<lambda>s. \<not> (slot_conn s = c \<and> slot_kind s = k)) v"
  have other: "filter (\<lambda>x. x \<noteq> (d, Slot c k)) (flat xs) = flat xs" if "d \<notin> fst ` set xs" for xs
    using that by (intro filter_True) (force simp: set_flat)
  have kept: "filter (\<lambda>x. x \<noteq> (d, Slot c k)) (map (Pair d) v) = map (Pair d) ?kept"
  proof -
    have "s = Slot c k \<longleftrightarrow> slot_conn s = c \<and> slot_kind s = k" for s by (cases s) auto
    then show ?thesis by (simp add: filter_map comp_def)
  qed
  have res: "tl_scrub c d k line = (if ?kept = [] then a @ b else a @ (d, ?kept) # b)"
    using Some by (simp add: tl_scrub_def ins rem)
  have "line_ok (tl_scrub c d k line)"
    using assms bt_ok_insert [OF bt, of d ?kept] bt_ok_remove [OF bt, of d] unfolding res rem ins [rule_format]
    by (auto simp: line_ok_def l)
  moreover have "flat (tl_scrub c d k line) = filter (\<lambda>x. x \<noteq> (d, Slot c k)) (flat line)"
    using other [OF d(1)] other [OF d(2)] kept by (cases "?kept = []") (simp_all add: res, simp_all add: l)
  ultimately show ?thesis ..
qed

lemma mset_flat_bt_insert_new:
  "d \<notin> fst ` set line \<Longrightarrow> mset (flat (bt_insert d b line)) = mset (map (Pair d) b) + mset (flat line)"
  by (induction d b line rule: bt_insert.induct) auto

lemma set_bt_insert_new: "d \<notin> fst ` set line \<Longrightarrow> set (bt_insert d b line) = insert (d, b) (set line)"
  by (induction d b line rule: bt_insert.induct) auto

lemma flat_tl_push:
  assumes "line_ok line"
  shows "line_ok (tl_push d s line) \<and> mset (flat (tl_push d s line)) = add_mset (d, s) (mset (flat line))"
proof (cases "map_of line d")
  case None
  then have d: "d \<notin> fst ` set line" by (simp add: map_of_eq_None_iff)
  with None assms show ?thesis
    by (auto simp: tl_push_def line_ok_def bt_ok_insert mset_flat_bt_insert_new set_bt_insert_new)
next
  case (Some v)
  from assms have bt: "bt_ok line" by (simp add: line_ok_def)
  from bt Some obtain a b where l: "line = a @ (d, v) # b"
    and ins: "\<forall>v'. bt_insert d v' line = a @ (d, v') # b" by (rule bt_split)
  from Some ins have p: "tl_push d s line = a @ (d, v @ [s]) # b" by (simp add: tl_push_def)
  have "bt_ok (a @ (d, v @ [s]) # b)" using bt_ok_insert [OF bt, of d "v @ [s]"] ins by simp
  with assms show ?thesis unfolding p by (auto simp: line_ok_def l)
qed


section \<open>The reference behaviour\<close>

text \<open>
  Per connection and class of deadline: the deadline, its kind, and whether it is still to be
  reported.
\<close>

datatype timer_class = LivenessClass | LifetimeClass | HandshakeClass

fun class_of :: "kind \<Rightarrow> timer_class" where
  "class_of Idle = LivenessClass"
| "class_of PongWait = LivenessClass"
| "class_of Lifetime = LifetimeClass"
| "class_of Handshake = HandshakeClass"

record arming =
  ar_deadline :: u64
  ar_kind :: kind
  ar_pending :: bool

type_synonym armed = "conn_id \<times> timer_class \<Rightarrow> arming option"

definition slots_of :: "armed \<Rightarrow> (u64 \<times> slot) set" where
  "slots_of A = {(d, s). A (slot_conn s, class_of (slot_kind s)) =
     Some \<lparr>ar_deadline = d, ar_kind = slot_kind s, ar_pending = True\<rparr>}"

definition line_rel :: "timeline \<Rightarrow> armed \<Rightarrow> bool" where
  "line_rel line A \<longleftrightarrow> line_ok line \<and> distinct (flat line) \<and> set (flat line) = slots_of A"

definition kinds_ok :: "armed \<Rightarrow> bool" where
  "kinds_ok A \<longleftrightarrow> (\<forall>c cl a. A (c, cl) = Some a \<longrightarrow> class_of (ar_kind a) = cl)"

definition tables_rel :: "timer_wheel \<Rightarrow> armed \<Rightarrow> bool" where
  "tables_rel w A \<longleftrightarrow>
     hm_ok (tw_live w) \<and> hm_ok (tw_lifetime w) \<and> hm_ok (tw_handshake w) \<and>
     (\<forall>c. map_of (tw_live w) c =
        map_option (\<lambda>a. \<lparr>t_deadline_ms = ar_deadline a, t_kind = ar_kind a\<rparr>) (A (c, LivenessClass))) \<and>
     (\<forall>c. map_of (tw_lifetime w) c = map_option ar_deadline (A (c, LifetimeClass))) \<and>
     (\<forall>c. map_of (tw_handshake w) c = map_option ar_deadline (A (c, HandshakeClass)))"

definition tw_rel :: "timer_wheel \<Rightarrow> armed \<Rightarrow> bool" where
  "tw_rel w A \<longleftrightarrow> line_rel (tw_timeline w) A \<and> kinds_ok A \<and> tables_rel w A"

lemma tw_rel_new: "tw_rel (with_timeouts a p) (\<lambda>_. None)"
  by (simp add: tw_rel_def with_timeouts_def line_rel_def slots_of_def kinds_ok_def tables_rel_def)

text \<open>Dropping an arming takes its slot, if any, and no other.\<close>

lemma line_rel_scrub:
  assumes rel: "line_rel line A" and kinds: "kinds_ok A"
    and a: "A (c, cl) = Some \<lparr>ar_deadline = d, ar_kind = k, ar_pending = p\<rparr>"
  shows "line_rel (tl_scrub c d k line) (A((c, cl) := None))"
proof -
  have cl: "class_of k = cl" using kinds a unfolding kinds_ok_def by (metis arming.select_convs(2))
  from rel have ok: "line_ok line" and dist: "distinct (flat line)" and set: "set (flat line) = slots_of A"
    by (auto simp: line_rel_def)
  note s = flat_tl_scrub [OF ok, of c d k]
  have "slots_of (A((c, cl) := None)) = {x \<in> slots_of A. x \<noteq> (d, Slot c k)}"
  proof (intro set_eqI iffI)
    fix x
    assume "x \<in> {x \<in> slots_of A. x \<noteq> (d, Slot c k)}"
    then have "A (slot_conn (snd x), class_of (slot_kind (snd x))) =
        Some \<lparr>ar_deadline = fst x, ar_kind = slot_kind (snd x), ar_pending = True\<rparr>" "x \<noteq> (d, Slot c k)"
      by (auto simp: slots_of_def)
    moreover from this have "(slot_conn (snd x), class_of (slot_kind (snd x))) \<noteq> (c, cl)"
      using a by (cases x; cases "snd x") auto
    ultimately show "x \<in> slots_of (A((c, cl) := None))" by (auto simp: slots_of_def)
  next
    fix x
    assume "x \<in> slots_of (A((c, cl) := None))"
    then show "x \<in> {x \<in> slots_of A. x \<noteq> (d, Slot c k)}"
      using cl by (cases x; cases "snd x") (auto simp: slots_of_def split: if_splits)
  qed
  with s dist set show ?thesis by (auto simp: line_rel_def)
qed

lemma line_rel_push:
  assumes rel: "line_rel line A" and none: "A (c, class_of k) = None"
  shows "line_rel (tl_push d (Slot c k) line)
    (A((c, class_of k) \<mapsto> \<lparr>ar_deadline = d, ar_kind = k, ar_pending = True\<rparr>))"
proof -
  from rel have ok: "line_ok line" and dist: "distinct (flat line)" and set: "set (flat line) = slots_of A"
    by (auto simp: line_rel_def)
  note p = flat_tl_push [OF ok, of d "Slot c k"]
  then have m: "mset (flat (tl_push d (Slot c k) line)) = mset ((d, Slot c k) # flat line)" by simp
  have "(d, Slot c k) \<notin> slots_of A" using none by (simp add: slots_of_def)
  then have "distinct ((d, Slot c k) # flat line)" using dist set by simp
  then have "distinct (flat (tl_push d (Slot c k) line))" using m mset_eq_imp_distinct_iff by blast
  moreover have "set (flat (tl_push d (Slot c k) line)) = insert (d, Slot c k) (slots_of A)"
    using mset_eq_setD [OF m] set by simp
  moreover have "slots_of (A((c, class_of k) \<mapsto> \<lparr>ar_deadline = d, ar_kind = k, ar_pending = True\<rparr>)) =
      insert (d, Slot c k) (slots_of A)"
  proof (intro set_eqI)
    fix x
    show "x \<in> slots_of (A((c, class_of k) \<mapsto> \<lparr>ar_deadline = d, ar_kind = k, ar_pending = True\<rparr>)) \<longleftrightarrow>
        x \<in> insert (d, Slot c k) (slots_of A)"
      using none by (cases x; cases "snd x") (auto simp: slots_of_def)
  qed
  ultimately show ?thesis using p by (simp add: line_rel_def)
qed

abbreviation arm :: "u64 \<Rightarrow> kind \<Rightarrow> arming" where
  "arm d k \<equiv> \<lparr>ar_deadline = d, ar_kind = k, ar_pending = True\<rparr>"

text \<open>Replacing an arming: the old slot is scrubbed if there was one, the new one is pushed.\<close>

lemma line_rel_rearm:
  assumes rel: "line_rel line A" and kinds: "kinds_ok A"
    and old: "old = map_option (\<lambda>a. (ar_deadline a, ar_kind a)) (A (c, class_of k))"
  shows "line_rel (tl_push d (Slot c k)
      (case old of Some (d', k') \<Rightarrow> tl_scrub c d' k' line | None \<Rightarrow> line)) (A((c, class_of k) \<mapsto> arm d k))"
proof (cases "A (c, class_of k)")
  case None
  with old line_rel_push [OF rel None, of d] show ?thesis by simp
next
  case (Some a)
  then have "A (c, class_of k) = Some \<lparr>ar_deadline = ar_deadline a, ar_kind = ar_kind a, ar_pending = ar_pending a\<rparr>"
    by simp
  from line_rel_scrub [OF rel kinds this]
  have "line_rel (tl_scrub c (ar_deadline a) (ar_kind a) line) (A((c, class_of k) := None))" .
  from line_rel_push [OF this, of c k d] Some old show ?thesis by simp
qed

lemma line_rel_clear:
  assumes rel: "line_rel line A" and kinds: "kinds_ok A"
    and old: "old = map_option (\<lambda>a. (ar_deadline a, ar_kind a)) (A (c, cl))"
  shows "line_rel (case old of Some (d', k') \<Rightarrow> tl_scrub c d' k' line | None \<Rightarrow> line) (A((c, cl) := None))"
proof (cases "A (c, cl)")
  case None
  then have "A((c, cl) := None) = A" by auto
  with old None rel show ?thesis by simp
next
  case (Some a)
  then have "A (c, cl) = Some \<lparr>ar_deadline = ar_deadline a, ar_kind = ar_kind a, ar_pending = ar_pending a\<rparr>"
    by simp
  from line_rel_scrub [OF rel kinds this] Some old show ?thesis by simp
qed

lemma kinds_ok_arm: "kinds_ok A \<Longrightarrow> kinds_ok (A((c, class_of k) \<mapsto> arm d k))"
  by (simp add: kinds_ok_def)

lemma kinds_ok_clear: "kinds_ok A \<Longrightarrow> kinds_ok (A(x := None))"
  by (auto simp: kinds_ok_def)

lemma kinds_ok_class: "kinds_ok A \<Longrightarrow> A (c, cl) = Some a \<Longrightarrow> class_of (ar_kind a) = cl"
  by (simp add: kinds_ok_def)

lemma class_lifetime: "class_of k = LifetimeClass \<longleftrightarrow> k = Lifetime" "class_of k = HandshakeClass \<longleftrightarrow> k = Handshake"
  by (cases k; simp)+

lemma schedule_rel:
  assumes rel: "tw_rel w A" and k: "class_of k = LivenessClass"
  shows "tw_rel (schedule c d k w) (A((c, LivenessClass) \<mapsto> arm d k))"
proof -
  let ?old = "map_option (\<lambda>a. (ar_deadline a, ar_kind a)) (A (c, LivenessClass))"
  from rel have line: "line_rel (tw_timeline w) A" and kinds: "kinds_ok A" and tab: "tables_rel w A"
    by (auto simp: tw_rel_def)
  have live: "map_of (tw_live w) c =
      map_option (\<lambda>a. \<lparr>t_deadline_ms = ar_deadline a, t_kind = ar_kind a\<rparr>) (A (c, LivenessClass))"
    using tab by (simp add: tables_rel_def)
  have "schedule c d k w = w\<lparr>
      tw_live := AList.update c \<lparr>t_deadline_ms = d, t_kind = k\<rparr> (tw_live w),
      tw_timeline := tl_push d (Slot c k)
        (case ?old of Some (d', k') \<Rightarrow> tl_scrub c d' k' (tw_timeline w) | None \<Rightarrow> tw_timeline w)\<rparr>"
    unfolding schedule_def live by (cases "A (c, LivenessClass)") (simp_all add: Let_def scrub_def push_def)
  with line_rel_rearm [OF line kinds refl, of d c k] kinds_ok_arm [OF kinds, of c k d] tab show ?thesis
    by (simp add: tw_rel_def k tables_rel_def hm_simps)
qed

lemma arm_lifetime_rel:
  assumes rel: "tw_rel w A"
  shows "tw_rel (arm_lifetime c d w) (A((c, LifetimeClass) \<mapsto> arm d Lifetime))"
proof -
  let ?old = "map_option (\<lambda>a. (ar_deadline a, ar_kind a)) (A (c, LifetimeClass))"
  from rel have line: "line_rel (tw_timeline w) A" and kinds: "kinds_ok A" and tab: "tables_rel w A"
    by (auto simp: tw_rel_def)
  have life: "map_of (tw_lifetime w) c = map_option ar_deadline (A (c, LifetimeClass))"
    using tab by (simp add: tables_rel_def)
  have "arm_lifetime c d w = w\<lparr>
      tw_lifetime := AList.update c d (tw_lifetime w),
      tw_timeline := tl_push d (Slot c Lifetime)
        (case ?old of Some (d', k') \<Rightarrow> tl_scrub c d' k' (tw_timeline w) | None \<Rightarrow> tw_timeline w)\<rparr>"
    unfolding arm_lifetime_def life using kinds_ok_class [OF kinds, of c LifetimeClass]
    by (cases "A (c, LifetimeClass)") (simp_all add: Let_def scrub_def push_def class_lifetime)
  with line_rel_rearm [OF line kinds refl, of d c Lifetime] kinds_ok_arm [OF kinds, of c Lifetime d] tab show ?thesis
    by (simp add: tw_rel_def tables_rel_def hm_simps)
qed

lemma arm_handshake_rel:
  assumes rel: "tw_rel w A"
  shows "tw_rel (arm_handshake c d w) (A((c, HandshakeClass) \<mapsto> arm d Handshake))"
proof -
  let ?old = "map_option (\<lambda>a. (ar_deadline a, ar_kind a)) (A (c, HandshakeClass))"
  from rel have line: "line_rel (tw_timeline w) A" and kinds: "kinds_ok A" and tab: "tables_rel w A"
    by (auto simp: tw_rel_def)
  have hs: "map_of (tw_handshake w) c = map_option ar_deadline (A (c, HandshakeClass))"
    using tab by (simp add: tables_rel_def)
  have "arm_handshake c d w = w\<lparr>
      tw_handshake := AList.update c d (tw_handshake w),
      tw_timeline := tl_push d (Slot c Handshake)
        (case ?old of Some (d', k') \<Rightarrow> tl_scrub c d' k' (tw_timeline w) | None \<Rightarrow> tw_timeline w)\<rparr>"
    unfolding arm_handshake_def hs using kinds_ok_class [OF kinds, of c HandshakeClass]
    by (cases "A (c, HandshakeClass)") (simp_all add: Let_def scrub_def push_def class_lifetime)
  with line_rel_rearm [OF line kinds refl, of d c Handshake] kinds_ok_arm [OF kinds, of c Handshake d] tab show ?thesis
    by (simp add: tw_rel_def tables_rel_def hm_simps)
qed

lemma clear_liveness_rel:
  assumes rel: "tw_rel w A"
  shows "tw_rel (clear_liveness c w) (A((c, LivenessClass) := None))"
proof -
  let ?old = "map_option (\<lambda>a. (ar_deadline a, ar_kind a)) (A (c, LivenessClass))"
  from rel have line: "line_rel (tw_timeline w) A" and kinds: "kinds_ok A" and tab: "tables_rel w A"
    by (auto simp: tw_rel_def)
  have live: "map_of (tw_live w) c =
      map_option (\<lambda>a. \<lparr>t_deadline_ms = ar_deadline a, t_kind = ar_kind a\<rparr>) (A (c, LivenessClass))"
    using tab by (simp add: tables_rel_def)
  have "tw_timeline (clear_liveness c w) =
      (case ?old of Some (d', k') \<Rightarrow> tl_scrub c d' k' (tw_timeline w) | None \<Rightarrow> tw_timeline w)"
    unfolding clear_liveness_def live by (cases "A (c, LivenessClass)") (simp_all add: scrub_def)
  moreover have "tables_rel (clear_liveness c w) (A((c, LivenessClass) := None))"
    unfolding clear_liveness_def live using tab
    by (cases "A (c, LivenessClass)") (auto simp: tables_rel_def scrub_def hm_simps)
  ultimately show ?thesis
    using line_rel_clear [OF line kinds refl, of c LivenessClass] kinds_ok_clear [OF kinds]
    by (simp add: tw_rel_def)
qed

lemma clear_lifetime_rel:
  assumes rel: "tw_rel w A"
  shows "tw_rel (clear_lifetime c w) (A((c, LifetimeClass) := None))"
proof -
  let ?old = "map_option (\<lambda>a. (ar_deadline a, ar_kind a)) (A (c, LifetimeClass))"
  from rel have line: "line_rel (tw_timeline w) A" and kinds: "kinds_ok A" and tab: "tables_rel w A"
    by (auto simp: tw_rel_def)
  have life: "map_of (tw_lifetime w) c = map_option ar_deadline (A (c, LifetimeClass))"
    using tab by (simp add: tables_rel_def)
  have "tw_timeline (clear_lifetime c w) =
      (case ?old of Some (d', k') \<Rightarrow> tl_scrub c d' k' (tw_timeline w) | None \<Rightarrow> tw_timeline w)"
    unfolding clear_lifetime_def life using kinds_ok_class [OF kinds, of c LifetimeClass]
    by (cases "A (c, LifetimeClass)") (simp_all add: scrub_def class_lifetime)
  moreover have "tables_rel (clear_lifetime c w) (A((c, LifetimeClass) := None))"
    unfolding clear_lifetime_def life using tab
    by (cases "A (c, LifetimeClass)") (auto simp: tables_rel_def scrub_def hm_simps)
  ultimately show ?thesis
    using line_rel_clear [OF line kinds refl, of c LifetimeClass] kinds_ok_clear [OF kinds]
    by (simp add: tw_rel_def)
qed

lemma clear_handshake_rel:
  assumes rel: "tw_rel w A"
  shows "tw_rel (clear_handshake c w) (A((c, HandshakeClass) := None))"
proof -
  let ?old = "map_option (\<lambda>a. (ar_deadline a, ar_kind a)) (A (c, HandshakeClass))"
  from rel have line: "line_rel (tw_timeline w) A" and kinds: "kinds_ok A" and tab: "tables_rel w A"
    by (auto simp: tw_rel_def)
  have hs: "map_of (tw_handshake w) c = map_option ar_deadline (A (c, HandshakeClass))"
    using tab by (simp add: tables_rel_def)
  have "tw_timeline (clear_handshake c w) =
      (case ?old of Some (d', k') \<Rightarrow> tl_scrub c d' k' (tw_timeline w) | None \<Rightarrow> tw_timeline w)"
    unfolding clear_handshake_def hs using kinds_ok_class [OF kinds, of c HandshakeClass]
    by (cases "A (c, HandshakeClass)") (simp_all add: scrub_def class_lifetime)
  moreover have "tables_rel (clear_handshake c w) (A((c, HandshakeClass) := None))"
    unfolding clear_handshake_def hs using tab
    by (cases "A (c, HandshakeClass)") (auto simp: tables_rel_def scrub_def hm_simps)
  ultimately show ?thesis
    using line_rel_clear [OF line kinds refl, of c HandshakeClass] kinds_ok_clear [OF kinds]
    by (simp add: tw_rel_def)
qed

definition all_classes_cleared :: "conn_id \<Rightarrow> armed \<Rightarrow> armed" where
  "all_classes_cleared c A = (\<lambda>x. if fst x = c then None else A x)"

lemma tw_remove_rel:
  assumes rel: "tw_rel w A"
  shows "tw_rel (tw_remove c w) (all_classes_cleared c A)"
proof -
  have "all_classes_cleared c A =
      A((c, LivenessClass) := None, (c, LifetimeClass) := None, (c, HandshakeClass) := None)"
  proof
    fix x
    show "all_classes_cleared c A x =
        (A((c, LivenessClass) := None, (c, LifetimeClass) := None, (c, HandshakeClass) := None)) x"
      by (cases x; cases "snd x") (auto simp: all_classes_cleared_def)
  qed
  then show ?thesis
    unfolding tw_remove_def using clear_handshake_rel [OF clear_lifetime_rel [OF clear_liveness_rel [OF rel]]]
    by simp
qed

text \<open>What is reported for a slot, and the table after a report.\<close>

fun due_event :: "slot \<Rightarrow> due" where
  "due_event (Slot c Idle) = DuePing c"
| "due_event (Slot c PongWait) = Close4201 c"
| "due_event (Slot c Lifetime) = Close4202 c"
| "due_event (Slot c Handshake) = HandshakeTimeout c"

definition fire :: "u64 \<Rightarrow> armed \<Rightarrow> armed" where
  "fire now A = (\<lambda>x. map_option (\<lambda>a. if ar_deadline a \<le> now then a\<lparr>ar_pending := False\<rparr> else a) (A x))"

lemma due_event_inj: "due_event s = due_event s' \<longleftrightarrow> s = s'"
  by (cases s; cases s'; cases "slot_kind s"; cases "slot_kind s'") auto

lemma honour_armed:
  assumes "tables_rel w A" and "(d, s) \<in> slots_of A"
  shows "honour w d s = [due_event s]"
  using assms by (cases s; cases "slot_kind s") (auto simp: honour_def tables_rel_def slots_of_def)

lemma flat_filter: "flat (filter (\<lambda>(d, _). P d) line) = filter (\<lambda>(d, _). P d) (flat line)"
proof (induction line)
  case (Cons e line)
  have "filter (\<lambda>(d, _). P d) (map (Pair d') b) = (if P d' then map (Pair d') b else [])"
    for d' and b :: "slot list" by (induction b) auto
  with Cons show ?case by (cases e) simp
qed simp

lemma concat_honour:
  assumes "\<And>d s. (d, s) \<in> set (flat line) \<Longrightarrow> honour w d s = [due_event s]"
  shows "concat (map (\<lambda>(d, slots). concat (map (honour w d) slots)) line) = map (due_event \<circ> snd) (flat line)"
  using assms
proof (induction line)
  case (Cons e line)
  obtain d b where e: "e = (d, b)" by fastforce
  have "map (honour w d) b = map (\<lambda>s. [due_event s]) b"
    using Cons.prems [of d] by (auto simp: e)
  then have "concat (map (honour w d) b) = map due_event b" by (simp only: concat_map_singleton)
  moreover have "concat (map (\<lambda>(d, slots). concat (map (honour w d) slots)) line) = map (due_event \<circ> snd) (flat line)"
    using Cons.prems by (intro Cons.IH) (auto simp: e)
  ultimately show ?case by (simp add: e comp_def)
qed simp

lemma less_Suc_word: "now \<noteq> - 1 \<Longrightarrow> d < now + 1 \<longleftrightarrow> d \<le> now" for d now :: u64
proof -
  assume "now \<noteq> - 1"
  then have "1 + now \<noteq> 0" by (metis add.commute add_eq_0_iff)
  from unatSuc [OF this] have "unat (now + 1) = Suc (unat now)" by (simp only: add.commute)
  then show ?thesis by (simp add: word_less_nat_alt word_le_nat_alt less_Suc_eq_le)
qed

lemma slots_of_fire: "slots_of (fire now A) = {(d, s) \<in> slots_of A. \<not> d \<le> now}"
proof (intro set_eqI)
  fix x :: "u64 \<times> slot"
  obtain d s where x: "x = (d, s)" by fastforce
  show "x \<in> slots_of (fire now A) \<longleftrightarrow> x \<in> {(d, s) \<in> slots_of A. \<not> d \<le> now}"
  proof (cases "A (slot_conn s, class_of (slot_kind s))")
    case (Some a)
    then show ?thesis by (cases a) (auto simp: x slots_of_def fire_def split: if_splits)
  qed (simp add: x slots_of_def fire_def)
qed

lemma due_at_rel:
  assumes rel: "tw_rel w A" and now: "now \<noteq> - 1" and r: "due_at now w = (out, w')"
  shows "tw_rel w' (fire now A) \<and> distinct out \<and> set out = {due_event s | d s. (d, s) \<in> slots_of A \<and> d \<le> now}"
proof -
  from rel have line: "line_rel (tw_timeline w) A" and kinds: "kinds_ok A" and tab: "tables_rel w A"
    by (auto simp: tw_rel_def)
  then have ok: "line_ok (tw_timeline w)" and dist: "distinct (flat (tw_timeline w))"
    and set: "set (flat (tw_timeline w)) = slots_of A" by (auto simp: line_rel_def)
  note lt = less_Suc_word [OF now]
  let ?exp = "filter (\<lambda>(d, _). d < now + 1) (tw_timeline w)"
    and ?fut = "filter (\<lambda>(d, _). \<not> d < now + 1) (tw_timeline w)"
  have exp: "flat ?exp = filter (\<lambda>(d, _). d \<le> now) (flat (tw_timeline w))"
    and fut: "flat ?fut = filter (\<lambda>(d, _). \<not> d \<le> now) (flat (tw_timeline w))"
    by (simp_all add: flat_filter lt)
  have "concat (map (\<lambda>(d, slots). concat (map (honour w d) slots)) ?exp) = map (due_event \<circ> snd) (flat ?exp)"
    by (rule concat_honour) (use exp set honour_armed [OF tab] in auto)
  with r have out: "out = map (due_event \<circ> snd) (flat ?exp)" and w': "w' = w\<lparr>tw_timeline := ?fut\<rparr>"
    by (auto simp: due_at_def Let_def)
  have "bt_ok ?fut" using ok by (simp add: line_ok_def bt_ok_def sorted_wrt_map sorted_wrt_filter)
  then have "line_rel ?fut (fire now A)"
    using ok dist set by (auto simp: line_rel_def line_ok_def fut slots_of_fire)
  moreover have "tables_rel w' (fire now A)" and "kinds_ok (fire now A)"
    using tab kinds by (auto simp: tables_rel_def kinds_ok_def fire_def w' option.map_comp comp_def
        intro!: option.map_cong split: if_splits)
  moreover have "inj_on (due_event \<circ> snd) (set (flat ?exp))"
  proof (rule inj_onI)
    fix x y
    assume "x \<in> set (flat ?exp)" "y \<in> set (flat ?exp)" "(due_event \<circ> snd) x = (due_event \<circ> snd) y"
    then have "x \<in> slots_of A" "y \<in> slots_of A" "snd x = snd y"
      using exp set by (auto simp: due_event_inj)
    then show "x = y" by (cases x; cases y) (auto simp: slots_of_def)
  qed
  then have "distinct out" using dist by (simp add: out exp distinct_map)
  moreover have "set out = {due_event s | d s. (d, s) \<in> slots_of A \<and> d \<le> now}"
    unfolding out exp using set by force
  ultimately show ?thesis by (simp add: tw_rel_def w')
qed

datatype timer_op =
    Touch conn_id u64
  | MarkPingSent conn_id u64
  | ArmLifetime conn_id u64
  | ArmHandshake conn_id u64
  | ClearHandshake conn_id
  | ClearLiveness conn_id
  | Remove conn_id
  | DueAt u64

fun timer_step :: "timer_wheel \<Rightarrow> timer_op \<Rightarrow> timer_wheel" where
  "timer_step w (Touch c now) = touch c now w"
| "timer_step w (MarkPingSent c now) = mark_ping_sent c now w"
| "timer_step w (ArmLifetime c d) = arm_lifetime c d w"
| "timer_step w (ArmHandshake c d) = arm_handshake c d w"
| "timer_step w (ClearHandshake c) = clear_handshake c w"
| "timer_step w (ClearLiveness c) = clear_liveness c w"
| "timer_step w (Remove c) = tw_remove c w"
| "timer_step w (DueAt now) = (if now = - 1 then w else snd (due_at now w))"

fun armed_step :: "u64 \<Rightarrow> u64 \<Rightarrow> armed \<Rightarrow> timer_op \<Rightarrow> armed" where
  "armed_step act pong A (Touch c now) = A((c, LivenessClass) \<mapsto> arm (sat_add now act) Idle)"
| "armed_step act pong A (MarkPingSent c now) = A((c, LivenessClass) \<mapsto> arm (sat_add now pong) PongWait)"
| "armed_step act pong A (ArmLifetime c d) = A((c, LifetimeClass) \<mapsto> arm d Lifetime)"
| "armed_step act pong A (ArmHandshake c d) = A((c, HandshakeClass) \<mapsto> arm d Handshake)"
| "armed_step act pong A (ClearHandshake c) = A((c, HandshakeClass) := None)"
| "armed_step act pong A (ClearLiveness c) = A((c, LivenessClass) := None)"
| "armed_step act pong A (Remove c) = all_classes_cleared c A"
| "armed_step act pong A (DueAt now) = (if now = - 1 then A else fire now A)"

definition wheel_rel :: "u64 \<Rightarrow> u64 \<Rightarrow> timer_wheel \<Rightarrow> armed \<Rightarrow> bool" where
  "wheel_rel act pong w A \<longleftrightarrow> tw_rel w A \<and> activity_timeout_ms w = act \<and> pong_timeout_ms w = pong"

lemma timeouts_fixed:
  "activity_timeout_ms (timer_step w x) = activity_timeout_ms w \<and> pong_timeout_ms (timer_step w x) = pong_timeout_ms w"
  by (cases x)
    (auto simp: touch_def mark_ping_sent_def schedule_def arm_lifetime_def arm_handshake_def clear_handshake_def
      clear_liveness_def clear_lifetime_def tw_remove_def due_at_def scrub_def push_def Let_def split: option.splits)

lemma timer_step_rel:
  assumes "wheel_rel act pong w A"
  shows "wheel_rel act pong (timer_step w x) (armed_step act pong A x)"
proof -
  have rel: "tw_rel w A" and t: "activity_timeout_ms w = act" "pong_timeout_ms w = pong"
    using assms by (auto simp: wheel_rel_def)
  have "tw_rel (timer_step w x) (armed_step act pong A x)"
  proof (cases x)
    case (DueAt now)
    then show ?thesis
      using rel due_at_rel [OF rel, of now "fst (due_at now w)" "snd (due_at now w)"] by simp
  qed (use rel t in \<open>simp_all add: touch_def mark_ping_sent_def schedule_rel arm_lifetime_rel arm_handshake_rel
      clear_handshake_rel clear_liveness_rel tw_remove_rel\<close>)
  with timeouts_fixed [of w x] t show ?thesis by (simp add: wheel_rel_def)
qed

interpretation wheel: refinement timer_step "armed_step act pong" "wheel_rel act pong" for act pong
  by unfold_locales (rule timer_step_rel)

lemma wheel_run_rel:
  assumes "w0 = with_timeouts a p" and "act = ucast a * 1000" and "pong = ucast p * 1000"
  shows "wheel_rel act pong (foldl timer_step w0 ops) (foldl (armed_step act pong) (\<lambda>_. None) ops)"
  by (rule wheel.run_rel) (use assms tw_rel_new in \<open>simp add: wheel_rel_def with_timeouts_def\<close>)


section \<open>Properties\<close>

text \<open>A run of the wheel and of the table from the configured timeouts in seconds.\<close>

definition wheel_run :: "u32 \<Rightarrow> u32 \<Rightarrow> timer_op list \<Rightarrow> timer_wheel" where
  "wheel_run a p ops = foldl timer_step (with_timeouts a p) ops"

definition armed_run :: "u32 \<Rightarrow> u32 \<Rightarrow> timer_op list \<Rightarrow> armed" where
  "armed_run a p ops = foldl (armed_step (ucast a * 1000) (ucast p * 1000)) (\<lambda>_. None) ops"

lemma run_armed: "tw_rel (wheel_run a p ops) (armed_run a p ops)"
  using wheel_run_rel [OF refl refl refl, of a p ops] by (simp add: wheel_rel_def wheel_run_def armed_run_def)

text \<open>
  C22. The wheel reports exactly what is due: after any sequence of operations, a call at time
  \<open>now\<close> returns one event for every armed deadline that has passed and was not reported
  before, and nothing else; no deadline is ever lost, reported early, or reported twice.
\<close>

theorem wheel_reports_exactly_due:
  assumes "due_at now (wheel_run a p ops) = (out, w')" and "now \<noteq> - 1"
  shows "distinct out
    \<and> set out = {due_event (Slot c k) | c k d. d \<le> now \<and>
        armed_run a p ops (c, class_of k) = Some \<lparr>ar_deadline = d, ar_kind = k, ar_pending = True\<rparr>}
    \<and> fst (due_at now w') = []"
proof -
  note rel = due_at_rel [OF run_armed assms(2,1)]
  then have "tw_rel w' (fire now (armed_run a p ops))" by blast
  from due_at_rel [OF this assms(2) prod.collapse [symmetric]]
  have "set (fst (due_at now w')) = {}" by (auto simp: slots_of_fire)
  moreover have "{due_event s | d s. (d, s) \<in> slots_of (armed_run a p ops) \<and> d \<le> now} =
      {due_event (Slot c k) | c k d. d \<le> now \<and>
        armed_run a p ops (c, class_of k) = Some \<lparr>ar_deadline = d, ar_kind = k, ar_pending = True\<rparr>}"
    (is "?l = ?r")
  proof (intro set_eqI iffI)
    fix e assume "e \<in> ?l"
    then obtain d s where "e = due_event s" "(d, s) \<in> slots_of (armed_run a p ops)" "d \<le> now" by blast
    then show "e \<in> ?r" by (cases s) (auto simp: slots_of_def)
  next
    fix e assume "e \<in> ?r"
    then obtain c k d where "e = due_event (Slot c k)" "(d, Slot c k) \<in> slots_of (armed_run a p ops)" "d \<le> now"
      by (auto simp: slots_of_def)
    then show "e \<in> ?l" by blast
  qed
  ultimately show ?thesis using rel by simp
qed

theorem wheel_reports_exactly_due_witness:
  "set (fst (due_at 125000 (wheel_run 120 30 [Touch 1 0, ArmLifetime 1 125000, Touch 2 10000]))) =
     {DuePing 1, Close4202 1}"
proof -
  let ?ops = "[Touch 1 0, ArmLifetime 1 125000, Touch 2 10000]"
  have A: "armed_run 120 30 ?ops = [(1, LivenessClass) \<mapsto> arm 120000 Idle, (1, LifetimeClass) \<mapsto> arm 125000 Lifetime,
      (2, LivenessClass) \<mapsto> arm 130000 Idle]"
    by (simp add: armed_run_def sat_add_def)
  have "{due_event (Slot c k) | c k d. d \<le> 125000 \<and>
        armed_run 120 30 ?ops (c, class_of k) = Some \<lparr>ar_deadline = d, ar_kind = k, ar_pending = True\<rparr>} =
      {DuePing 1, Close4202 1}" (is "?l = ?r")
  proof (intro set_eqI iffI)
    fix e assume "e \<in> ?l"
    then obtain c k d where "e = due_event (Slot c k)" "d \<le> 125000"
      "armed_run 120 30 ?ops (c, class_of k) = Some \<lparr>ar_deadline = d, ar_kind = k, ar_pending = True\<rparr>" by blast
    then show "e \<in> ?r" unfolding A by (cases k) (auto split: if_splits)
  next
    fix e assume "e \<in> ?r"
    then show "e \<in> ?l" unfolding A
      by (elim insertE emptyE)
        (rule CollectI, rule exI [of _ 1], rule exI [of _ Idle], simp,
         rule CollectI, rule exI [of _ 1], rule exI [of _ Lifetime], simp)
  qed
  with wheel_reports_exactly_due [of 125000 120 30 ?ops, OF prod.collapse [symmetric]] show ?thesis by simp
qed

lemma due_iff:
  assumes "due_at now (wheel_run a p ops) = (out, w')" and "now \<noteq> - 1"
  shows "due_event (Slot c k) \<in> set out \<longleftrightarrow>
    (\<exists>d \<le> now. armed_run a p ops (c, class_of k) = Some \<lparr>ar_deadline = d, ar_kind = k, ar_pending = True\<rparr>)"
proof -
  have "set out = {due_event s | d s. (d, s) \<in> slots_of (armed_run a p ops) \<and> d \<le> now}"
    using due_at_rel [OF run_armed assms(2,1)] by blast
  then show ?thesis by (auto simp: due_event_inj slots_of_def)
qed

text \<open>
  Inbound activity moves only the liveness deadline: after a \<open>touch\<close> the pending close for
  a missing pong is gone and the next ping is due exactly one activity timeout later (the sum
  saturates at the end of the clock), while the lifetime and handshake deadlines of every
  connection fire exactly as they would have without it.
\<close>

lemma touch_moves_only_liveness:
  assumes "due_at now (wheel_run a p ops) = (out, w1)"
    and "due_at now (wheel_run a p (ops @ [Touch c t])) = (out', w2)" and "now \<noteq> - 1"
  shows "Close4201 c \<notin> set out'
    \<and> (DuePing c \<in> set out' \<longleftrightarrow> min (2 ^ 64 - 1) (unat t + unat (ucast a * 1000 :: u64)) \<le> unat now)
    \<and> (Close4202 x \<in> set out' \<longleftrightarrow> Close4202 x \<in> set out)
    \<and> (HandshakeTimeout x \<in> set out' \<longleftrightarrow> HandshakeTimeout x \<in> set out)"
proof -
  have A: "armed_run a p (ops @ [Touch c t]) =
      (armed_run a p ops)((c, LivenessClass) \<mapsto> arm (sat_add t (ucast a * 1000)) Idle)"
    by (simp add: armed_run_def)
  note old = due_iff [OF assms(1,3)] and new = due_iff [OF assms(2,3), unfolded A]
  show ?thesis
    using new [of c PongWait] new [of c Idle] new [of x Lifetime] old [of x Lifetime]
      new [of x Handshake] old [of x Handshake]
    by (auto simp: word_le_nat_alt unat_sat_add)
qed

text \<open>
  The timeline never bloats: whatever was scheduled, rescheduled and fired, a connection
  holds at most one slot per class of deadline, hence at most three, and after its removal it
  holds none and can report nothing.
\<close>

lemma timeline_bounded:
  "length (filter (\<lambda>(d, s). slot_conn s = c) (flat (tw_timeline (wheel_run a p ops)))) \<le> 3
    \<and> filter (\<lambda>(d, s). slot_conn s = c) (flat (tw_timeline (wheel_run a p (ops @ [Remove c])))) = []"
proof -
  let ?mine = "\<lambda>ops. filter (\<lambda>(d, s). slot_conn s = c) (flat (tw_timeline (wheel_run a p ops)))"
  let ?A = "armed_run a p ops"
  have line: "distinct (flat (tw_timeline (wheel_run a p ops)))"
    "set (flat (tw_timeline (wheel_run a p ops))) = slots_of (armed_run a p ops)" for ops
    using run_armed [of a p ops] by (auto simp: tw_rel_def line_rel_def)
  have "set (?mine ops) \<subseteq> (\<lambda>cl. case ?A (c, cl) of Some x \<Rightarrow> (ar_deadline x, Slot c (ar_kind x))) `
      {LivenessClass, LifetimeClass, HandshakeClass}"
  proof
    fix x assume "x \<in> set (?mine ops)"
    then have m: "x \<in> slots_of ?A" "slot_conn (snd x) = c" by (auto simp: line)
    obtain d s where ds: "x = (d, s)" by fastforce
    obtain k where x: "x = (d, Slot c k)" "?A (c, class_of k) = Some (arm d k)"
      using m ds by (cases s) (auto simp: slots_of_def)
    have "class_of k \<in> {LivenessClass, LifetimeClass, HandshakeClass}" by (cases k) auto
    with x show "x \<in> (\<lambda>cl. case ?A (c, cl) of Some x \<Rightarrow> (ar_deadline x, Slot c (ar_kind x))) `
        {LivenessClass, LifetimeClass, HandshakeClass}"
      by (intro image_eqI [of _ _ "class_of k"]) auto
  qed
  then have "card (set (?mine ops)) \<le> card {LivenessClass, LifetimeClass, HandshakeClass}"
    by (meson card_image_le card_mono finite.emptyI finite.insertI finite_imageI le_trans)
  moreover have "card {LivenessClass, LifetimeClass, HandshakeClass} = 3" by simp
  moreover have "length (?mine ops) = card (set (?mine ops))"
    by (rule distinct_card [symmetric]) (simp add: line(1))
  moreover have "set (?mine (ops @ [Remove c])) = {}"
    unfolding set_filter line by (auto simp: slots_of_def armed_run_def all_classes_cleared_def)
  then have "?mine (ops @ [Remove c]) = []" by (simp only: set_empty)
  ultimately show ?thesis by (simp only: simp_thms)
qed

end
