(* ===== verification/Ws_Frame.thy ===== *)
theory Ws_Frame
  imports Prelude
begin

text \<open>
  The WebSocket frame codec, from \<^verbatim>\<open>src/transport/frame.rs\<close>: parsing of masked client frames
  out of a byte buffer, word-wise unmasking, and encoding of server frames. A machine word is
  64 bits wide (\<open>usize\<close> and \<open>u64\<close> agree), as on the targets the server is built for.
\<close>


section \<open>Opcodes and frames\<close>

datatype opcode = OpContinuation | OpText | OpBinary | OpClose | OpPing | OpPong

datatype parse_error = Incomplete | ProtocolError string | TooLarge

definition from_u8 :: "byte \<Rightarrow> parse_error + opcode" where
  "from_u8 v =
     (if v = 0x0 then Inr OpContinuation
      else if v = 0x1 then Inr OpText
      else if v = 0x2 then Inr OpBinary
      else if v = 0x8 then Inr OpClose
      else if v = 0x9 then Inr OpPing
      else if v = 0xA then Inr OpPong
      else Inl (ProtocolError ''reserved opcode''))"

fun as_u8 :: "opcode \<Rightarrow> byte" where
  "as_u8 OpContinuation = 0x0"
| "as_u8 OpText = 0x1"
| "as_u8 OpBinary = 0x2"
| "as_u8 OpClose = 0x8"
| "as_u8 OpPing = 0x9"
| "as_u8 OpPong = 0xA"

definition is_control :: "opcode \<Rightarrow> bool" where
  "is_control c = (c \<in> {OpClose, OpPing, OpPong})"

record frame =
  fr_fin :: bool
  fr_opcode :: opcode
  fr_payload :: "byte list"


section \<open>Unmasking\<close>

text \<open>\<open>u64::from_le_bytes\<close>, \<open>u64::to_le_bytes\<close> and \<open>slice::as_chunks_mut\<close>.\<close>

fun from_le :: "byte list \<Rightarrow> u64" where
  "from_le [] = 0"
| "from_le (b # bs) = ucast b OR push_bit 8 (from_le bs)"

fun to_le :: "nat \<Rightarrow> u64 \<Rightarrow> byte list" where
  "to_le 0 w = []"
| "to_le (Suc k) w = ucast w # to_le k (drop_bit 8 w)"

function as_chunks :: "nat \<Rightarrow> 'a list \<Rightarrow> 'a list list \<times> 'a list" where
  "as_chunks n xs =
     (if n = 0 \<or> length xs < n then ([], xs)
      else (let (cs, tail) = as_chunks n (drop n xs) in (take n xs # cs, tail)))"
  by pat_completeness auto
termination by (relation "measure (length \<circ> snd)") auto

declare as_chunks.simps [simp del]

definition unmask :: "byte list \<Rightarrow> byte list \<Rightarrow> byte list" where
  "unmask data key =
     (let key64 = from_le [key ! 0, key ! 1, key ! 2, key ! 3, key ! 0, key ! 1, key ! 2, key ! 3];
          (chunks, tail) = as_chunks 8 data
      in concat (map (\<lambda>chunk. to_le 8 (from_le chunk XOR key64)) chunks)
         @ map (\<lambda>(i, b). b XOR key ! (i mod 4)) (enumerate 0 tail))"


section \<open>Parsing\<close>

text \<open>
  The length field, with the number of its extension bytes. The buffer is consumed only when a
  whole frame is there, so a failed parse leaves it as it was.
\<close>

definition parse_len :: "byte list \<Rightarrow> nat \<Rightarrow> parse_error + nat \<times> nat" where
  "parse_len buf len7 =
     (let available = length buf
      in if len7 = 126 then
           (if available < 4 then Inl Incomplete else Inr (from_be [buf ! 2, buf ! 3], 2))
         else if len7 = 127 then
           (if available < 10 then Inl Incomplete
            else
              (let raw = from_be [buf ! 2, buf ! 3, buf ! 4, buf ! 5, buf ! 6, buf ! 7, buf ! 8, buf ! 9]
               in if bit raw 63 then Inl (ProtocolError ''64-bit length high bit set'')
                  else Inr (raw, 8)))
         else Inr (len7, 0))"

text \<open>Everything before the check that the whole frame is buffered.\<close>

definition parse_header :: "byte list \<Rightarrow> nat \<Rightarrow> parse_error + bool \<times> opcode \<times> nat \<times> nat" where
  "parse_header buf max_payload =
     (if length buf < 2 then Inl Incomplete
      else
        (let b0 = buf ! 0; b1 = buf ! 1; fin = (b0 AND 0x80 \<noteq> 0)
         in if b0 AND 0x70 \<noteq> 0 then Inl (ProtocolError ''reserved bits set'')
            else case from_u8 (b0 AND 0x0F) of
              Inl e \<Rightarrow> Inl e
            | Inr opcode \<Rightarrow>
              (let masked = (b1 AND 0x80 \<noteq> 0); len7 = unat (b1 AND 0x7F)
               in case parse_len buf len7 of
                    Inl e \<Rightarrow> Inl e
                  | Inr (payload_len, len_field_bytes) \<Rightarrow>
                    if is_control opcode \<and> \<not> fin then Inl (ProtocolError ''fragmented control frame'')
                    else if is_control opcode \<and> 125 < payload_len
                    then Inl (ProtocolError ''control frame payload > 125'')
                    else if \<not> masked then Inl (ProtocolError ''unmasked client frame'')
                    else if max_payload < payload_len then Inl TooLarge
                    else Inr (fin, opcode, payload_len, len_field_bytes))))"

definition parse :: "byte list \<Rightarrow> nat \<Rightarrow> parse_error + frame \<times> byte list" where
  "parse buf max_payload =
     (case parse_header buf max_payload of
        Inl e \<Rightarrow> Inl e
      | Inr (fin, opcode, payload_len, len_field_bytes) \<Rightarrow>
        (let header_len = 2 + len_field_bytes + 4;
             total = header_len + payload_len
         in if 2 ^ 64 \<le> total then Inl TooLarge
            else if length buf < total then Inl Incomplete
            else
              (let key = take 4 (drop (2 + len_field_bytes) buf);
                   payload = drop header_len (take total buf)
               in Inr (\<lparr>fr_fin = fin, fr_opcode = opcode, fr_payload = unmask payload key\<rparr>,
                       drop total buf))))"


section \<open>Encoding\<close>

definition encode :: "byte list \<Rightarrow> bool \<Rightarrow> opcode \<Rightarrow> byte list \<Rightarrow> byte list" where
  "encode out fin opcode payload =
     (let b0 = (if fin then 0x80 else 0x00) OR as_u8 opcode;
          len = length payload
      in out @ [b0]
         @ (if len \<le> 125 then [word_of_nat len]
            else if len \<le> 2 ^ 16 - 1 then 126 # to_be 2 len
            else 127 # to_be 8 len)
         @ payload)"

definition encode_text :: "byte list \<Rightarrow> byte list \<Rightarrow> byte list" where
  "encode_text out payload = encode out True OpText payload"


section \<open>Unmasking is byte-wise\<close>

text \<open>The transformation of RFC 6455, section 5.3.\<close>

definition mask_bytes :: "byte list \<Rightarrow> byte list \<Rightarrow> byte list" where
  "mask_bytes key data = map (\<lambda>(i, b). b XOR key ! (i mod 4)) (enumerate 0 data)"

lemma length_to_le [simp]: "length (to_le k w) = k"
  by (induction k arbitrary: w) auto

lemma bit_from_le:
  "bit (from_le bs) n \<longleftrightarrow> n < 64 \<and> n div 8 < length bs \<and> bit (bs ! (n div 8)) (n mod 8)"
proof (induction bs arbitrary: n)
  case Nil
  then show ?case by simp
next
  case (Cons b bs)
  show ?case
  proof (cases "n < 8")
    case True
    then show ?thesis by (auto simp: bit_simps)
  next
    case False
    then obtain m where n: "n = m + 8" by (metis add.commute le_add_diff_inverse not_less)
    have "bit (ucast b :: u64) n \<longleftrightarrow> False"
      using False by (auto simp: bit_simps dest: bit_imp_le_length)
    moreover have "(m + 8) div 8 = Suc (m div 8)" by simp
    ultimately show ?thesis using Cons [of m] by (auto simp: n bit_simps)
  qed
qed

lemma bit_to_le: "i < k \<Longrightarrow> bit (to_le k w ! i) j \<longleftrightarrow> j < 8 \<and> bit w (8 * i + j)"
proof (induction k arbitrary: i w)
  case (Suc k)
  then show ?case by (cases i) (auto simp: bit_simps algebra_simps)
qed simp

lemma to_le_xor:
  assumes "length as = 8" and "length bs = 8"
  shows "to_le 8 (from_le as XOR from_le bs) = map2 (XOR) as bs"
proof (rule nth_equalityI)
  fix i assume "i < length (to_le 8 (from_le as XOR from_le bs))"
  then have i: "i < 8" by simp
  show "to_le 8 (from_le as XOR from_le bs) ! i = map2 (XOR) as bs ! i"
  proof (rule bit_eqI)
    fix j
    assume "possible_bit TYPE(byte) j"
    then have j: "j < 8" by (simp add: possible_bit_def)
    with i have "8 * i + j < 64" "(8 * i + j) div 8 = i" "(8 * i + j) mod 8 = j" by auto
    then show "bit (to_le 8 (from_le as XOR from_le bs) ! i) j = bit (map2 (XOR) as bs ! i) j"
      using assms i j by (simp add: bit_to_le bit_xor_iff bit_from_le)
  qed
qed (simp add: assms)

lemma mask_bytes_nth: "i < length data \<Longrightarrow> mask_bytes key data ! i = data ! i XOR key ! (i mod 4)"
  by (simp add: mask_bytes_def nth_enumerate_eq)

lemma length_mask_bytes [simp]: "length (mask_bytes key data) = length data"
  by (simp add: mask_bytes_def)

lemma mask_bytes_involutive: "mask_bytes key (mask_bytes key data) = data"
  by (rule nth_equalityI) (simp_all add: mask_bytes_nth xor.assoc)

lemma mask_bytes_append:
  "length a mod 4 = 0 \<Longrightarrow> mask_bytes key (a @ b) = mask_bytes key a @ mask_bytes key b"
proof (rule nth_equalityI)
  fix i
  assume a: "length a mod 4 = 0" and i: "i < length (mask_bytes key (a @ b))"
  from a have "i mod 4 = (i - length a) mod 4" if "length a \<le> i"
    using that by (metis add.left_neutral le_add_diff_inverse mod_add_left_eq)
  with i show "mask_bytes key (a @ b) ! i = (mask_bytes key a @ mask_bytes key b) ! i"
    by (auto simp: mask_bytes_nth nth_append)
qed simp

definition key8 :: "byte list \<Rightarrow> byte list" where
  "key8 key = [key ! 0, key ! 1, key ! 2, key ! 3, key ! 0, key ! 1, key ! 2, key ! 3]"

lemma key8_nth:
  assumes "i < 8"
  shows "key8 key ! i = key ! (i mod 4)"
proof -
  from assms have "i = 0 \<or> i = 1 \<or> i = 2 \<or> i = 3 \<or> i = 4 \<or> i = 5 \<or> i = 6 \<or> i = 7" by linarith
  then show ?thesis by (elim disjE) (simp_all add: key8_def)
qed

lemma mask_bytes_chunk:
  assumes "length chunk = 8"
  shows "to_le 8 (from_le chunk XOR from_le (key8 key)) = mask_bytes key chunk"
proof -
  have k: "length (key8 key) = 8" by (simp add: key8_def)
  show ?thesis
    unfolding to_le_xor [OF assms k]
    by (rule nth_equalityI) (simp_all add: mask_bytes_nth assms k key8_nth)
qed

lemma as_chunks_correct:
  "0 < n \<Longrightarrow> as_chunks n xs = (cs, tail) \<Longrightarrow>
     concat cs @ tail = xs \<and> (\<forall>c \<in> set cs. length c = n) \<and> length tail < n"
proof (induction n xs arbitrary: cs tail rule: as_chunks.induct)
  case (1 n xs)
  show ?case
  proof (cases "length xs < n")
    case True
    with 1 show ?thesis by (simp add: as_chunks.simps [of n xs])
  next
    case False
    with "1.prems" have n: "\<not> (n = 0 \<or> length xs < n)" by simp
    obtain cs' t' where r: "as_chunks n (drop n xs) = (cs', t')" by fastforce
    with "1.prems"(2) n have cs: "cs = take n xs # cs'" "tail = t'"
      by (simp_all add: as_chunks.simps [of n xs])
    from "1.IH" [OF n "1.prems"(1) r] have IH: "concat cs' @ t' = drop n xs"
      "\<forall>c \<in> set cs'. length c = n" "length t' < n" by simp_all
    have "concat cs @ tail = take n xs @ drop n xs" by (simp only: cs concat.simps append_assoc IH(1))
    with IH n show ?thesis by (simp add: cs)
  qed
qed

lemma mask_bytes_concat:
  "(\<forall>c \<in> set cs. length c = 8) \<Longrightarrow>
     mask_bytes key (concat cs @ tail) = concat (map (mask_bytes key) cs) @ mask_bytes key tail"
  by (induction cs) (simp_all add: mask_bytes_append)

lemma unmask_bytewise: "unmask data key = mask_bytes key data"
proof -
  obtain cs tail where c: "as_chunks 8 data = (cs, tail)" by fastforce
  then have d: "concat cs @ tail = data" "\<forall>c \<in> set cs. length c = 8"
    using as_chunks_correct [of 8 data cs tail] by simp_all
  have "map (\<lambda>chunk. to_le 8 (from_le chunk XOR from_le (key8 key))) cs = map (mask_bytes key) cs"
    by (rule map_cong [OF refl], rule mask_bytes_chunk) (use d(2) in blast)
  with c mask_bytes_concat [OF d(2), of key tail] d(1) show ?thesis
    unfolding unmask_def key8_def [symmetric] by (simp only: Let_def prod.case mask_bytes_def)
qed

text \<open>
  C34. The word-at-a-time unmasking of a payload of any length equals the byte-wise
  transformation of RFC 6455, and applying it twice gives the payload back.
\<close>

theorem unmask_is_rfc_mask:
  "unmask data key = map (\<lambda>(i, b). b XOR key ! (i mod 4)) (enumerate 0 data)
    \<and> unmask (unmask data key) key = data"
  using unmask_bytewise mask_bytes_involutive by (simp add: mask_bytes_def)


section \<open>Parsing a stream\<close>

lemma parse_len_append:
  "parse_len buf n \<noteq> Inl Incomplete \<Longrightarrow> parse_len (buf @ later) n = parse_len buf n"
  by (auto simp: parse_len_def Let_def nth_append split: if_splits)

lemma parse_header_append:
  assumes "parse_header buf limit \<noteq> Inl Incomplete"
  shows "parse_header (buf @ later) limit = parse_header buf limit"
proof -
  have len: "\<not> length buf < 2" "\<not> length (buf @ later) < 2"
    using assms by (auto simp: parse_header_def split: if_splits)
  then have nth: "(buf @ later) ! 0 = buf ! 0" "(buf @ later) ! 1 = buf ! 1"
    by (auto simp: nth_append)
  note defs = parse_header_def Let_def nth len if_False
  show ?thesis
  proof (cases "buf ! 0 AND 0x70 \<noteq> 0")
    case True
    then show ?thesis by (simp only: defs if_True not_False_eq_True)
  next
    case False
    show ?thesis
    proof (cases "from_u8 (buf ! 0 AND 0x0F)")
      case (Inl e)
      with False show ?thesis by (simp only: defs sum.case)
    next
      case (Inr opcode)
      have "parse_len buf (unat (buf ! 1 AND 0x7F)) \<noteq> Inl Incomplete"
        using assms False Inr by (auto simp only: defs sum.case)
      from parse_len_append [OF this, of later] False Inr show ?thesis
        by (simp only: defs sum.case)
    qed
  qed
qed

lemma parse_append:
  assumes "parse buf limit \<noteq> Inl Incomplete"
  shows "parse (buf @ later) limit = map_sum id (\<lambda>(f, rest). (f, rest @ later)) (parse buf limit)"
proof -
  have "parse_header buf limit \<noteq> Inl Incomplete" using assms by (auto simp: parse_def)
  from parse_header_append [OF this, of later] assms show ?thesis
    by (cases "parse_header buf limit") (auto simp: parse_def Let_def split: if_splits)
qed

lemma unat_and_7F: "unat (b AND 0x7F) = unat b mod 128" for b :: byte
proof -
  have "b AND 0x7F = take_bit 7 b" using take_bit_eq_mask [of 7 b] by (simp add: mask_eq_exp_minus_1)
  then have "unat (b AND 0x7F) = take_bit 7 (unat b)" by (simp only: unsigned_take_bit_eq)
  then show ?thesis by (simp add: take_bit_eq_mod)
qed

lemma len7_less: "unat (b AND 0x7F) < 128" for b :: byte
  by (simp only: unat_and_7F mod_less_divisor zero_less_numeral)

lemma less_exp_63:
  assumes "n < 2 ^ 64" and "\<not> bit n 63"
  shows "n < (2 :: nat) ^ 63"
proof -
  have "n div 2 ^ 63 < 2" using assms(1) by (simp add: less_mult_imp_div_less)
  moreover have "even (n div 2 ^ 63)" using assms(2) by (simp add: bit_iff_odd)
  moreover have "x < 2 \<Longrightarrow> even x \<Longrightarrow> x = 0" for x :: nat by presburger
  ultimately have "n div 2 ^ 63 = 0" by blast
  then show ?thesis by (simp add: div_eq_0_iff)
qed

lemma parse_len_bounds:
  assumes "parse_len buf m = Inr (n, k)" and "m < 128"
  shows "k \<in> {0, 2, 8} \<and> n < 2 ^ 63"
proof -
  consider "m = 126" | "m = 127" | "m < 126" using assms(2) by linarith
  then show ?thesis
  proof cases
    case 1
    have "from_be [buf ! 2, buf ! 3] < 256 ^ 2"
      using from_be_less [of "[buf ! 2, buf ! 3]"] by (simp only: list.size) simp
    with 1 assms(1) show ?thesis by (auto simp: parse_len_def Let_def split: if_splits)
  next
    case 2
    let ?raw = "from_be [buf ! 2, buf ! 3, buf ! 4, buf ! 5, buf ! 6, buf ! 7, buf ! 8, buf ! 9]"
    have n: "n = ?raw" "k = 8" "\<not> bit ?raw 63"
      using 2 assms(1) by (simp_all add: parse_len_def Let_def split: if_splits)
    have "?raw < 256 ^ 8"
      using from_be_less [of "[buf ! 2, buf ! 3, buf ! 4, buf ! 5, buf ! 6, buf ! 7, buf ! 8, buf ! 9]"]
      by (simp only: list.size) simp
    then have "?raw < 2 ^ 64" by simp
    from less_exp_63 [OF this n(3)] show ?thesis by (simp only: n) simp
  next
    case 3
    with assms(1) show ?thesis by (simp add: parse_len_def)
  qed
qed

lemma parse_header_bounds:
  assumes "parse_header buf limit = Inr (fin, opcode, n, k)"
  shows "n \<le> limit \<and> (is_control opcode \<longrightarrow> fin \<and> n \<le> 125) \<and> k \<in> {0, 2, 8} \<and> n < 2 ^ 63"
proof -
  from assms have len: "parse_len buf (unat (buf ! 1 AND 0x7F)) = Inr (n, k)"
    and rest: "n \<le> limit \<and> (is_control opcode \<longrightarrow> fin \<and> n \<le> 125)"
    by (auto simp: parse_header_def Let_def split: if_splits sum.splits)
  from parse_len_bounds [OF len len7_less] rest show ?thesis by blast
qed

lemma parse_consumes:
  assumes r: "parse buf limit = Inr (f, rest)"
  shows "length rest < length buf \<and> (\<exists>used. buf = used @ rest) \<and> length (fr_payload f) \<le> limit
    \<and> (is_control (fr_opcode f) \<longrightarrow> fr_fin f \<and> length (fr_payload f) \<le> 125)"
proof -
  obtain fin opc n k where h: "parse_header buf limit = Inr (fin, opc, n, k)"
    using r by (cases "parse_header buf limit") (auto simp: parse_def)
  define total where "total = 2 + k + 4 + n"
  have tot: "total \<le> length buf" "0 < total" and rest: "rest = drop total buf"
    and f: "fr_fin f = fin" "fr_opcode f = opc" "length (fr_payload f) = n"
    using r h by (auto simp: parse_def Let_def total_def unmask_bytewise split: if_splits)
  have "buf = take total buf @ rest" by (simp add: rest)
  moreover have "length rest < length buf" using tot by (simp add: rest)
  ultimately show ?thesis using parse_header_bounds [OF h] f by blast
qed


section \<open>Client frames\<close>

text \<open>A client's encoding of a frame, with any of the three length forms that fits.\<close>

datatype len_form = Len7 | Len16 | Len64

fun len_fits :: "len_form \<Rightarrow> nat \<Rightarrow> bool" where
  "len_fits Len7 n = (n \<le> 125)"
| "len_fits Len16 n = (n < 2 ^ 16)"
| "len_fits Len64 n = (n < 2 ^ 63)"

fun len_bytes :: "len_form \<Rightarrow> nat \<Rightarrow> byte list" where
  "len_bytes Len7 n = [word_of_nat (128 + n)]"
| "len_bytes Len16 n = word_of_nat (128 + 126) # to_be 2 n"
| "len_bytes Len64 n = word_of_nat (128 + 127) # to_be 8 n"

definition client_encode :: "len_form \<Rightarrow> bool \<Rightarrow> opcode \<Rightarrow> byte list \<Rightarrow> byte list \<Rightarrow> byte list" where
  "client_encode form fin opcode key payload =
     [(if fin then 0x80 else 0x00) OR as_u8 opcode] @ len_bytes form (length payload) @ key
     @ mask_bytes key payload"

lemma first_byte:
  assumes "b0 = (if fin then 0x80 else 0x00) OR as_u8 opcode"
  shows "(b0 AND 0x80 \<noteq> 0) = fin" and "b0 AND 0x70 = 0" and "from_u8 (b0 AND 0x0F) = Inr opcode"
  unfolding assms by (cases fin; cases opcode; simp add: from_u8_def)+

lemma second_byte:
  assumes "n < 128" and b: "b1 = (word_of_nat (128 + n) :: byte)"
  shows "unat (b1 AND 0x7F) = n" and "b1 AND 0x80 \<noteq> 0"
proof -
  have u: "unat b1 = 128 + n" unfolding b unat_of_nat using assms(1) by simp
  show "unat (b1 AND 0x7F) = n" unfolding unat_and_7F u using assms(1) by simp
  have "(128 + n) div 2 ^ 7 = 1" using assms(1) by simp
  then have "bit (unat b1) 7" unfolding u bit_iff_odd by simp
  then have "bit b1 7" by (simp add: bit_unsigned_iff)
  then have "bit (b1 AND 0x80) 7" by (simp add: bit_and_iff bit_numeral_rec)
  then show "b1 AND 0x80 \<noteq> 0" by auto
qed

lemma nth_2_4: "4 \<le> length buf \<Longrightarrow> [buf ! 2, buf ! 3] = take 2 (drop 2 buf)"
proof (rule nth_equalityI)
  fix i assume "4 \<le> length buf" "i < length [buf ! 2, buf ! 3]"
  moreover from this have "i = 0 \<or> i = 1" by auto
  ultimately show "[buf ! 2, buf ! 3] ! i = take 2 (drop 2 buf) ! i" by (elim disjE) simp_all
qed simp

lemma nth_2_10:
  "10 \<le> length buf \<Longrightarrow>
     [buf ! 2, buf ! 3, buf ! 4, buf ! 5, buf ! 6, buf ! 7, buf ! 8, buf ! 9] = take 8 (drop 2 buf)"
    (is "_ \<Longrightarrow> ?l = _")
proof (rule nth_equalityI)
  fix i assume "10 \<le> length buf" "i < length ?l"
  moreover from this have "i = 0 \<or> i = 1 \<or> i = 2 \<or> i = 3 \<or> i = 4 \<or> i = 5 \<or> i = 6 \<or> i = 7" by auto
  ultimately show "?l ! i = take 8 (drop 2 buf) ! i" by (elim disjE) simp_all
qed simp

lemma from_be_to_be: "n < 2 ^ 16 \<Longrightarrow> from_be (to_be 2 n) = n" "n < 2 ^ 63 \<Longrightarrow> from_be (to_be 8 n) = n"
  by (simp_all add: from_to_be)

definition len_ext :: "len_form \<Rightarrow> nat" where
  "len_ext form = (case form of Len7 \<Rightarrow> 0 | Len16 \<Rightarrow> 2 | Len64 \<Rightarrow> 8)"

lemma length_len_bytes: "length (len_bytes form n) = Suc (len_ext form)"
  by (cases form) (simp_all add: len_ext_def)

lemma parse_len_bytes:
  assumes "len_fits form n" and buf: "buf = b0 # len_bytes form n @ rest"
  shows "parse_len buf (unat (buf ! 1 AND 0x7F)) = Inr (n, len_ext form)" and "buf ! 1 AND 0x80 \<noteq> 0"
proof (atomize (full), cases form)
  case Len7
  then have "buf ! 1 = word_of_nat (128 + n)" using buf by simp
  from second_byte [OF _ this] Len7 assms(1) show "parse_len buf (unat (buf ! 1 AND 0x7F)) = Inr (n, len_ext form) \<and>
      buf ! 1 AND 0x80 \<noteq> 0"
    by (simp add: parse_len_def len_ext_def)
next
  case Len16
  then have b: "buf = b0 # word_of_nat (128 + 126) # to_be 2 n @ rest" using buf by simp
  then have b1: "buf ! 1 = word_of_nat (128 + 126)" by simp
  from b have len: "4 \<le> length buf" by simp
  have be: "[buf ! 2, buf ! 3] = to_be 2 n"
    using nth_2_4 [of buf] by (simp add: b)
  show "parse_len buf (unat (buf ! 1 AND 0x7F)) = Inr (n, len_ext form) \<and> buf ! 1 AND 0x80 \<noteq> 0"
    using second_byte [OF _ b1] from_be_to_be(1) [of n] Len16 assms(1) len
    by (simp add: parse_len_def len_ext_def be)
next
  case Len64
  then have b: "buf = b0 # word_of_nat (128 + 127) # to_be 8 n @ rest" using buf by simp
  then have b1: "buf ! 1 = word_of_nat (128 + 127)" by simp
  from b have len: "10 \<le> length buf" by simp
  have be: "[buf ! 2, buf ! 3, buf ! 4, buf ! 5, buf ! 6, buf ! 7, buf ! 8, buf ! 9] = to_be 8 n"
    using nth_2_10 [of buf] by (simp add: b)
  have "\<not> bit n 63" using assms(1) Len64 by (simp add: bit_iff_odd)
  then show "parse_len buf (unat (buf ! 1 AND 0x7F)) = Inr (n, len_ext form) \<and> buf ! 1 AND 0x80 \<noteq> 0"
    using second_byte [OF _ b1] from_be_to_be(2) [of n] Len64 assms(1) len
    by (simp add: parse_len_def len_ext_def be)
qed

lemma parse_client_encode:
  assumes fits: "len_fits form (length payload)" and key: "length key = 4"
    and limit: "length payload \<le> limit"
    and ctl: "is_control opcode \<Longrightarrow> fin \<and> length payload \<le> 125"
  shows "parse (client_encode form fin opcode key payload @ rest) limit =
    Inr (\<lparr>fr_fin = fin, fr_opcode = opcode, fr_payload = payload\<rparr>, rest)"
proof -
  let ?b0 = "(if fin then 0x80 else 0x00) OR as_u8 opcode :: byte" and ?n = "length payload"
  let ?tail = "key @ mask_bytes key payload @ rest"
  define buf where "buf = ?b0 # len_bytes form ?n @ ?tail"
  note len = parse_len_bytes [OF fits buf_def]
  have b0: "buf ! 0 = ?b0" and ge: "\<not> length buf < 2"
    by (simp_all add: buf_def length_len_bytes)
  have hdr: "parse_header buf limit = Inr (fin, opcode, ?n, len_ext form)"
    using first_byte [OF b0] len ge limit ctl
    by (auto simp: parse_header_def Let_def)
  have drop1: "drop (2 + len_ext form) buf = ?tail"
    by (simp add: buf_def length_len_bytes)
  then have key': "take 4 (drop (2 + len_ext form) buf) = key" by (simp add: key)
  have "drop (2 + len_ext form + 4) buf = mask_bytes key payload @ rest"
    using arg_cong [OF drop1, of "drop 4"] by (simp add: key add.commute)
  then have pl: "drop (2 + len_ext form + 4) (take (2 + len_ext form + 4 + ?n) buf) = mask_bytes key payload"
    and rest: "drop (2 + len_ext form + 4 + ?n) buf = rest"
    by (simp_all add: drop_take) (metis add.commute append_eq_conv_conj drop_drop length_mask_bytes)
  have "?n < 2 ^ 63" using fits by (cases form) simp_all
  then have "\<not> 2 ^ 64 \<le> 2 + len_ext form + 4 + ?n" by (cases form) (simp_all add: len_ext_def)
  moreover have "\<not> length buf < 2 + len_ext form + 4 + ?n"
    by (simp add: buf_def length_len_bytes key)
  ultimately have "parse buf limit =
      Inr (\<lparr>fr_fin = fin, fr_opcode = opcode, fr_payload = unmask (mask_bytes key payload) key\<rparr>, rest)"
    by (simp only: parse_def hdr sum.case prod.case Let_def key' pl rest if_False)
  then show ?thesis by (simp add: unmask_bytewise mask_bytes_involutive client_encode_def buf_def)
qed


section \<open>Properties of the codec\<close>

text \<open>
  C33. Every frame a client can send is parsed back: for any key, any length form that fits and
  any bytes that follow, the parser returns the frame with its original payload and leaves
  exactly what follows; and as long as a byte of the frame is missing, it asks for more.
\<close>

theorem parse_inverts_client_encode:
  assumes "len_fits form (length payload)" and "length key = 4" and "length payload \<le> limit"
    and "is_control opcode \<longrightarrow> fin \<and> length payload \<le> 125"
    and "bytes = client_encode form fin opcode key payload"
  shows "parse (bytes @ rest) limit =
      Inr (\<lparr>fr_fin = fin, fr_opcode = opcode, fr_payload = payload\<rparr>, rest)
    \<and> (n < length bytes \<longrightarrow> parse (take n bytes) limit = Inl Incomplete)"
proof -
  let ?f = "\<lparr>fr_fin = fin, fr_opcode = opcode, fr_payload = payload\<rparr>"
  have all: "parse (bytes @ r) limit = Inr (?f, r)" for r
    using parse_client_encode assms by blast
  have "parse (take n bytes) limit = Inl Incomplete" if n: "n < length bytes"
  proof (rule ccontr)
    assume "parse (take n bytes) limit \<noteq> Inl Incomplete"
    from parse_append [OF this, of "drop n bytes"] all [of "[]"]
    have "map_sum id (\<lambda>(f, r). (f, r @ drop n bytes)) (parse (take n bytes) limit) = Inr (?f, [])"
      by simp
    then have "drop n bytes = []" by (cases "parse (take n bytes) limit") auto
    with n show False by simp
  qed
  with all show ?thesis by blast
qed

theorem parse_inverts_client_encode_witness:
  "parse ([0x81, 0x82, 1, 2, 3, 4, 0x49, 0x6B] @ [7]) 10 =
      Inr (\<lparr>fr_fin = True, fr_opcode = OpText, fr_payload = [0x48, 0x69]\<rparr>, [7])
    \<and> parse (take 5 [0x81, 0x82, 1, 2, 3, 4, 0x49, 0x6B]) 10 = Inl Incomplete"
proof -
  have eq: "[0x81, 0x82, 1, 2, 3, 4, 0x49, 0x6B] = client_encode Len7 True OpText [1, 2, 3, 4] [0x48, 0x69]"
    by (simp add: client_encode_def mask_bytes_def)
  show ?thesis
    using parse_inverts_client_encode [OF _ _ _ _ eq, of 10 "[7]" 5]
    by (simp add: is_control_def)
qed

text \<open>
  C35. Parsing does not depend on how the stream is cut into reads: once the parser has an
  answer for a buffer, be it a frame or an error, more bytes behind it change nothing but the
  rest. A parsed frame is consumed, keeps within the payload limit, and a control frame is
  final and at most 125 bytes long.
\<close>

theorem parse_stable_and_bounded:
  assumes "parse buf limit = r" and "r \<noteq> Inl Incomplete"
  shows "parse (buf @ later) limit = (case r of Inl e \<Rightarrow> Inl e | Inr (f, rest) \<Rightarrow> Inr (f, rest @ later))
    \<and> (\<forall>f rest. r = Inr (f, rest) \<longrightarrow>
         length rest < length buf \<and> (\<exists>used. buf = used @ rest) \<and> length (fr_payload f) \<le> limit
         \<and> (is_control (fr_opcode f) \<longrightarrow> fr_fin f \<and> length (fr_payload f) \<le> 125))"
  using parse_append [of buf limit later] parse_consumes [of buf limit] assms by (cases r) auto

theorem parse_stable_and_bounded_witness:
  "parse ([0x91, 0x80] @ [1, 2]) 10 = Inl (ProtocolError ''reserved bits set'')"
proof -
  have "parse [0x91, 0x80] 10 = Inl (ProtocolError ''reserved bits set'')"
    by (simp add: parse_def parse_header_def Let_def)
  from parse_stable_and_bounded [OF this, of "[1, 2]"] show ?thesis by simp
qed

text \<open>The reading of an unmasked server frame on the client's side.\<close>

definition server_len :: "byte list \<Rightarrow> (nat \<times> byte list) option" where
  "server_len bs =
     (case bs of
        [] \<Rightarrow> None
      | b # r \<Rightarrow>
        if unat b \<le> 125 then Some (unat b, r)
        else if b = 126 \<and> 2 \<le> length r then Some (from_be (take 2 r), drop 2 r)
        else if b = 127 \<and> 8 \<le> length r then Some (from_be (take 8 r), drop 8 r)
        else None)"

definition server_decode :: "byte list \<Rightarrow> (frame \<times> byte list) option" where
  "server_decode bs =
     (case bs of
        [] \<Rightarrow> None
      | b0 # bs' \<Rightarrow>
        (case (from_u8 (b0 AND 0x0F), server_len bs') of
           (Inr opcode, Some (n, r)) \<Rightarrow>
             if n \<le> length r
             then Some (\<lparr>fr_fin = (b0 AND 0x80 \<noteq> 0), fr_opcode = opcode, fr_payload = take n r\<rparr>, drop n r)
             else None
         | _ \<Rightarrow> None))"

lemma server_len_encode:
  assumes "n < 2 ^ 64"
  shows "server_len ((if n \<le> 125 then [word_of_nat n] else if n \<le> 2 ^ 16 - 1 then 126 # to_be 2 n
      else 127 # to_be 8 n) @ r) = Some (n, r)"
proof -
  consider "n \<le> 125" | "125 < n" "n \<le> 2 ^ 16 - 1" | "2 ^ 16 - 1 < n" by linarith
  then show ?thesis
  proof cases
    case 1
    then have "unat (word_of_nat n :: byte) = n" unfolding unat_of_nat by simp
    with 1 show ?thesis by (simp add: server_len_def)
  next
    case 2
    then have "n < 2 ^ 16" by simp
    with 2 from_be_to_be(1) [of n] show ?thesis by (simp add: server_len_def)
  next
    case 3
    have "from_be (to_be 8 n) = n" using assms by (simp add: from_to_be)
    with 3 show ?thesis by (simp add: server_len_def)
  qed
qed

text \<open>
  Server frames decode to what was encoded, for every payload length up to the 64-bit
  limit, and they are appended to the output buffer without touching what it holds.
\<close>

lemma server_frame_roundtrip:
  assumes "length payload < 2 ^ 64"
  shows "\<exists>bytes. encode out fin opcode payload = out @ bytes
    \<and> server_decode (bytes @ rest) = Some (\<lparr>fr_fin = fin, fr_opcode = opcode, fr_payload = payload\<rparr>, rest)"
proof -
  let ?b0 = "(if fin then 0x80 else 0x00) OR as_u8 opcode :: byte"
  let ?len = "if length payload \<le> 125 then [word_of_nat (length payload)]
    else if length payload \<le> 2 ^ 16 - 1 then 126 # to_be 2 (length payload) else 127 # to_be 8 (length payload)"
  have "server_len (?len @ payload @ rest) = Some (length payload, payload @ rest)"
    using assms by (rule server_len_encode)
  with first_byte [OF refl, of fin opcode]
  have "server_decode (?b0 # ?len @ payload @ rest) =
      Some (\<lparr>fr_fin = fin, fr_opcode = opcode, fr_payload = payload\<rparr>, rest)"
    by (simp only: server_decode_def list.case prod.case sum.case option.case) simp
  then show ?thesis
    by (intro exI [of _ "?b0 # ?len @ payload"]) (simp add: encode_def)
qed

end
