(* ===== verification/Connection.thy ===== *)
theory Connection
  imports Ws_Frame "HOL-Library.Sublist"
begin

text \<open>
  One connection of a worker, from \<^verbatim>\<open>src/transport/conn.rs\<close>: the bounded outbound queue with
  drop-head eviction and the controlled-delay (CoDel) overlay, the coalescing flush over a
  plain or an encrypted socket, the draining of inbound frames, and the byte accounting that
  the worker folds into its totals. The answers of the operating system and of the TLS
  library are scripts: lists of the results of successive calls.
\<close>


section \<open>State\<close>

datatype conn_state = Handshaking | Open

datatype write_status = Drained | WouldBlock | ClosedStatus

datatype conn_error = ConnClosed | ConnProtocol string

record codel_params =
  target_ns :: u64
  interval_ns :: u64

definition CODEL_DEFAULT :: codel_params where
  "CODEL_DEFAULT = \<lparr>target_ns = 5000000, interval_ns = 100000000\<rparr>"

definition CODEL_DISABLED :: codel_params where
  "CODEL_DISABLED = \<lparr>target_ns = 0, interval_ns = 100000000\<rparr>"

definition codel_enabled :: "codel_params \<Rightarrow> bool" where
  "codel_enabled p = (target_ns p \<noteq> 0)"

record codel_state =
  interval_min :: "u64 option"
  interval_end :: u64
  is_overloaded :: bool

definition codel_state_default :: codel_state where
  "codel_state_default = \<lparr>interval_min = None, interval_end = 0, is_overloaded = False\<rparr>"

type_synonym out_frame = "byte list \<times> u64"

definition WRITEV_MAX_SLICES :: nat where "WRITEV_MAX_SLICES = 1024"
definition WRITEV_MAX_BYTES :: nat where "WRITEV_MAX_BYTES = 256 * 1024"
definition TLS_BATCH_MAX_BYTES :: nat where "TLS_BATCH_MAX_BYTES = 60 * 1024"

record conn =
  c_state :: conn_state
  c_out :: "out_frame list"
  c_cursor :: nat
  c_out_bytes :: nat
  c_high_water :: nat
  c_codel :: codel_params
  c_codel_state :: codel_state
  c_codel_dropped :: u64
  c_drophead_dropped :: u64
  c_tls_unflushed :: nat
  c_writable_armed :: bool
  c_reassembly_bytes :: nat
  c_frame_buffer_bytes :: nat
  c_inflight_delta :: int
  c_outbound_delta :: int

definition conn_new :: "nat \<Rightarrow> conn" where
  "conn_new high_water =
     \<lparr>c_state = Handshaking, c_out = [], c_cursor = 0, c_out_bytes = 0, c_high_water = high_water,
      c_codel = CODEL_DISABLED, c_codel_state = codel_state_default, c_codel_dropped = 0,
      c_drophead_dropped = 0, c_tls_unflushed = 0, c_writable_armed = False,
      c_reassembly_bytes = 0, c_frame_buffer_bytes = 0, c_inflight_delta = 0, c_outbound_delta = 0\<rparr>"

definition set_codel :: "codel_params \<Rightarrow> conn \<Rightarrow> conn" where
  "set_codel p c = c\<lparr>c_codel := p\<rparr>"

definition take_codel_dropped :: "conn \<Rightarrow> u64 \<times> conn" where
  "take_codel_dropped c = (c_codel_dropped c, c\<lparr>c_codel_dropped := 0\<rparr>)"

definition take_drophead_dropped :: "conn \<Rightarrow> u64 \<times> conn" where
  "take_drophead_dropped c = (c_drophead_dropped c, c\<lparr>c_drophead_dropped := 0\<rparr>)"

definition set_writable_armed :: "bool \<Rightarrow> conn \<Rightarrow> conn" where
  "set_writable_armed armed c = c\<lparr>c_writable_armed := armed\<rparr>"

definition set_reassembly_bytes :: "nat \<Rightarrow> conn \<Rightarrow> conn" where
  "set_reassembly_bytes n c =
     c\<lparr>c_inflight_delta := c_inflight_delta c + (int n - int (c_reassembly_bytes c)), c_reassembly_bytes := n\<rparr>"

definition set_frame_buffer_bytes :: "nat \<Rightarrow> conn \<Rightarrow> conn" where
  "set_frame_buffer_bytes n c =
     c\<lparr>c_inflight_delta := c_inflight_delta c + (int n - int (c_frame_buffer_bytes c)), c_frame_buffer_bytes := n\<rparr>"

definition accounted_bytes :: "conn \<Rightarrow> nat" where
  "accounted_bytes c = c_out_bytes c + c_reassembly_bytes c + c_frame_buffer_bytes c + c_tls_unflushed c"

definition outbound_bytes :: "conn \<Rightarrow> nat" where
  "outbound_bytes c = c_out_bytes c + c_tls_unflushed c"

definition take_inflight_delta :: "conn \<Rightarrow> int \<times> conn" where
  "take_inflight_delta c = (c_inflight_delta c, c\<lparr>c_inflight_delta := 0\<rparr>)"

definition take_outbound_delta :: "conn \<Rightarrow> int \<times> conn" where
  "take_outbound_delta c = (c_outbound_delta c, c\<lparr>c_outbound_delta := 0\<rparr>)"


section \<open>The queue\<close>

text \<open>A frame of \<open>n\<close> bytes leaves the queue, sent or dropped.\<close>

definition release :: "nat \<Rightarrow> conn \<Rightarrow> conn" where
  "release n c =
     c\<lparr>c_out_bytes := c_out_bytes c - n, c_inflight_delta := c_inflight_delta c - int n,
       c_outbound_delta := c_outbound_delta c - int n\<rparr>"

function drop_head :: "nat \<Rightarrow> nat \<Rightarrow> conn \<Rightarrow> nat \<times> conn" where
  "drop_head locked flen c =
     (if c_high_water c < c_out_bytes c + flen \<and> locked < length (c_out c)
      then (let victim = fst (c_out c ! locked);
                c1 = release (length victim)
                       (c\<lparr>c_out := take locked (c_out c) @ drop (Suc locked) (c_out c),
                          c_drophead_dropped := c_drophead_dropped c + 1\<rparr>);
                (dropped, c2) = drop_head locked flen c1
            in (Suc dropped, c2))
      else (0, c))"
  by pat_completeness auto
termination by (relation "measure (\<lambda>(locked, flen, c). length (c_out c))") (auto simp: release_def)

declare drop_head.simps [simp del]

definition conn_queue :: "byte list \<Rightarrow> u64 \<Rightarrow> conn \<Rightarrow> nat \<times> conn" where
  "conn_queue frame now c =
     (let flen = length frame;
          locked = (if 0 < c_cursor c then 1 else 0);
          (dropped, c1) = drop_head locked flen c
      in (dropped,
          c1\<lparr>c_out_bytes := c_out_bytes c1 + flen, c_inflight_delta := c_inflight_delta c1 + int flen,
             c_outbound_delta := c_outbound_delta c1 + int flen, c_out := c_out c1 @ [(frame, now)]\<rparr>))"


section \<open>Controlled delay\<close>

definition note_interval :: "codel_params \<Rightarrow> u64 \<Rightarrow> u64 \<Rightarrow> codel_state \<Rightarrow> codel_state" where
  "note_interval p now sojourn s =
     (let s1 = (if interval_end s = 0 then s\<lparr>interval_end := sat_add now (interval_ns p)\<rparr> else s);
          m = (case interval_min s1 of Some m \<Rightarrow> min m sojourn | None \<Rightarrow> sojourn);
          s2 = s1\<lparr>interval_min := Some m\<rparr>
      in if interval_end s2 \<le> now
         then s2\<lparr>is_overloaded := (target_ns p < m), interval_min := Some sojourn,
                 interval_end := sat_add now (interval_ns p)\<rparr>
         else s2)"

definition age_empty :: "codel_params \<Rightarrow> u64 \<Rightarrow> codel_state \<Rightarrow> codel_state" where
  "age_empty p now s =
     (if interval_end s \<noteq> 0 \<and> interval_end s \<le> now
      then s\<lparr>is_overloaded := False, interval_min := None, interval_end := sat_add now (interval_ns p)\<rparr>
      else s)"

function codel_loop :: "bool \<Rightarrow> u64 \<Rightarrow> conn \<Rightarrow> conn" where
  "codel_loop front_locked now c =
     (case c_out c of
        [] \<Rightarrow> c\<lparr>c_codel_state := age_empty (c_codel c) now (c_codel_state c)\<rparr>
      | (victim, enqueued) # rest \<Rightarrow>
        (let sojourn = sat_sub now enqueued;
             c1 = c\<lparr>c_codel_state := note_interval (c_codel c) now sojourn (c_codel_state c)\<rparr>
         in if front_locked then c1
            else if is_overloaded (c_codel_state c1) \<and> sat_mul (target_ns (c_codel c)) 2 < sojourn
                    \<and> 1 < length (c_out c)
            then codel_loop front_locked now
                   (release (length victim) (c1\<lparr>c_out := rest, c_codel_dropped := c_codel_dropped c + 1\<rparr>))
            else c1))"
  by pat_completeness auto
termination by (relation "measure (\<lambda>(front_locked, now, c). length (c_out c))") (auto simp: release_def)

declare codel_loop.simps [simp del]

definition codel_dequeue :: "bool \<Rightarrow> u64 \<Rightarrow> conn \<Rightarrow> conn" where
  "codel_dequeue front_locked now c =
     (if \<not> codel_enabled (c_codel c) then c else codel_loop front_locked now c)"

lemma codel_loop_length: "length (c_out (codel_loop l now c)) \<le> length (c_out c)"
proof (induction l now c rule: codel_loop.induct)
  case (1 l now c)
  show ?case
  proof (cases "c_out c")
    case (Cons e rest)
    then show ?thesis
      using "1.IH" [OF Cons surjective_pairing [symmetric] refl refl]
      by (subst codel_loop.simps) (auto simp: Let_def release_def split: prod.splits)
  qed (simp add: codel_loop.simps [of l now c])
qed

lemma codel_dequeue_length: "length (c_out (codel_dequeue l now c)) \<le> length (c_out c)"
  by (simp add: codel_dequeue_def codel_loop_length)


section \<open>Flushing\<close>

text \<open>Results of the system calls, and the two sinks of a batch.\<close>

datatype io_result = Wrote nat | EWouldBlock | EInterrupted | EOther

text \<open>
  A sink takes the bytes of a batch and its script item, and returns the result, the number of
  bytes it really took over, and the new count of bytes that the TLS library holds unsent.
\<close>

type_synonym 'a sink = "'a \<Rightarrow> byte list \<Rightarrow> nat \<Rightarrow> io_result \<times> nat \<times> nat"

definition tcp_write_batch :: "io_result sink" where
  "tcp_write_batch a slices unflushed =
     (case a of Wrote n \<Rightarrow> (Wrote n, min n (length slices), unflushed) | e \<Rightarrow> (e, 0, unflushed))"

text \<open>\<open>write_tls\<close> is called while the library wants to write, that is while the list is not empty.\<close>

fun write_ciphertext :: "io_result list \<Rightarrow> io_result + bool" where
  "write_ciphertext [] = Inr True"
| "write_ciphertext (Wrote n # rs) = write_ciphertext rs"
| "write_ciphertext (EWouldBlock # rs) = Inr False"
| "write_ciphertext (e # rs) = Inl e"

record tls_replies =
  pre_drain :: "io_result list"
  writer_write :: io_result
  post_drain :: "io_result list"

definition tls_write_batch :: "tls_replies sink" where
  "tls_write_batch r slices unflushed =
     (case write_ciphertext (pre_drain r) of
        Inl e \<Rightarrow> (e, 0, unflushed)
      | Inr False \<Rightarrow> (EWouldBlock, 0, unflushed)
      | Inr True \<Rightarrow>
        (case writer_write r of
           Wrote n \<Rightarrow>
             (case write_ciphertext (post_drain r) of
                Inl e \<Rightarrow> (e, min n (length slices), n)
              | Inr True \<Rightarrow> (Wrote n, min n (length slices), 0)
              | Inr False \<Rightarrow> (Wrote n, min n (length slices), n))
         | e \<Rightarrow> (e, 0, 0)))"

text \<open>The gathering of a batch; every next frame is vetted before it can join.\<close>

function gather :: "nat \<Rightarrow> u64 \<Rightarrow> nat \<Rightarrow> out_frame list \<Rightarrow> nat \<Rightarrow> conn \<Rightarrow> out_frame list \<times> conn" where
  "gather max_bytes now start_cursor batch batch_bytes c =
     (case c_out c of
        [] \<Rightarrow> (batch, c)
      | f # rest \<Rightarrow>
        (let n = length (fst f) - (if batch = [] then start_cursor else 0)
         in if batch \<noteq> [] \<and> (WRITEV_MAX_SLICES \<le> length batch \<or> max_bytes < batch_bytes + n) then (batch, c)
            else gather max_bytes now start_cursor (batch @ [f]) (batch_bytes + n)
                   (codel_dequeue (0 < c_cursor c \<and> batch @ [f] = []) now (c\<lparr>c_out := rest\<rparr>))))"
  by pat_completeness auto
termination
proof (relation "measure (\<lambda>(max_bytes, now, start_cursor, batch, batch_bytes, c). length (c_out c))", goal_cases)
  case (2 max_bytes now start_cursor batch batch_bytes c f rest n)
  with codel_dequeue_length [of "0 < c_cursor c \<and> batch @ [f] = []" now "c\<lparr>c_out := rest\<rparr>"] show ?case
    by simp
qed simp

declare gather.simps [simp del]

text \<open>
  Applying a write of \<open>n\<close> bytes to the batch: the frames that are out leave the accounting
  with their full length; the rest of the batch is returned with the cursor in its first frame.
\<close>

fun settle :: "nat \<Rightarrow> nat \<Rightarrow> out_frame list \<Rightarrow> conn \<Rightarrow> out_frame list \<times> nat \<times> conn" where
  "settle n cur [] c = ([], 0, c)"
| "settle n cur ((f, ts) # batch) c =
     (let rem = length f - cur
      in if n < rem then ((f, ts) # batch, cur + n, c)
         else settle (n - rem) 0 batch (release (length f) c))"

text \<open>
  The flush loop. The bytes taken over by the sink are returned in order; without a script
  item left the outcome is open.
\<close>

fun flush_coalesced ::
  "'a sink \<Rightarrow> nat \<Rightarrow> u64 \<Rightarrow> 'a list \<Rightarrow> conn \<Rightarrow> write_status option \<times> byte list \<times> conn" where
  "flush_coalesced sink max_bytes now [] c =
     (let c1 = codel_dequeue (0 < c_cursor c) now c
      in (if c_out c1 = [] then Some Drained else None, [], c1))"
| "flush_coalesced sink max_bytes now (a # script) c =
     (let c1 = codel_dequeue (0 < c_cursor c) now c
      in if c_out c1 = [] then (Some Drained, [], c1)
         else
           (let start_cursor = c_cursor c1;
                (batch, c2) = gather max_bytes now start_cursor [] 0 c1;
                slices = drop start_cursor (concat (map fst batch));
                (res, taken, unflushed) = sink a slices (c_tls_unflushed c2);
                wire = take taken slices;
                c3 = c2\<lparr>c_tls_unflushed := unflushed\<rparr>;
                restored = c3\<lparr>c_out := batch @ c_out c3\<rparr>
            in case res of
                 Wrote 0 \<Rightarrow> (Some ClosedStatus, wire, restored)
               | Wrote n \<Rightarrow>
                 (let (left, cur, c4) = settle n start_cursor batch c3;
                      c5 = c4\<lparr>c_cursor := cur, c_out := left @ c_out c4\<rparr>;
                      (st, wire', c6) = flush_coalesced sink max_bytes now script c5
                  in (st, wire @ wire', c6))
               | EWouldBlock \<Rightarrow> (Some WouldBlock, wire, restored)
               | EInterrupted \<Rightarrow>
                 (let (st, wire', c6) = flush_coalesced sink max_bytes now script restored
                  in (st, wire @ wire', c6))
               | EOther \<Rightarrow> (Some ClosedStatus, wire, restored)))"

definition flush_plain :: "u64 \<Rightarrow> io_result list \<Rightarrow> conn \<Rightarrow> write_status option \<times> byte list \<times> conn" where
  "flush_plain now script c = flush_coalesced tcp_write_batch WRITEV_MAX_BYTES now script c"

definition drain_ciphertext :: "io_result list \<Rightarrow> conn \<Rightarrow> write_status option \<times> conn" where
  "drain_ciphertext rs c =
     (case write_ciphertext rs of
        Inr True \<Rightarrow> (None, c\<lparr>c_tls_unflushed := 0\<rparr>)
      | Inr False \<Rightarrow> (Some WouldBlock, c)
      | Inl e \<Rightarrow> (Some ClosedStatus, c))"

text \<open>The wire of an encrypted flush is the plaintext that the TLS library took over.\<close>

definition flush_tls_phases ::
  "u64 \<Rightarrow> io_result list \<Rightarrow> tls_replies list \<Rightarrow> io_result list \<Rightarrow> conn
     \<Rightarrow> write_status option \<times> byte list \<times> conn" where
  "flush_tls_phases now before script after c =
     (case drain_ciphertext before c of
        (Some st, c1) \<Rightarrow> (Some st, [], c1)
      | (None, c1) \<Rightarrow>
        (let (st, wire, c2) = flush_coalesced tls_write_batch TLS_BATCH_MAX_BYTES now script c1
         in if st \<noteq> Some Drained then (st, wire, c2)
            else (case drain_ciphertext after c2 of
                    (None, c3) \<Rightarrow> (Some Drained, wire, c3)
                  | (Some st', c3) \<Rightarrow> (Some st', wire, c3))))"

definition flush_tls ::
  "u64 \<Rightarrow> io_result list \<Rightarrow> tls_replies list \<Rightarrow> io_result list \<Rightarrow> conn
     \<Rightarrow> write_status option \<times> byte list \<times> conn" where
  "flush_tls now before script after c =
     (let (st, wire, c1) = flush_tls_phases now before script after c;
          delta = int (c_tls_unflushed c1) - int (c_tls_unflushed c)
      in (st, wire, c1\<lparr>c_inflight_delta := c_inflight_delta c1 + delta,
                       c_outbound_delta := c_outbound_delta c1 + delta\<rparr>))"


section \<open>Reading\<close>

function drain_frames :: "byte list \<Rightarrow> nat \<Rightarrow> conn_error + frame list \<times> byte list" where
  "drain_frames buf max_payload =
     (case parse buf max_payload of
        Inr (f, rest) \<Rightarrow>
          (case drain_frames rest max_payload of
             Inl e \<Rightarrow> Inl e
           | Inr (fs, rest') \<Rightarrow> Inr (f # fs, rest'))
      | Inl Incomplete \<Rightarrow> Inr ([], buf)
      | Inl (ProtocolError m) \<Rightarrow> Inl (ConnProtocol m)
      | Inl TooLarge \<Rightarrow> Inl (ConnProtocol ''frame too large''))"
  by pat_completeness auto
termination
  by (relation "measure (length \<circ> fst)") (use parse_consumes in auto)

declare drain_frames.simps [simp del]

text \<open>The reads of one call on a plain socket; an empty read is the end of the stream.\<close>

datatype read_result = ReadBytes "byte list" | ReadWouldBlock | ReadInterrupted | ReadError

fun read_plain :: "read_result list \<Rightarrow> byte list \<Rightarrow> (conn_error + bool \<times> byte list) option" where
  "read_plain [] buf = None"
| "read_plain (ReadBytes bs # rs) buf = (if bs = [] then Some (Inr (True, buf)) else read_plain rs (buf @ bs))"
| "read_plain (ReadWouldBlock # rs) buf = Some (Inr (False, buf))"
| "read_plain (ReadInterrupted # rs) buf = read_plain rs buf"
| "read_plain (ReadError # rs) buf = Some (Inl ConnClosed)"

text \<open>
  The same on an encrypted socket: records are pulled and processed until the socket blocks,
  pending writes of the library are driven, then the decrypted bytes are read out.
\<close>

datatype pull_result = Pulled bool | PullEof | PullWouldBlock | PullInterrupted | PullError

fun tls_pull :: "pull_result list \<Rightarrow> (conn_error + bool) option" where
  "tls_pull [] = None"
| "tls_pull (Pulled processed # rs) = (if processed then tls_pull rs else Some (Inl ConnClosed))"
| "tls_pull (PullEof # rs) = Some (Inr True)"
| "tls_pull (PullWouldBlock # rs) = Some (Inr False)"
| "tls_pull (PullInterrupted # rs) = tls_pull rs"
| "tls_pull (PullError # rs) = Some (Inl ConnClosed)"

fun tls_reader :: "read_result list \<Rightarrow> bool \<Rightarrow> byte list \<Rightarrow> (bool \<times> byte list) option" where
  "tls_reader [] eof buf = None"
| "tls_reader (ReadBytes bs # rs) eof buf = (if bs = [] then Some (eof, buf) else tls_reader rs eof (buf @ bs))"
| "tls_reader (ReadWouldBlock # rs) eof buf = Some (eof, buf)"
| "tls_reader (ReadInterrupted # rs) eof buf = tls_reader rs eof buf"
| "tls_reader (ReadError # rs) eof buf = Some (True, buf)"

definition read_tls ::
  "pull_result list \<Rightarrow> io_result list \<Rightarrow> read_result list \<Rightarrow> byte list
     \<Rightarrow> (conn_error + bool \<times> byte list) option" where
  "read_tls pulls writes reads buf =
     (case tls_pull pulls of
        None \<Rightarrow> None
      | Some (Inl e) \<Rightarrow> Some (Inl e)
      | Some (Inr eof) \<Rightarrow>
        (case write_ciphertext writes of
           Inl e \<Rightarrow> Some (Inl ConnClosed)
         | Inr _ \<Rightarrow> map_option Inr (tls_reader reads eof buf)))"

text \<open>What the socket gave, parsed: the complete frames, and the remainder for the next call.\<close>

definition read_frames ::
  "(conn_error + bool \<times> byte list) option \<Rightarrow> nat \<Rightarrow> (conn_error + frame list \<times> byte list) option" where
  "read_frames pulled max_payload =
     map_option (\<lambda>r. case r of
         Inl e \<Rightarrow> Inl e
       | Inr (hit_eof, buf) \<Rightarrow>
         (case drain_frames buf max_payload of
            Inl e \<Rightarrow> Inl e
          | Inr (fs, rest) \<Rightarrow> if hit_eof \<and> fs = [] then Inl ConnClosed else Inr (fs, rest)))
       pulled"


section \<open>Accounting\<close>

definition sum_len :: "out_frame list \<Rightarrow> nat" where
  "sum_len q = sum_list (map (length \<circ> fst) q)"

lemma sum_len_simps [simp]:
  "sum_len [] = 0" "sum_len (f # q) = length (fst f) + sum_len q" "sum_len (q @ q') = sum_len q + sum_len q'"
  by (simp_all add: sum_len_def)

lemma length_concat_fst: "length (concat (map fst q)) = sum_len q"
  by (induction q) auto

text \<open>
  The books of a connection whose batch in flight holds \<open>extra\<close> bytes: what it accounts for,
  less the change that the worker has not folded yet, is what the worker has on record.
\<close>

definition books :: "nat \<Rightarrow> int \<Rightarrow> int \<Rightarrow> conn \<Rightarrow> bool" where
  "books extra folded folded_out c \<longleftrightarrow>
     c_out_bytes c = extra + sum_len (c_out c) \<and>
     int (c_out_bytes c + c_reassembly_bytes c + c_frame_buffer_bytes c) - c_inflight_delta c = folded \<and>
     int (c_out_bytes c) - c_outbound_delta c = folded_out"

definition front :: "out_frame list \<Rightarrow> byte list" where
  "front q = (case q of [] \<Rightarrow> [] | f # _ \<Rightarrow> fst f)"

definition cursor_ok :: "conn \<Rightarrow> bool" where
  "cursor_ok c \<longleftrightarrow> (0 < c_cursor c \<longrightarrow> c_cursor c < length (front (c_out c)))"

text \<open>The fields that queueing and flushing leave alone.\<close>

definition kept :: "conn \<Rightarrow> conn \<Rightarrow> bool" where
  "kept c c' \<longleftrightarrow> c_state c' = c_state c \<and> c_high_water c' = c_high_water c \<and> c_codel c' = c_codel c \<and>
     c_reassembly_bytes c' = c_reassembly_bytes c \<and> c_frame_buffer_bytes c' = c_frame_buffer_bytes c"

lemma kept_refl [simp]: "kept c c"
  by (simp add: kept_def)

lemma kept_trans: "kept a b \<Longrightarrow> kept b c \<Longrightarrow> kept a c"
  by (simp add: kept_def)

lemma release_simps [simp]:
  "c_out (release n c) = c_out c" "c_cursor (release n c) = c_cursor c"
  "c_tls_unflushed (release n c) = c_tls_unflushed c" "c_high_water (release n c) = c_high_water c"
  "c_codel (release n c) = c_codel c" "c_codel_state (release n c) = c_codel_state c"
  "kept c (release n c)"
  by (simp_all add: release_def kept_def)

lemma books_release:
  "books (n + extra) g og c \<Longrightarrow> books extra g og (release n c)"
  by (auto simp: books_def release_def)

lemma books_more:
  assumes "books extra g og c" and "c_out_bytes c' = c_out_bytes c" and "c_inflight_delta c' = c_inflight_delta c"
    and "c_outbound_delta c' = c_outbound_delta c" and "kept c c'"
    and "extra' + sum_len (c_out c') = extra + sum_len (c_out c)"
  shows "books extra' g og c'"
  using assms by (simp add: books_def kept_def)

text \<open>What the controlled delay may do to the queue: drop a proper prefix, and only when not locked.\<close>

lemma codel_loop_correct:
  assumes "books extra g og c" and "c' = codel_loop l now c"
  shows "books extra g og c' \<and> kept c c' \<and> c_cursor c' = c_cursor c \<and> c_tls_unflushed c' = c_tls_unflushed c \<and>
    suffix (c_out c') (c_out c) \<and> (c_out c \<noteq> [] \<longrightarrow> c_out c' \<noteq> []) \<and> (l \<longrightarrow> c_out c' = c_out c)"
  using assms
proof (induction l now c arbitrary: c' rule: codel_loop.induct)
  case (1 l now c)
  show ?case
  proof (cases "c_out c")
    case Nil
    with 1 show ?thesis by (simp add: codel_loop.simps [of l now c] books_def kept_def)
  next
    case (Cons e rest)
    obtain victim enq where e: "e = (victim, enq)" by fastforce
    define c1 where "c1 = c\<lparr>c_codel_state := note_interval (c_codel c) now (sat_sub now enq) (c_codel_state c)\<rparr>"
    define go where "go \<longleftrightarrow> \<not> l \<and> is_overloaded (c_codel_state c1) \<and>
      sat_mul (target_ns (c_codel c)) 2 < sat_sub now enq \<and> 1 < length (c_out c)"
    define c2 where "c2 = release (length victim) (c1\<lparr>c_out := rest, c_codel_dropped := c_codel_dropped c + 1\<rparr>)"
    have step: "codel_loop l now c = (if go then codel_loop l now c2 else c1)"
      by (subst codel_loop.simps) (simp add: Cons e Let_def c1_def c2_def go_def)
    show ?thesis
    proof (cases go)
      case False
      with 1 step Cons show ?thesis by (auto simp: c1_def books_def kept_def)
    next
      case True
      then have IH: "books extra g og c2 \<Longrightarrow> books extra g og c' \<and> kept c2 c' \<and> c_cursor c' = c_cursor c2 \<and>
          c_tls_unflushed c' = c_tls_unflushed c2 \<and> suffix (c_out c') (c_out c2) \<and>
          (c_out c2 \<noteq> [] \<longrightarrow> c_out c' \<noteq> []) \<and> (l \<longrightarrow> c_out c' = c_out c2)"
        using "1.IH" [OF Cons e [symmetric] refl c1_def, of c'] "1.prems"(2) step by (simp add: go_def c2_def)
      have "books extra g og c2"
        unfolding c2_def using "1.prems"(1) Cons e
        by (intro books_release) (auto simp: books_def c1_def)
      with IH have "kept c2 c'" "books extra g og c'" "c_cursor c' = c_cursor c2"
        "c_tls_unflushed c' = c_tls_unflushed c2" "suffix (c_out c') rest" "rest \<noteq> [] \<longrightarrow> c_out c' \<noteq> []"
        by (simp_all add: c2_def)
      moreover have "kept c c2" by (simp add: c2_def c1_def kept_def release_def)
      moreover have "rest \<noteq> []" using True Cons by (auto simp: go_def)
      ultimately show ?thesis
        using True Cons by (auto simp: c2_def c1_def go_def intro: kept_trans suffix_ConsI)
    qed
  qed
qed

lemma codel_dequeue_correct:
  assumes "books extra g og c" and "c' = codel_dequeue l now c"
  shows "books extra g og c' \<and> kept c c' \<and> c_cursor c' = c_cursor c \<and> c_tls_unflushed c' = c_tls_unflushed c \<and>
    suffix (c_out c') (c_out c) \<and> (c_out c \<noteq> [] \<longrightarrow> c_out c' \<noteq> []) \<and> (l \<longrightarrow> c_out c' = c_out c)"
proof (cases "codel_enabled (c_codel c)")
  case True
  with codel_loop_correct [OF assms(1) refl, of l now] assms(2) show ?thesis by (simp add: codel_dequeue_def)
next
  case False
  with assms show ?thesis by (simp add: codel_dequeue_def)
qed

lemma gather_correct:
  assumes "books (sum_len batch) g og c" and "gather m now sc batch bb c = (batch', c')"
  shows "books (sum_len batch') g og c' \<and> kept c c' \<and> c_cursor c' = c_cursor c \<and>
    c_tls_unflushed c' = c_tls_unflushed c \<and>
    (\<exists>taken. batch' = batch @ taken \<and> subseq (taken @ c_out c') (c_out c) \<and>
       (batch = [] \<and> c_out c \<noteq> [] \<longrightarrow> taken \<noteq> [] \<and> hd taken = hd (c_out c)))"
  using assms
proof (induction m now sc batch bb c arbitrary: batch' c' rule: gather.induct)
  case (1 m now sc batch bb c)
  show ?case
  proof (cases "c_out c")
    case Nil
    with 1 show ?thesis by (simp add: gather.simps [of m now sc batch bb c])
  next
    case (Cons f rest)
    define n where "n = length (fst f) - (if batch = [] then sc else 0)"
    define stop where "stop \<longleftrightarrow> batch \<noteq> [] \<and> (WRITEV_MAX_SLICES \<le> length batch \<or> m < bb + n)"
    let ?c = "codel_dequeue (0 < c_cursor c \<and> batch @ [f] = []) now (c\<lparr>c_out := rest\<rparr>)"
    have step: "gather m now sc batch bb c = (if stop then (batch, c) else gather m now sc (batch @ [f]) (bb + n) ?c)"
      by (subst gather.simps) (simp add: Cons Let_def n_def stop_def)
    show ?thesis
    proof (cases stop)
      case True
      with 1 step show ?thesis by (auto simp: stop_def)
    next
      case False
      have "books (sum_len (batch @ [f])) g og (c\<lparr>c_out := rest\<rparr>)"
        by (rule books_more [OF "1.prems"(1)]) (simp_all add: Cons kept_def)
      note cod = codel_dequeue_correct [OF this refl, of "0 < c_cursor c \<and> batch @ [f] = []" now]
      have "books (sum_len (batch @ [f])) g og ?c" using cod by blast
      moreover have "gather m now sc (batch @ [f]) (bb + n) ?c = (batch', c')"
        using "1.prems"(2) False by (simp add: step)
      ultimately obtain more_taken where
        IH: "books (sum_len batch') g og c'" "kept ?c c'" "c_cursor c' = c_cursor ?c"
          "c_tls_unflushed c' = c_tls_unflushed ?c"
          "batch' = (batch @ [f]) @ more_taken" "subseq (more_taken @ c_out c') (c_out ?c)"
        using "1.IH" [OF Cons n_def] False by (auto simp: stop_def)
      have suf: "suffix (c_out ?c) rest" using cod by simp
      have "kept c (c\<lparr>c_out := rest\<rparr>)" by (simp add: kept_def)
      with cod IH(2) have "kept c c'" by (blast intro: kept_trans)
      moreover have "subseq ((f # more_taken) @ c_out c') (c_out c)"
        using IH(6) suffix_imp_subseq [OF suf] by (auto simp: Cons intro: subseq_order.trans)
      ultimately show ?thesis
        using IH cod by (intro conjI exI [of _ "f # more_taken"]) (auto simp: Cons)
    qed
  qed
qed

lemma settle_correct:
  assumes "settle n cur batch c = (left, cur', c')" and "books (sum_len batch) g og c"
    and "cur \<le> length (front batch)"
  shows "books (sum_len left) g og c' \<and> kept c c' \<and> c_out c' = c_out c \<and> c_tls_unflushed c' = c_tls_unflushed c \<and>
    (left = [] \<longrightarrow> cur' = 0) \<and> (left \<noteq> [] \<longrightarrow> cur' < length (front left)) \<and>
    (\<exists>sent. batch = sent @ left \<and>
       take (cur + n) (concat (map fst batch)) = concat (map fst sent) @ take cur' (front left))"
  using assms
proof (induction n cur batch c arbitrary: left cur' c' rule: settle.induct)
  case (1 n cur c)
  then show ?case by (simp add: front_def)
next
  case (2 n cur f ts batch c)
  show ?case
  proof (cases "n < length f - cur")
    case True
    with 2 show ?thesis
      by (intro conjI exI [of _ "[]"]) (auto simp: front_def)
  next
    case False
    let ?c = "release (length f) c"
    from False "2.prems"(1) have r: "settle (n - (length f - cur)) 0 batch ?c = (left, cur', c')" by simp
    have b: "books (sum_len batch) g og ?c"
      using "2.prems"(2) by (intro books_release) simp
    from "2.IH" [OF refl False r b] obtain sent where
      IH: "books (sum_len left) g og c'" "kept ?c c'" "c_out c' = c_out c" "c_tls_unflushed c' = c_tls_unflushed c"
        "left = [] \<longrightarrow> cur' = 0" "left \<noteq> [] \<longrightarrow> cur' < length (front left)" "batch = sent @ left"
        "take (n - (length f - cur)) (concat (map fst batch)) = concat (map fst sent) @ take cur' (front left)"
      by auto
    have "cur \<le> length f" using "2.prems"(3) by (simp add: front_def)
    then have "take (cur + n) (concat (map fst ((f, ts) # batch))) =
        f @ take (n - (length f - cur)) (concat (map fst batch))"
      using False by (simp add: add.commute)
    with IH(8) have bytes: "take (cur + n) (concat (map fst ((f, ts) # batch))) =
        concat (map fst ((f, ts) # sent)) @ take cur' (front left)" by simp
    have "kept c c'" by (rule kept_trans [OF release_simps(7) IH(2)])
    moreover have "(f, ts) # batch = ((f, ts) # sent) @ left" using IH(7) by simp
    ultimately show ?thesis using IH(1,3-6) bytes by blast
  qed
qed


section \<open>The byte stream\<close>

text \<open>A reply to a sink under which it takes over exactly the bytes it reports.\<close>

definition sound_reply :: "'a sink \<Rightarrow> 'a \<Rightarrow> bool" where
  "sound_reply sink a \<longleftrightarrow> (\<forall>slices u res taken u'. sink a slices u = (res, taken, u') \<longrightarrow>
     taken = (case res of Wrote n \<Rightarrow> min n (length slices) | _ \<Rightarrow> 0))"

lemma sound_tcp [simp]: "sound_reply tcp_write_batch a"
  by (auto simp: sound_reply_def tcp_write_batch_def split: io_result.splits)

text \<open>For the encrypted sink: the drain after the plaintext was accepted has no error.\<close>

definition calm :: "tls_replies \<Rightarrow> bool" where
  "calm r \<longleftrightarrow> (\<exists>flushed. write_ciphertext (post_drain r) = Inr flushed)"

lemma write_ciphertext_error: "write_ciphertext rs = Inl e \<Longrightarrow> e = EInterrupted \<or> e = EOther"
  by (induction rs rule: write_ciphertext.induct) auto

lemma sound_tls:
  assumes "calm r"
  shows "sound_reply tls_write_batch r"
proof -
  obtain d where "write_ciphertext (post_drain r) = Inr d" using assms by (auto simp: calm_def)
  then show ?thesis
    by (cases d; cases "write_ciphertext (pre_drain r)"; cases "writer_write r")
      (auto simp: sound_reply_def tls_write_batch_def dest!: write_ciphertext_error split: bool.splits)
qed

text \<open>
  What a flush does to the stream: \<open>wire\<close> continues the frame under the cursor, is made of
  whole frames of the queue in their order, and ends at the new cursor.
\<close>

definition stream_rel :: "conn \<Rightarrow> byte list \<Rightarrow> conn \<Rightarrow> bool" where
  "stream_rel c wire c' \<longleftrightarrow>
     (\<exists>sent. subseq (sent @ c_out c') (c_out c) \<and>
        take (c_cursor c) (front (c_out c)) @ wire = concat (map fst sent) @ take (c_cursor c') (front (c_out c')))"

lemma stream_rel_refl: "stream_rel c [] c"
  by (auto simp: stream_rel_def intro: exI [of _ "[]"])

lemma stream_rel_trans:
  assumes "stream_rel a w b" and "stream_rel b w' c"
  shows "stream_rel a (w @ w') c"
proof -
  from assms obtain s s' where s: "subseq (s @ c_out b) (c_out a)"
    "take (c_cursor a) (front (c_out a)) @ w = concat (map fst s) @ take (c_cursor b) (front (c_out b))"
    and s': "subseq (s' @ c_out c) (c_out b)"
    "take (c_cursor b) (front (c_out b)) @ w' = concat (map fst s') @ take (c_cursor c) (front (c_out c))"
    by (auto simp: stream_rel_def)
  have "subseq (s @ s' @ c_out c) (c_out a)"
    using s(1) s'(1) by (meson list_emb_append_mono subseq_order.refl subseq_order.trans)
  moreover have "take (c_cursor a) (front (c_out a)) @ w @ w' =
      concat (map fst s) @ concat (map fst s') @ take (c_cursor c) (front (c_out c))"
    using s(2) s'(2) by (metis append.assoc)
  ultimately show ?thesis
    unfolding stream_rel_def by (intro exI [of _ "s @ s'"]) simp
qed

lemma front_append: "q \<noteq> [] \<Longrightarrow> front (q @ r) = front q"
  by (cases q) (simp_all add: front_def)

lemma front_hd: "q \<noteq> [] \<Longrightarrow> front q = fst (hd q)"
  by (cases q) (simp_all add: front_def)

lemma codel_stream:
  assumes b: "books 0 g og c" and k: "cursor_ok c" and c1: "c1 = codel_dequeue (0 < c_cursor c) now c"
  shows "books 0 g og c1 \<and> cursor_ok c1 \<and> kept c c1 \<and> c_cursor c1 = c_cursor c \<and>
    c_tls_unflushed c1 = c_tls_unflushed c \<and> stream_rel c [] c1"
proof -
  note cod = codel_dequeue_correct [OF b c1]
  have "take (c_cursor c) (front (c_out c)) = take (c_cursor c1) (front (c_out c1))"
    using cod by (cases "c_cursor c") auto
  moreover have "cursor_ok c1" using cod k by (auto simp: cursor_ok_def)
  moreover have "subseq (c_out c1) (c_out c)" using cod suffix_imp_subseq by blast
  ultimately show ?thesis using cod by (auto simp: stream_rel_def intro: exI [of _ "[]"])
qed

text \<open>One batch: restored as it was, or settled after a write.\<close>

lemma restore_stream:
  assumes b: "books 0 g og c1" and k: "cursor_ok c1" and ne: "c_out c1 \<noteq> []"
    and gt: "gather m now (c_cursor c1) [] 0 c1 = (batch, c2)"
    and r: "r = c2\<lparr>c_tls_unflushed := u, c_out := batch @ c_out c2\<rparr>"
  shows "books 0 g og r \<and> cursor_ok r \<and> kept c1 r \<and> c_tls_unflushed c2 = c_tls_unflushed c1 \<and> stream_rel c1 [] r"
proof -
  have "books (sum_len []) g og c1" using b by simp
  note ga = gather_correct [OF this gt]
  then have bt: "batch \<noteq> []" "front batch = front (c_out c1)" and sub: "subseq (batch @ c_out c2) (c_out c1)"
    and cur: "c_cursor c2 = c_cursor c1" and kp: "kept c1 c2" and bk: "books (sum_len batch) g og c2"
    and un: "c_tls_unflushed c2 = c_tls_unflushed c1"
    using ne by (auto simp: front_hd)
  have "books 0 g og r" unfolding r by (rule books_more [OF bk]) (simp_all add: kept_def)
  moreover have "stream_rel c1 [] r"
    using sub cur bt by (auto simp: stream_rel_def r front_append intro: exI [of _ "[]"])
  moreover have "cursor_ok r" using k cur bt by (simp add: cursor_ok_def r front_append)
  moreover have "kept c1 r" using kp by (simp add: r kept_def)
  ultimately show ?thesis using un by blast
qed

lemma settle_stream:
  assumes b: "books 0 g og c1" and k: "cursor_ok c1" and ne: "c_out c1 \<noteq> []"
    and gt: "gather m now (c_cursor c1) [] 0 c1 = (batch, c2)"
    and st: "settle n (c_cursor c1) batch (c2\<lparr>c_tls_unflushed := u\<rparr>) = (left, cur, c4)"
    and r: "r = c4\<lparr>c_cursor := cur, c_out := left @ c_out c4\<rparr>"
    and w: "wire = take n (drop (c_cursor c1) (concat (map fst batch)))"
  shows "books 0 g og r \<and> cursor_ok r \<and> kept c1 r \<and> c_tls_unflushed r = u \<and> stream_rel c1 wire r"
proof -
  have "books (sum_len []) g og c1" using b by simp
  note ga = gather_correct [OF this gt]
  then have bt: "batch \<noteq> []" "front batch = front (c_out c1)" and sub: "subseq (batch @ c_out c2) (c_out c1)"
    and kp: "kept c1 c2" and bk: "books (sum_len batch) g og c2"
    using ne by (auto simp: front_hd)
  have bk': "books (sum_len batch) g og (c2\<lparr>c_tls_unflushed := u\<rparr>)"
    by (rule books_more [OF bk]) (simp_all add: kept_def)
  have le: "c_cursor c1 \<le> length (front batch)" using k bt by (auto simp: cursor_ok_def)
  have "c_out (c2\<lparr>c_tls_unflushed := u\<rparr>) = c_out c2" "c_tls_unflushed (c2\<lparr>c_tls_unflushed := u\<rparr>) = u" by simp_all
  with settle_correct [OF st bk' le] obtain sent where s: "books (sum_len left) g og c4" "kept (c2\<lparr>c_tls_unflushed := u\<rparr>) c4"
      "c_out c4 = c_out c2 \<and> c_tls_unflushed c4 = u" "left = [] \<longrightarrow> cur = 0" "left \<noteq> [] \<longrightarrow> cur < length (front left)" "batch = sent @ left"
      "take (c_cursor c1 + n) (concat (map fst batch)) = concat (map fst sent) @ take cur (front left)"
    by metis
  have "books 0 g og r" unfolding r by (rule books_more [OF s(1)]) (simp_all add: kept_def)
  moreover have cr: "take cur (front left) = take (c_cursor r) (front (c_out r))" and "cursor_ok r"
    using s(3,4,5) by (cases "left = []"; simp add: r front_append cursor_ok_def)+
  moreover have "kept c1 r" using kp s(2) by (simp add: r kept_def)
  moreover have "take (c_cursor c1) (front (c_out c1)) @ wire = concat (map fst sent) @ take cur (front left)"
  proof -
    have "take (c_cursor c1) (front batch) = take (c_cursor c1) (concat (map fst batch))"
      using le bt(1) by (cases batch) (simp_all add: front_def)
    with s(7) bt(2) show ?thesis by (simp add: w take_add)
  qed
  moreover have "subseq (sent @ c_out r) (c_out c1)" "c_tls_unflushed r = u"
    using sub s(3,6) by (simp_all add: r)
  ultimately show ?thesis unfolding stream_rel_def by metis
qed

lemma flush_step:
  assumes "c1 = codel_dequeue (0 < c_cursor c) now c" and "c_out c1 \<noteq> []"
    and "gather m now (c_cursor c1) [] 0 c1 = (batch, c2)"
    and "sink a (drop (c_cursor c1) (concat (map fst batch))) (c_tls_unflushed c2) = (res, taken, u)"
    and "wire = take taken (drop (c_cursor c1) (concat (map fst batch)))"
    and "r = c2\<lparr>c_tls_unflushed := u, c_out := batch @ c_out c2\<rparr>"
  shows "flush_coalesced sink m now (a # script) c =
     (case res of
        Wrote 0 \<Rightarrow> (Some ClosedStatus, wire, r)
      | Wrote n \<Rightarrow>
        (let (left, cur, c4) = settle n (c_cursor c1) batch (c2\<lparr>c_tls_unflushed := u\<rparr>);
             (st, wire', c6) = flush_coalesced sink m now script (c4\<lparr>c_cursor := cur, c_out := left @ c_out c4\<rparr>)
         in (st, wire @ wire', c6))
      | EWouldBlock \<Rightarrow> (Some WouldBlock, wire, r)
      | EInterrupted \<Rightarrow> (let (st, wire', c6) = flush_coalesced sink m now script r in (st, wire @ wire', c6))
      | EOther \<Rightarrow> (Some ClosedStatus, wire, r))"
  using assms(2-4)
  by (cases res) (simp_all add: Let_def assms(5,6) split: nat.splits flip: assms(1))

definition keeps_unflushed :: "'a sink \<Rightarrow> bool" where
  "keeps_unflushed sink \<longleftrightarrow> (\<forall>a slices u. snd (snd (sink a slices u)) = u)"

lemma flush_correct:
  assumes "books 0 g og c" and "cursor_ok c" and "flush_coalesced sink m now script c = (st, wire, c')"
  shows "books 0 g og c' \<and> cursor_ok c' \<and> kept c c' \<and> (st = Some Drained \<longrightarrow> c_out c' = []) \<and>
    (keeps_unflushed sink \<longrightarrow> c_tls_unflushed c' = c_tls_unflushed c) \<and>
    (list_all (sound_reply sink) script \<longrightarrow> stream_rel c wire c')"
  using assms
proof (induction script arbitrary: c st wire c')
  case Nil
  with codel_stream [OF Nil(1,2) refl, of now] show ?case by (auto simp: Let_def split: if_splits)
next
  case (Cons a script)
  define c1 where "c1 = codel_dequeue (0 < c_cursor c) now c"
  note c1 = codel_stream [OF Cons.prems(1,2) c1_def]
  show ?case
  proof (cases "c_out c1 = []")
    case True
    with Cons.prems(3) c1 show ?thesis by (auto simp: Let_def simp flip: c1_def)
  next
    case False
    obtain batch c2 where gt: "gather m now (c_cursor c1) [] 0 c1 = (batch, c2)" by fastforce
    define slices where "slices = drop (c_cursor c1) (concat (map fst batch))"
    obtain res taken u where si: "sink a slices (c_tls_unflushed c2) = (res, taken, u)" using prod_cases3 by blast
    then have tk: "sound_reply sink a \<longrightarrow> taken = (case res of Wrote n \<Rightarrow> min n (length slices) | _ \<Rightarrow> 0)"
      unfolding sound_reply_def by blast
    have ku: "keeps_unflushed sink \<longrightarrow> u = c_tls_unflushed c2" using si by (metis keeps_unflushed_def snd_conv)
    define r where "r = c2\<lparr>c_tls_unflushed := u, c_out := batch @ c_out c2\<rparr>"
    have restored: "books 0 g og r \<and> cursor_ok r \<and> kept c1 r \<and> c_tls_unflushed c2 = c_tls_unflushed c1 \<and> stream_rel c1 [] r"
      using c1 False gt r_def by (intro restore_stream) auto
    have kr: "keeps_unflushed sink \<longrightarrow> c_tls_unflushed r = c_tls_unflushed c1" using ku restored by (simp add: r_def)
    have comb: ?thesis if "stream_rel c1 w d" "books 0 g og d" "cursor_ok d" "kept c1 d"
      "sound_reply sink a \<longrightarrow> wire = w @ w'" "keeps_unflushed sink \<longrightarrow> c_tls_unflushed d = c_tls_unflushed c1"
      "books 0 g og c' \<and> cursor_ok c' \<and> kept d c' \<and> (st = Some Drained \<longrightarrow> c_out c' = []) \<and>
       (keeps_unflushed sink \<longrightarrow> c_tls_unflushed c' = c_tls_unflushed d) \<and> (list_all (sound_reply sink) script \<longrightarrow> stream_rel d w' c')"
      for w w' d
      using that c1 stream_rel_trans [of c "[]" c1 w d] stream_rel_trans [of c w d w' c'] by (auto intro: kept_trans)
    note step = flush_step [where sink = sink and a = a and script = script, OF c1_def False gt si [unfolded slices_def] refl r_def]
    have stop: ?thesis if "c' = r" "sound_reply sink a \<longrightarrow> wire = []" "st \<noteq> Some Drained"
      using comb [of "[]" r "[]"] restored kr that by (simp add: stream_rel_refl)
    show ?thesis
    proof (cases res)
      case (Wrote n)
      show ?thesis
      proof (cases n)
        case 0
        with Wrote tk step Cons.prems(3) show ?thesis by (intro stop) auto
      next
        case (Suc n')
        obtain left cur c4 where se: "settle n (c_cursor c1) batch (c2\<lparr>c_tls_unflushed := u\<rparr>) = (left, cur, c4)"
          using prod_cases3 by blast
        define d where "d = c4\<lparr>c_cursor := cur, c_out := left @ c_out c4\<rparr>"
        obtain st' w' d' where rest: "flush_coalesced sink m now script d = (st', w', d')" using prod_cases3 by blast
        have "sound_reply sink a \<longrightarrow> take n slices = take taken slices" using Wrote tk by (simp add: min_def)
        then have out: "st = st'" "c' = d'" "sound_reply sink a \<longrightarrow> wire = take n slices @ w'"
          using step Cons.prems(3) Wrote Suc se rest by (simp_all add: d_def slices_def)
        have "books 0 g og d \<and> cursor_ok d \<and> kept c1 d \<and> c_tls_unflushed d = u \<and> stream_rel c1 (take n slices) d"
          using c1 False gt se d_def slices_def by (intro settle_stream) auto
        with Cons.IH [of d st' w' d'] rest out ku restored show ?thesis by (intro comb [of "take n slices" d w']) auto
      qed
    next
      case EWouldBlock
      with tk step Cons.prems(3) show ?thesis by (intro stop) auto
    next
      case EInterrupted
      obtain st' w' d' where rest: "flush_coalesced sink m now script r = (st', w', d')" using prod_cases3 by blast
      with EInterrupted tk step Cons.prems(3) have "st = st'" "c' = d'" "sound_reply sink a \<longrightarrow> wire = [] @ w'"
        by (auto simp del: flush_coalesced.simps)
      with Cons.IH [of r st' w' d'] rest restored kr show ?thesis by (intro comb [of "[]" r w']) auto
    next
      case EOther
      with tk step Cons.prems(3) show ?thesis by (intro stop) auto
    qed
  qed
qed


section \<open>Queueing\<close>

lemma drop_head_correct:
  assumes "drop_head locked flen c = (n, c')" and "books 0 g og c" and "locked \<le> 1" and "locked \<le> length (c_out c)"
  shows "c_out c' = take locked (c_out c) @ drop (locked + n) (c_out c) \<and> locked + n \<le> length (c_out c) \<and>
    books 0 g og c' \<and> kept c c' \<and> c_cursor c' = c_cursor c \<and> c_tls_unflushed c' = c_tls_unflushed c \<and>
    c_drophead_dropped c' = c_drophead_dropped c + of_nat n \<and>
    (c_out_bytes c' + flen \<le> c_high_water c \<or> length (c_out c') = locked) \<and>
    (0 < n \<longrightarrow> c_high_water c < c_out_bytes c' + length (fst (c_out c ! (locked + n - 1))) + flen)"
  using assms
proof (induction locked flen c arbitrary: n c' rule: drop_head.induct)
  case (1 locked flen c)
  show ?case
  proof (cases "c_high_water c < c_out_bytes c + flen \<and> locked < length (c_out c)")
    case False
    with "1.prems" show ?thesis by (auto simp: drop_head.simps [of locked flen c])
  next
    case True
    define victim where "victim = fst (c_out c ! locked)"
    define c1 where "c1 = release (length victim) (c\<lparr>c_out := take locked (c_out c) @ drop (Suc locked) (c_out c),
      c_drophead_dropped := c_drophead_dropped c + 1\<rparr>)"
    obtain k where n: "n = Suc k" and rec: "drop_head locked flen c1 = (k, c')"
      using "1.prems"(1) True
      by (subst (asm) drop_head.simps) (auto simp: Let_def c1_def victim_def split: prod.splits)
    have split: "c_out c = take locked (c_out c) @ c_out c ! locked # drop (Suc locked) (c_out c)"
      using True by (simp add: id_take_nth_drop)
    have len: "sum_len (c_out c) = length victim + sum_len (take locked (c_out c) @ drop (Suc locked) (c_out c))"
      by (subst split) (simp add: victim_def)
    have b1: "books 0 g og c1" unfolding c1_def using "1.prems"(2) len
      by (intro books_release) (simp add: books_def)
    have out1: "c_out c1 = take locked (c_out c) @ drop (Suc locked) (c_out c)" by (simp add: c1_def)
    have "locked \<le> length (c_out c1)" using True by (auto simp: out1)
    note "1.IH" [OF True victim_def c1_def rec b1 "1.prems"(3) this]
    then have IH: "c_out c' = take locked (c_out c1) @ drop (locked + k) (c_out c1)" "locked + k \<le> length (c_out c1)"
      "books 0 g og c'" "kept c1 c'" "c_cursor c' = c_cursor c1" "c_tls_unflushed c' = c_tls_unflushed c1"
      "c_drophead_dropped c' = c_drophead_dropped c1 + of_nat k"
      "c_out_bytes c' + flen \<le> c_high_water c1 \<or> length (c_out c') = locked"
      "0 < k \<longrightarrow> c_high_water c1 < c_out_bytes c' + length (fst (c_out c1 ! (locked + k - 1))) + flen"
      by blast+
    have "kept c c1" by (simp add: c1_def kept_def release_def)
    with IH(4) have "kept c c'" by (rule kept_trans [rotated])
    moreover have "c_out c' = take locked (c_out c) @ drop (locked + n) (c_out c)" "locked + n \<le> length (c_out c)"
      using IH(1,2) True by (auto simp: out1 n min_def add.commute)
    moreover have "c_high_water c < c_out_bytes c' + length (fst (c_out c ! (locked + n - 1))) + flen"
    proof (cases "k = 0")
      case True
      with rec have "c' = c1" using IH(7) by (subst (asm) drop_head.simps) (auto split: if_splits prod.splits simp: Let_def)
      moreover have "c_out_bytes c1 + length victim = c_out_bytes c"
        using "1.prems"(2) len by (simp add: c1_def books_def release_def)
      ultimately show ?thesis using \<open>c_high_water c < _ \<and> _\<close> by (simp add: n True victim_def)
    next
      case False
      then have "c_out c1 ! (locked + k - 1) = c_out c ! (locked + n - 1)"
        using True IH(2) by (auto simp: out1 n nth_append)
      with False IH(9) show ?thesis by (simp add: c1_def)
    qed
    ultimately show ?thesis
      using IH(3,5,6,7,8) by (auto simp: c1_def n release_def)
  qed
qed

lemma queue_correct:
  assumes "conn_queue frame now c = (n, c')" and "books 0 g og c" and "cursor_ok c"
    and "locked = (if 0 < c_cursor c then 1 else 0)"
  shows "c_out c' = take locked (c_out c) @ drop (locked + n) (c_out c) @ [(frame, now)] \<and>
    locked + n \<le> length (c_out c) \<and> books 0 g og c' \<and> cursor_ok c' \<and> kept c c' \<and> c_cursor c' = c_cursor c \<and>
    c_tls_unflushed c' = c_tls_unflushed c \<and>
    c_drophead_dropped c' = c_drophead_dropped c + of_nat n \<and>
    (c_out_bytes c' \<le> c_high_water c \<or> length (c_out c') = Suc locked) \<and>
    (0 < n \<longrightarrow> c_high_water c < c_out_bytes c' + length (fst (c_out c ! (locked + n - 1))))"
proof -
  obtain c1 where dh: "drop_head locked (length frame) c = (n, c1)"
    and c': "c' = c1\<lparr>c_out_bytes := c_out_bytes c1 + length frame, c_inflight_delta := c_inflight_delta c1 + int (length frame),
      c_outbound_delta := c_outbound_delta c1 + int (length frame), c_out := c_out c1 @ [(frame, now)]\<rparr>"
    using assms(1,4) by (auto simp: conn_queue_def Let_def split: prod.splits)
  have ne: "0 < c_cursor c \<longrightarrow> c_out c \<noteq> []" using assms(3) by (auto simp: cursor_ok_def front_def)
  then have lk: "locked \<le> 1" "locked \<le> length (c_out c)" using assms(4) by (auto simp: Suc_le_eq)
  note d = drop_head_correct [OF dh assms(2) lk]
  have "front (c_out c') = front (c_out c)" if "0 < c_cursor c"
    using d c' that ne assms(4) by (cases "c_out c") (auto simp: front_def)
  then have "cursor_ok c'" using assms(3) d c' by (simp add: cursor_ok_def)
  moreover have "books 0 g og c1" using d by blast
  then have "books 0 g og c'" by (auto simp: c' books_def)
  moreover have "kept c c'" using d by (simp add: c' kept_def)
  moreover have "c_out_bytes c1 + length frame \<le> c_high_water c \<or> length (c_out c1) = locked" using d by blast
  then have "c_out_bytes c' \<le> c_high_water c \<or> length (c_out c') = Suc locked" by (simp add: c')
  moreover have "0 < n \<longrightarrow> c_high_water c < c_out_bytes c' + length (fst (c_out c ! (locked + n - 1)))"
    using d by (auto simp: c')
  ultimately show ?thesis using d by (simp add: c')
qed


section \<open>Runs of a connection\<close>

datatype conn_op =
    Queue "byte list" u64
  | FlushPlain u64 "io_result list"
  | FlushTls u64 "io_result list" "tls_replies list" "io_result list"
  | SetReassembly nat
  | SetFrameBuffer nat
  | TakeInflight
  | TakeOutbound
  | TakeCodelDropped
  | TakeDropheadDropped
  | SetWritableArmed bool
  | SetCodel codel_params

text \<open>
  A connection with its history: every frame queued so far, every byte its sink took over,
  and what the worker has folded into its two totals.
\<close>

record link =
  l_conn :: conn
  l_queued :: "out_frame list"
  l_wire :: "byte list"
  l_inflight :: int
  l_outbound :: int

definition link_new :: "nat \<Rightarrow> link" where
  "link_new high_water = \<lparr>l_conn = conn_new high_water, l_queued = [], l_wire = [], l_inflight = 0, l_outbound = 0\<rparr>"

fun link_step :: "link \<Rightarrow> conn_op \<Rightarrow> link" where
  "link_step s (Queue frame now) =
     s\<lparr>l_conn := snd (conn_queue frame now (l_conn s)), l_queued := l_queued s @ [(frame, now)]\<rparr>"
| "link_step s (FlushPlain now script) =
     (let (st, wire, c) = flush_plain now script (l_conn s) in s\<lparr>l_conn := c, l_wire := l_wire s @ wire\<rparr>)"
| "link_step s (FlushTls now before script after) =
     (let (st, wire, c) = flush_tls now before script after (l_conn s) in s\<lparr>l_conn := c, l_wire := l_wire s @ wire\<rparr>)"
| "link_step s (SetReassembly n) = s\<lparr>l_conn := set_reassembly_bytes n (l_conn s)\<rparr>"
| "link_step s (SetFrameBuffer n) = s\<lparr>l_conn := set_frame_buffer_bytes n (l_conn s)\<rparr>"
| "link_step s TakeInflight =
     (let (d, c) = take_inflight_delta (l_conn s) in s\<lparr>l_conn := c, l_inflight := l_inflight s + d\<rparr>)"
| "link_step s TakeOutbound =
     (let (d, c) = take_outbound_delta (l_conn s) in s\<lparr>l_conn := c, l_outbound := l_outbound s + d\<rparr>)"
| "link_step s TakeCodelDropped = s\<lparr>l_conn := snd (take_codel_dropped (l_conn s))\<rparr>"
| "link_step s TakeDropheadDropped = s\<lparr>l_conn := snd (take_drophead_dropped (l_conn s))\<rparr>"
| "link_step s (SetWritableArmed b) = s\<lparr>l_conn := set_writable_armed b (l_conn s)\<rparr>"
| "link_step s (SetCodel p) = s\<lparr>l_conn := set_codel p (l_conn s)\<rparr>"

definition accounts :: "link \<Rightarrow> bool" where
  "accounts s \<longleftrightarrow> cursor_ok (l_conn s) \<and>
     books 0 (l_inflight s - int (c_tls_unflushed (l_conn s))) (l_outbound s - int (c_tls_unflushed (l_conn s))) (l_conn s)"

text \<open>The bytes sent are whole queued frames in their order, then the sent part of the front frame.\<close>

definition whole_frames :: "link \<Rightarrow> bool" where
  "whole_frames s \<longleftrightarrow>
     (\<exists>sent. subseq (sent @ c_out (l_conn s)) (l_queued s) \<and>
        l_wire s = concat (map fst sent) @ take (c_cursor (l_conn s)) (front (c_out (l_conn s))))"

fun calm_op :: "conn_op \<Rightarrow> bool" where
  "calm_op (FlushTls now before script after) = list_all calm script"
| "calm_op _ = True"

lemma drain_ciphertext_keeps:
  assumes "drain_ciphertext rs c = (st, c')"
  shows "\<exists>u. c' = c\<lparr>c_tls_unflushed := u\<rparr>"
  using assms
  by (intro exI [of _ "c_tls_unflushed c'"]) (auto simp: drain_ciphertext_def split: sum.splits bool.splits)

lemma unflushed_keeps [simp]:
  "books e g og (c\<lparr>c_tls_unflushed := u\<rparr>) \<longleftrightarrow> books e g og c" "cursor_ok (c\<lparr>c_tls_unflushed := u\<rparr>) \<longleftrightarrow> cursor_ok c"
  "stream_rel c w (d\<lparr>c_tls_unflushed := u\<rparr>) \<longleftrightarrow> stream_rel c w d" "stream_rel (c\<lparr>c_tls_unflushed := u\<rparr>) w d \<longleftrightarrow> stream_rel c w d"
  "kept c (d\<lparr>c_tls_unflushed := u\<rparr>) \<longleftrightarrow> kept c d" "kept (c\<lparr>c_tls_unflushed := u\<rparr>) d \<longleftrightarrow> kept c d"
  by (simp_all add: books_def cursor_ok_def stream_rel_def kept_def)

lemma tls_phases_correct:
  assumes "books 0 g og c" and "cursor_ok c" and "flush_tls_phases now before script after c = (st, wire, c')"
  shows "books 0 g og c' \<and> cursor_ok c' \<and> kept c c' \<and> (st = Some Drained \<longrightarrow> c_out c' = []) \<and>
    (list_all calm script \<longrightarrow> stream_rel c wire c')"
proof -
  obtain o1 c1 where d1: "drain_ciphertext before c = (o1, c1)" by fastforce
  then obtain u where c1: "c1 = c\<lparr>c_tls_unflushed := u\<rparr>" using drain_ciphertext_keeps by blast
  show ?thesis
  proof (cases o1)
    case (Some st1)
    with assms d1 c1 show ?thesis
      by (auto simp: flush_tls_phases_def stream_rel_refl drain_ciphertext_def split: sum.splits bool.splits)
  next
    case None
    obtain st2 w2 c2 where fl: "flush_coalesced tls_write_batch TLS_BATCH_MAX_BYTES now script c1 = (st2, w2, c2)"
      using prod_cases3 by blast
    obtain o3 c3 where d3: "drain_ciphertext after c2 = (o3, c3)" by fastforce
    then obtain u3 where c3: "c3 = c2\<lparr>c_tls_unflushed := u3\<rparr>" using drain_ciphertext_keeps by blast
    have ls: "list_all calm script \<longrightarrow> list_all (sound_reply tls_write_batch) script"
      by (auto simp: list_all_iff sound_tls)
    have "books 0 g og c1" "cursor_ok c1" using assms(1,2) by (simp_all add: c1)
    from flush_correct [OF this fl] ls have fc: "books 0 g og c2 \<and> cursor_ok c2 \<and> kept c c2 \<and>
      (st2 = Some Drained \<longrightarrow> c_out c2 = []) \<and> (list_all calm script \<longrightarrow> stream_rel c w2 c2)" by (auto simp: c1)
    have "o3 \<noteq> Some Drained" using d3 by (auto simp: drain_ciphertext_def split: sum.splits bool.splits)
    then show ?thesis
      using assms(3) d1 None fl d3 c3 fc
      by (auto simp: flush_tls_phases_def split: if_splits option.splits)
  qed
qed

lemma keeps_unflushed_tcp: "keeps_unflushed tcp_write_batch"
  by (simp add: keeps_unflushed_def tcp_write_batch_def split: io_result.split)

lemma flush_plain_correct:
  assumes "books 0 g og c" and "cursor_ok c" and "flush_plain now script c = (st, wire, c')"
  shows "books 0 g og c' \<and> cursor_ok c' \<and> kept c c' \<and> (st = Some Drained \<longrightarrow> c_out c' = []) \<and>
    c_tls_unflushed c' = c_tls_unflushed c \<and> stream_rel c wire c'"
  using flush_correct [OF assms(1,2) assms(3) [unfolded flush_plain_def]] keeps_unflushed_tcp
  by (simp add: list_all_iff)

lemma flush_tls_correct:
  assumes "books 0 g og c" and "cursor_ok c" and "flush_tls now before script after c = (st, wire, c')"
    and "g' = g + int (c_tls_unflushed c)" and "og' = og + int (c_tls_unflushed c)"
  shows "books 0 (g' - int (c_tls_unflushed c')) (og' - int (c_tls_unflushed c')) c' \<and> cursor_ok c' \<and> kept c c' \<and>
    (st = Some Drained \<longrightarrow> c_out c' = []) \<and> (list_all calm script \<longrightarrow> stream_rel c wire c')"
proof -
  obtain c1 where ph: "flush_tls_phases now before script after c = (st, wire, c1)"
    and c': "c' = c1\<lparr>c_inflight_delta := c_inflight_delta c1 + (int (c_tls_unflushed c1) - int (c_tls_unflushed c)),
      c_outbound_delta := c_outbound_delta c1 + (int (c_tls_unflushed c1) - int (c_tls_unflushed c))\<rparr>"
    using assms(3) by (auto simp: flush_tls_def Let_def split: prod.splits)
  from tls_phases_correct [OF assms(1,2) ph] show ?thesis
    using assms(4,5) by (auto simp: c' books_def cursor_ok_def stream_rel_def kept_def)
qed

interpretation link: machine link_step accounts
proof
  fix s c
  assume s: "accounts s"
  let ?u = "int (c_tls_unflushed (l_conn s))"
  have b: "books 0 (l_inflight s - ?u) (l_outbound s - ?u) (l_conn s)" and k: "cursor_ok (l_conn s)"
    using s by (simp_all add: accounts_def)
  show "accounts (link_step s c)"
  proof (cases c)
    case (Queue frame now)
    obtain n c' where q: "conn_queue frame now (l_conn s) = (n, c')" by fastforce
    with queue_correct [OF q b k refl] Queue show ?thesis by (simp add: accounts_def)
  next
    case (FlushPlain now script)
    obtain st wire c' where f: "flush_plain now script (l_conn s) = (st, wire, c')" using prod_cases3 by blast
    with flush_plain_correct [OF b k f] FlushPlain show ?thesis by (simp add: accounts_def)
  next
    case (FlushTls now before script "after")
    obtain st wire c' where f: "flush_tls now before script after (l_conn s) = (st, wire, c')" using prod_cases3 by blast
    with flush_tls_correct [OF b k f refl refl] FlushTls show ?thesis by (simp add: accounts_def)
  qed (use b k in \<open>auto simp: accounts_def books_def cursor_ok_def set_reassembly_bytes_def set_frame_buffer_bytes_def
      take_inflight_delta_def take_outbound_delta_def take_codel_dropped_def take_drophead_dropped_def
      set_writable_armed_def set_codel_def\<close>)
qed

lemma accounts_new: "accounts (link_new hw)"
  by (simp add: accounts_def link_new_def conn_new_def books_def cursor_ok_def)

lemma whole_frames_stream:
  assumes "whole_frames s" and "stream_rel (l_conn s) wire c"
  shows "whole_frames (s\<lparr>l_conn := c, l_wire := l_wire s @ wire\<rparr>)"
proof -
  from assms obtain s1 s2 where 1: "subseq (s1 @ c_out (l_conn s)) (l_queued s)"
    "l_wire s = concat (map fst s1) @ take (c_cursor (l_conn s)) (front (c_out (l_conn s)))"
    and 2: "subseq (s2 @ c_out c) (c_out (l_conn s))"
    "take (c_cursor (l_conn s)) (front (c_out (l_conn s))) @ wire = concat (map fst s2) @ take (c_cursor c) (front (c_out c))"
    by (auto simp: whole_frames_def stream_rel_def)
  have "subseq ((s1 @ s2) @ c_out c) (l_queued s)"
    using subseq_order.trans [OF list_emb_append_mono [OF subseq_order.refl 2(1)] 1(1)] by simp
  then show ?thesis using 1(2) 2(2) unfolding whole_frames_def by (intro exI [of _ "s1 @ s2"]) simp
qed

lemma whole_frames_same:
  assumes "whole_frames s" and "c_out c = c_out (l_conn s)" and "c_cursor c = c_cursor (l_conn s)"
  shows "whole_frames (s\<lparr>l_conn := c\<rparr>)"
  using assms by (simp add: whole_frames_def)

lemma whole_frames_queue:
  assumes "accounts s" and "whole_frames s" and q: "conn_queue frame now (l_conn s) = (n, c)"
  shows "whole_frames (s\<lparr>l_conn := c, l_queued := l_queued s @ [(frame, now)]\<rparr>)"
proof -
  let ?c = "l_conn s"
  define locked where "locked = (if 0 < c_cursor ?c then 1 else 0 :: nat)"
  have "books 0 (l_inflight s - int (c_tls_unflushed ?c)) (l_outbound s - int (c_tls_unflushed ?c)) ?c" "cursor_ok ?c"
    using assms(1) by (simp_all add: accounts_def)
  note qc = queue_correct [OF q this locked_def]
  obtain sent where sent: "subseq (sent @ c_out ?c) (l_queued s)"
    "l_wire s = concat (map fst sent) @ take (c_cursor ?c) (front (c_out ?c))"
    using assms(2) by (auto simp: whole_frames_def)
  have "subseq (take locked (c_out ?c) @ drop (locked + n) (c_out ?c)) (c_out ?c)"
    using list_emb_append_mono [OF subseq_order.refl suffix_imp_subseq [OF suffix_drop], of "take locked (c_out ?c)" n "drop locked (c_out ?c)"]
    by (simp add: add.commute)
  then have "subseq (sent @ take locked (c_out ?c) @ drop (locked + n) (c_out ?c)) (l_queued s)"
    using sent(1) by (meson list_emb_append_mono subseq_order.refl subseq_order.trans)
  then have "subseq ((sent @ take locked (c_out ?c) @ drop (locked + n) (c_out ?c)) @ [(frame, now)]) (l_queued s @ [(frame, now)])"
    by (rule list_emb_append_mono) simp
  then have "subseq (sent @ c_out c) (l_queued s @ [(frame, now)])" using qc by simp
  moreover have "take (c_cursor ?c) (front (c_out ?c)) = take (c_cursor c) (front (c_out c))"
  proof (cases "0 < c_cursor ?c")
    case True
    then have "c_out ?c \<noteq> []" using assms(1) by (auto simp: accounts_def cursor_ok_def front_def)
    with True qc show ?thesis by (cases "c_out ?c") (simp_all add: locked_def front_def)
  qed (use qc in simp)
  ultimately show ?thesis using sent(2) by (auto simp: whole_frames_def)
qed

lemma whole_frames_step:
  assumes "accounts s" and "whole_frames s" and "calm_op c"
  shows "whole_frames (link_step s c)"
proof -
  let ?u = "int (c_tls_unflushed (l_conn s))"
  have b: "books 0 (l_inflight s - ?u) (l_outbound s - ?u) (l_conn s)" and k: "cursor_ok (l_conn s)"
    using assms(1) by (simp_all add: accounts_def)
  show ?thesis
  proof (cases c)
    case (Queue frame now)
    obtain n c' where q: "conn_queue frame now (l_conn s) = (n, c')" by fastforce
    with whole_frames_queue [OF assms(1,2) q] Queue show ?thesis by simp
  next
    case (FlushPlain now script)
    obtain st wire c' where f: "flush_plain now script (l_conn s) = (st, wire, c')" using prod_cases3 by blast
    with flush_plain_correct [OF b k f] FlushPlain show ?thesis by (simp add: whole_frames_stream [OF assms(2)])
  next
    case (FlushTls now before script "after")
    obtain st wire c' where f: "flush_tls now before script after (l_conn s) = (st, wire, c')" using prod_cases3 by blast
    with flush_tls_correct [OF b k f refl refl] FlushTls assms(3) show ?thesis
      by (simp add: whole_frames_stream [OF assms(2)])
  qed (use assms(2) in \<open>auto simp: whole_frames_def set_reassembly_bytes_def set_frame_buffer_bytes_def
      take_inflight_delta_def take_outbound_delta_def take_codel_dropped_def take_drophead_dropped_def
      set_writable_armed_def set_codel_def\<close>)
qed

lemma whole_frames_run:
  "accounts s \<Longrightarrow> whole_frames s \<Longrightarrow> list_all calm_op cs \<Longrightarrow> whole_frames (foldl link_step s cs)"
  by (induction cs arbitrary: s) (simp_all add: whole_frames_step link.step_invar)


section \<open>Properties of a connection\<close>


definition example_ops :: "conn_op list" where
  "example_ops = [Queue [1, 2, 3] 0, Queue [4] 0, FlushPlain 0 [Wrote 2, EWouldBlock]]"

lemmas run_eval = link_new_def conn_new_def conn_queue_def drop_head.simps codel_dequeue_def codel_enabled_def
  CODEL_DISABLED_def gather.simps WRITEV_MAX_SLICES_def WRITEV_MAX_BYTES_def TLS_BATCH_MAX_BYTES_def release_def
  tcp_write_batch_def tls_write_batch_def flush_plain_def flush_tls_def flush_tls_phases_def drain_ciphertext_def Let_def

lemma example_run:
  "l_wire (foldl link_step (link_new 100) example_ops) = [1, 2]"
  "c_out (l_conn (foldl link_step (link_new 100) example_ops)) = [([1, 2, 3], 0), ([4], 0)]"
  by (simp_all add: example_ops_def run_eval)



text \<open>
  The byte accounting is exact for every sequence of operations, with every outcome of the
  socket and of the TLS library: what the worker has folded in, plus the change it has not
  taken yet, is what the connection holds; the queue counter is the size of the queue.
\<close>

lemma folded_totals_exact:
  "let s = foldl link_step (link_new high_water) ops; c = l_conn s
   in l_inflight s + c_inflight_delta c = int (accounted_bytes c) \<and>
      l_outbound s + c_outbound_delta c = int (outbound_bytes c) \<and>
      c_out_bytes c = sum_list (map (length \<circ> fst) (c_out c))"
  using link.run_invar [OF accounts_new [of high_water], of ops]
  by (auto simp: Let_def accounts_def books_def accounted_bytes_def outbound_bytes_def sum_len_def)


definition crowded :: conn where
  "crowded = l_conn (foldl link_step (link_new 5) [Queue [1, 2, 3] 0, Queue [4, 5] 0, FlushPlain 0 [Wrote 1, EWouldBlock]])"


text \<open>The bytes still to be written, and what one write takes off them.\<close>

definition pending :: "conn \<Rightarrow> nat" where
  "pending c = sum_len (c_out c) - c_cursor c"

definition no_empty_frame :: "conn \<Rightarrow> bool" where
  "no_empty_frame c \<longleftrightarrow> (\<forall>f\<in>set (c_out c). fst f \<noteq> [])"

lemma sum_len_subseq: "subseq q r \<Longrightarrow> sum_len q \<le> sum_len r"
  by (induction rule: list_emb.induct) auto

lemma no_empty_subseq: "subseq (c_out d) (c_out c) \<Longrightarrow> no_empty_frame c \<Longrightarrow> no_empty_frame d"
  unfolding no_empty_frame_def by (auto elim!: list_emb_set)

lemma stream_pending:
  assumes "stream_rel c wire d" and "cursor_ok c" and "cursor_ok d"
  shows "pending d + length wire \<le> pending c"
proof -
  from assms(1) obtain sent where s: "subseq (sent @ c_out d) (c_out c)"
    "take (c_cursor c) (front (c_out c)) @ wire = concat (map fst sent) @ take (c_cursor d) (front (c_out d))"
    by (auto simp: stream_rel_def)
  have cur: "length (take (c_cursor x) (front (c_out x))) = c_cursor x" "c_cursor x \<le> sum_len (c_out x)" if "cursor_ok x" for x
    using that by (cases "c_out x"; auto simp: cursor_ok_def front_def)+
  from arg_cong [OF s(2), of length] have "c_cursor c + length wire = sum_len sent + c_cursor d"
    using cur assms(2,3) by (simp only: length_append length_concat_fst)
  with sum_len_subseq [OF s(1)] cur(2) [OF assms(2)] cur(2) [OF assms(3)] show ?thesis
    by (simp add: pending_def)
qed

lemma stream_no_empty:
  assumes "stream_rel c wire d" and "no_empty_frame c"
  shows "no_empty_frame d"
proof -
  from assms(1) obtain sent where "subseq (sent @ c_out d) (c_out c)" by (auto simp: stream_rel_def)
  moreover have "subseq (c_out d) (sent @ c_out d)" by (simp add: suffix_imp_subseq suffix_def)
  ultimately have "subseq (c_out d) (c_out c)" by (rule subseq_order.trans [rotated])
  with assms(2) show ?thesis by (rule no_empty_subseq [rotated])
qed

lemma pending_zero:
  assumes "pending c = 0" and "no_empty_frame c" and "cursor_ok c"
  shows "c_out c = []"
proof (cases "c_out c")
  case (Cons f q)
  with assms show ?thesis by (auto simp: pending_def no_empty_frame_def cursor_ok_def front_def)
qed

fun progress :: "io_result \<Rightarrow> bool" where
  "progress (Wrote n) \<longleftrightarrow> 0 < n"
| "progress _ \<longleftrightarrow> False"

lemma flush_drains:
  assumes "books 0 g og c" and "cursor_ok c" and "no_empty_frame c"
    and "\<forall>a\<in>set script. progress a \<or> a = EInterrupted" and "pending c \<le> length (filter progress script)"
  shows "fst (flush_coalesced tcp_write_batch m now script c) = Some Drained"
  using assms
proof (induction script arbitrary: c)
  case Nil
  define c1 where "c1 = codel_dequeue (0 < c_cursor c) now c"
  note c1 = codel_stream [OF Nil.prems(1,2) c1_def]
  have "c_out c = []" using Nil.prems by (intro pending_zero) auto
  then have "c_out c1 = []" using c1 by (auto simp: stream_rel_def dest!: list_emb_length)
  then show ?case by (simp add: Let_def flip: c1_def)
next
  case (Cons a script)
  define c1 where "c1 = codel_dequeue (0 < c_cursor c) now c"
  note c1 = codel_stream [OF Cons.prems(1,2) c1_def]
  show ?case
  proof (cases "c_out c1 = []")
    case True
    then show ?thesis by (simp add: Let_def flip: c1_def)
  next
    case False
    obtain batch c2 where gt: "gather m now (c_cursor c1) [] 0 c1 = (batch, c2)" by fastforce
    define slices where "slices = drop (c_cursor c1) (concat (map fst batch))"
    define r where "r = c2\<lparr>c_tls_unflushed := c_tls_unflushed c2, c_out := batch @ c_out c2\<rparr>"
    have b1: "books 0 g og c1" "cursor_ok c1" "stream_rel c [] c1" using c1 by blast+
    have ne1: "no_empty_frame c1" and p1: "pending c1 \<le> pending c"
      using stream_no_empty [OF b1(3) Cons.prems(3)] stream_pending [OF b1(3) Cons.prems(2) b1(2)] by simp_all
    obtain res taken where si: "tcp_write_batch a slices (c_tls_unflushed c2) = (res, taken, c_tls_unflushed c2)"
      and res: "res = a"
      by (cases a) (simp_all add: tcp_write_batch_def)
    note step = flush_step [where sink = tcp_write_batch and a = a and script = script, OF c1_def False gt si [unfolded slices_def] refl r_def]
    show ?thesis
    proof (cases "progress a")
      case False
      then have a: "a = EInterrupted" using Cons.prems(4) by simp
      have rs: "books 0 g og r" "cursor_ok r" "stream_rel c1 [] r"
        using restore_stream [OF b1(1,2) \<open>c_out c1 \<noteq> []\<close> gt r_def] by blast+
      have "pending r \<le> pending c" using stream_pending [OF rs(3) b1(2) rs(2)] p1 by simp
      then have "fst (flush_coalesced tcp_write_batch m now script r) = Some Drained"
        using Cons.prems(4,5) False rs stream_no_empty [OF rs(3) ne1] by (intro Cons.IH) auto
      then show ?thesis using step a res by (auto split: prod.splits simp del: flush_coalesced.simps)
    next
      case True
      then obtain n where a: "a = Wrote (Suc n)" by (cases a) (auto simp: gr0_conv_Suc)
      obtain left cur c4 where se: "settle (Suc n) (c_cursor c1) batch (c2\<lparr>c_tls_unflushed := c_tls_unflushed c2\<rparr>) = (left, cur, c4)"
        using prod_cases3 by blast
      define d where "d = c4\<lparr>c_cursor := cur, c_out := left @ c_out c4\<rparr>"
      have ds: "books 0 g og d" "cursor_ok d" "stream_rel c1 (take (Suc n) slices) d"
        using settle_stream [OF b1(1,2) False gt se d_def refl] by (simp_all add: slices_def)
      have "slices \<noteq> []"
      proof -
        have "books (sum_len []) g og c1" using b1(1) by simp
        from gather_correct [OF this gt] False have "batch \<noteq> []" "hd batch = hd (c_out c1)" by auto
        then have "length (front (c_out c1)) \<le> sum_len batch" by (cases batch) (simp_all add: front_hd [OF False])
        moreover have "c_cursor c1 < length (front (c_out c1))"
          using b1(2) ne1 False by (cases "c_out c1") (auto simp: cursor_ok_def front_def no_empty_frame_def)
        ultimately show ?thesis by (simp add: slices_def length_concat_fst)
      qed
      then have "pending d < pending c"
        using stream_pending [OF ds(3) b1(2) ds(2)] p1 by (cases slices) auto
      then have "fst (flush_coalesced tcp_write_batch m now script d) = Some Drained"
        using Cons.prems(4,5) True ds stream_no_empty [OF ds(3) ne1] by (intro Cons.IH) auto
      then show ?thesis using step a res se by (auto simp: d_def split: prod.splits simp del: flush_coalesced.simps)
    qed
  qed
qed

text \<open>
  C29. A plain flush that keeps being able to write drains the queue: if every system call
  writes at least a byte or is interrupted, as many successful writes as there are bytes
  pending are enough, and the loop ends with the queue empty.
\<close>

theorem flush_plain_drains:
  assumes "l_conn (foldl link_step (link_new high_water) ops) = c" and "no_empty_frame c"
    and "\<forall>a\<in>set script. progress a \<or> a = EInterrupted" and "pending c \<le> length (filter progress script)"
    and "flush_plain now script c = (st, wire, c')"
  shows "st = Some Drained \<and> c_out c' = [] \<and> c_cursor c' = 0"
proof -
  have "accounts (foldl link_step (link_new high_water) ops)" by (rule link.run_invar [OF accounts_new])
  then obtain g og where b: "books 0 g og c" "cursor_ok c" using assms(1) by (auto simp: accounts_def)
  have st: "st = Some Drained"
    using flush_drains [OF b assms(2-4), of WRITEV_MAX_BYTES now] assms(5) by (simp add: flush_plain_def)
  with flush_plain_correct [OF b assms(5)] show ?thesis by (auto simp: cursor_ok_def front_def)
qed

theorem flush_plain_drains_witness:
  "fst (flush_plain 0 [EInterrupted, Wrote 1, Wrote 1, Wrote 1, Wrote 1] crowded) = Some Drained"
proof -
  have c: "c_cursor crowded = 1" "c_out crowded = [([1, 2, 3], 0), ([4, 5], 0)]"
    by (simp_all add: crowded_def run_eval)
  obtain st wire c' where f: "flush_plain 0 [EInterrupted, Wrote 1, Wrote 1, Wrote 1, Wrote 1] crowded = (st, wire, c')"
    using prod_cases3 by blast
  show ?thesis
    unfolding f using flush_plain_drains [OF crowded_def [symmetric] _ _ _ f]
    by (simp add: no_empty_frame_def pending_def c)
qed

text \<open>What the controlled delay drops.\<close>

lemma codel_loop_drops:
  "\<exists>stale. c_out c = stale @ c_out (codel_loop l now c) \<and>
     (\<forall>f\<in>set stale. \<not> l \<and> sat_mul (target_ns (c_codel c)) 2 < sat_sub now (snd f)) \<and>
     c_codel_dropped (codel_loop l now c) = c_codel_dropped c + of_nat (length stale)"
proof (induction l now c rule: codel_loop.induct)
  case (1 l now c)
  show ?case
  proof (cases "c_out c")
    case Nil
    then show ?thesis by (simp add: codel_loop.simps [of l now c])
  next
    case (Cons e rest)
    obtain victim enq where e: "e = (victim, enq)" by fastforce
    define c1 where "c1 = c\<lparr>c_codel_state := note_interval (c_codel c) now (sat_sub now enq) (c_codel_state c)\<rparr>"
    define go where "go \<longleftrightarrow> \<not> l \<and> is_overloaded (c_codel_state c1) \<and>
      sat_mul (target_ns (c_codel c)) 2 < sat_sub now enq \<and> 1 < length (c_out c)"
    define c2 where "c2 = release (length victim) (c1\<lparr>c_out := rest, c_codel_dropped := c_codel_dropped c + 1\<rparr>)"
    have step: "codel_loop l now c = (if go then codel_loop l now c2 else c1)"
      by (subst codel_loop.simps) (simp add: Cons e Let_def c1_def c2_def go_def)
    show ?thesis
    proof (cases go)
      case False
      with step show ?thesis by (intro exI [of _ "[]"]) (simp add: c1_def)
    next
      case True
      then obtain stale where IH: "c_out c2 = stale @ c_out (codel_loop l now c2)"
          "\<forall>f\<in>set stale. \<not> l \<and> sat_mul (target_ns (c_codel c2)) 2 < sat_sub now (snd f)"
          "c_codel_dropped (codel_loop l now c2) = c_codel_dropped c2 + of_nat (length stale)"
        using "1.IH" [OF Cons e [symmetric] refl c1_def] by (auto simp: go_def c2_def)
      have "c_codel c2 = c_codel c" "c_out c2 = rest" "c_codel_dropped c2 = c_codel_dropped c + 1"
        by (simp_all add: c2_def c1_def release_def)
      with IH True step Cons e show ?thesis by (intro exI [of _ "e # stale"]) (auto simp: go_def)
    qed
  qed
qed

lemma codel_loop_healthy:
  assumes "\<not> is_overloaded (c_codel_state c)" and "now < interval_end (c_codel_state c)"
  shows "c_out (codel_loop l now c) = c_out c"
  using assms by (cases "c_out c") (auto simp: codel_loop.simps [of l now c] note_interval_def Let_def)

text \<open>
  C31. Controlled delay drops only from the old end of the queue, never the frame that is partly
  sent and never the last frame, only frames that waited more than twice the target, and none
  at all while it is disabled or while a healthy interval is still running; the drop counter
  grows by the number of frames dropped.
\<close>

theorem codel_drops_only_stale:
  assumes "books 0 g og c" and "c' = codel_dequeue front_locked now c"
  shows "\<exists>stale. c_out c = stale @ c_out c' \<and>
     (\<forall>f\<in>set stale. sat_mul (target_ns (c_codel c)) 2 < sat_sub now (snd f)) \<and>
     c_codel_dropped c' = c_codel_dropped c + of_nat (length stale) \<and>
     (c_out c \<noteq> [] \<longrightarrow> c_out c' \<noteq> []) \<and>
     (front_locked \<or> \<not> codel_enabled (c_codel c) \<or>
      \<not> is_overloaded (c_codel_state c) \<and> now < interval_end (c_codel_state c) \<longrightarrow> stale = [])"
proof (cases "codel_enabled (c_codel c)")
  case True
  then have c': "c' = codel_loop front_locked now c" using assms(2) by (simp add: codel_dequeue_def)
  obtain stale where s: "c_out c = stale @ c_out c'"
      "\<forall>f\<in>set stale. \<not> front_locked \<and> sat_mul (target_ns (c_codel c)) 2 < sat_sub now (snd f)"
      "c_codel_dropped c' = c_codel_dropped c + of_nat (length stale)"
    using codel_loop_drops c' by blast
  have "front_locked \<Longrightarrow> stale = []" using s(2) by (cases stale) auto
  moreover have "\<not> is_overloaded (c_codel_state c) \<and> now < interval_end (c_codel_state c) \<Longrightarrow> stale = []"
    using s(1) codel_loop_healthy c' by fastforce
  ultimately show ?thesis using s codel_dequeue_correct [OF assms] True by (intro exI [of _ stale]) blast
next
  case False
  then show ?thesis using assms(2) by (intro exI [of _ "[]"]) (simp add: codel_dequeue_def)
qed

definition stale_conn :: conn where
  "stale_conn = (l_conn (foldl link_step (link_new 100) [Queue [1] 0, Queue [2] 0, SetCodel CODEL_DEFAULT]))
     \<lparr>c_codel_state := \<lparr>interval_min = None, interval_end = 1000000000, is_overloaded = True\<rparr>\<rparr>"

theorem codel_drops_only_stale_witness:
  "c_out (codel_dequeue False 20000000 stale_conn) = [([2], 0)] \<and>
   (\<exists>stale. [([1], 0), ([2], 0)] = stale @ [([2], 0)] \<and> (\<forall>f\<in>set stale. (10000000::u64) < sat_sub 20000000 (snd f)))"
proof -
  have q: "c_out stale_conn = [([1], 0), ([2], 0)]" "c_codel stale_conn = CODEL_DEFAULT"
    by (simp_all add: stale_conn_def run_eval set_codel_def)
  have b: "books 0 0 0 stale_conn" by (simp add: stale_conn_def run_eval set_codel_def books_def)
  have r: "c_out (codel_dequeue False 20000000 stale_conn) = [([2], 0)]"
    by (simp add: stale_conn_def run_eval set_codel_def CODEL_DEFAULT_def codel_loop.simps note_interval_def
        sat_sub_def sat_mul_def)
  have two: "sat_mul (target_ns CODEL_DEFAULT) 2 = 10000000" by (simp add: CODEL_DEFAULT_def sat_mul_def)
  from codel_drops_only_stale [OF b refl, of False 20000000] r show ?thesis by (auto simp: q two)
qed

text \<open>Draining a buffer, in one go or as the bytes arrive.\<close>

lemma drain_frames_append:
  "drain_frames buf limit = Inr (fs, rest) \<Longrightarrow>
   drain_frames (buf @ later) limit = map_sum id (map_prod (append fs) id) (drain_frames (rest @ later) limit)"
proof (induction buf limit arbitrary: fs rest rule: drain_frames.induct)
  case (1 buf limit)
  show ?case
  proof (cases "parse buf limit")
    case (Inl e)
    with "1.prems" have "fs = []" "rest = buf" by (simp_all add: drain_frames.simps [of buf] split: parse_error.splits)
    then show ?thesis by (cases "drain_frames (buf @ later) limit") auto
  next
    case (Inr fr)
    obtain f r where fr: "fr = (f, r)" by fastforce
    with "1.prems" Inr obtain gs where r: "drain_frames r limit = Inr (gs, rest)" and fs: "fs = f # gs"
      by (auto simp: drain_frames.simps [of buf] split: sum.splits)
    have "parse (buf @ later) limit = Inr (f, r @ later)" using parse_append [of buf limit later] Inr fr by simp
    then have "drain_frames (buf @ later) limit = map_sum id (map_prod (Cons f) id) (drain_frames (r @ later) limit)"
      by (simp add: drain_frames.simps [of "buf @ later"] split: sum.splits prod.splits)
    also have "\<dots> = map_sum id (map_prod (Cons f \<circ> append gs) id) (drain_frames (rest @ later) limit)"
      using "1.IH" [OF Inr fr [symmetric] r]
      by (cases "drain_frames (rest @ later) limit") auto
    finally show ?thesis by (cases "drain_frames (rest @ later) limit") (auto simp: fs)
  qed
qed

text \<open>The reads of a connection: each appends to the remainder of the one before.\<close>

fun read_all :: "byte list list \<Rightarrow> byte list \<Rightarrow> nat \<Rightarrow> conn_error + frame list \<times> byte list" where
  "read_all [] buf limit = Inr ([], buf)"
| "read_all (ch # chs) buf limit =
     (case read_frames (read_plain [ReadBytes ch, ReadWouldBlock] buf) limit of
        Some (Inr (fs, rest)) \<Rightarrow> map_sum id (map_prod (append fs) id) (read_all chs rest limit)
      | Some (Inl e) \<Rightarrow> Inl e
      | None \<Rightarrow> Inl ConnClosed)"

lemma drain_frames_error_append:
  "drain_frames buf limit = Inl e \<Longrightarrow> drain_frames (buf @ later) limit = Inl e"
proof (induction buf limit rule: drain_frames.induct)
  case (1 buf limit)
  show ?case
  proof (cases "parse buf limit")
    case (Inl pe)
    with "1.prems" parse_append [of buf limit later] show ?thesis
      by (cases pe) (simp_all add: drain_frames.simps [of buf] drain_frames.simps [of "buf @ later"])
  next
    case (Inr fr)
    obtain f r where fr: "fr = (f, r)" by fastforce
    with "1.prems" Inr have r: "drain_frames r limit = Inl e"
      by (auto simp: drain_frames.simps [of buf] split: sum.splits)
    have "parse (buf @ later) limit = Inr (f, r @ later)" using parse_append [of buf limit later] Inr fr by simp
    with "1.IH" [OF Inr fr [symmetric] r] show ?thesis by (simp add: drain_frames.simps [of "buf @ later"])
  qed
qed

lemma drain_frames_rest:
  "drain_frames buf limit = Inr (fs, rest) \<Longrightarrow> drain_frames rest limit = Inr ([], rest)"
proof (induction buf limit arbitrary: fs rule: drain_frames.induct)
  case (1 buf limit)
  show ?case
  proof (cases "parse buf limit")
    case (Inl pe)
    with "1.prems" have "rest = buf \<and> fs = []" by (simp add: drain_frames.simps [of buf] split: parse_error.splits)
    with "1.prems" show ?thesis by simp
  next
    case (Inr fr)
    obtain f r where fr: "fr = (f, r)" by fastforce
    with "1.prems" Inr obtain gs where "drain_frames r limit = Inr (gs, rest)"
      by (auto simp: drain_frames.simps [of buf] split: sum.splits)
    then show ?thesis by (rule "1.IH" [OF Inr fr [symmetric]])
  qed
qed

lemma read_all_drain:
  assumes "[] \<notin> set chunks" and "drain_frames buf limit = Inr ([], buf)"
    and "drain_frames (buf @ concat chunks) limit = Inr (fs, rest)"
  shows "read_all chunks buf limit = Inr (fs, rest)"
  using assms
proof (induction chunks arbitrary: buf fs)
  case (Cons ch chs)
  show ?case
  proof (cases "drain_frames (buf @ ch) limit")
    case (Inl e)
    with drain_frames_error_append [OF Inl, of "concat chs"] Cons.prems(3) show ?thesis by simp
  next
    case (Inr gr)
    obtain gs r where gr: "gr = (gs, r)" by fastforce
    with drain_frames_append [of "buf @ ch" limit gs r "concat chs"] Inr Cons.prems(3)
    obtain hs where hs: "drain_frames (r @ concat chs) limit = Inr (hs, rest)" and fs: "fs = gs @ hs"
      by (cases "drain_frames (r @ concat chs) limit") auto
    have "read_all chs r limit = Inr (hs, rest)"
      using Cons.prems(1) drain_frames_rest [of "buf @ ch" limit gs r] Inr gr hs by (intro Cons.IH) auto
    moreover have "ch \<noteq> []" using Cons.prems(1) by auto
    ultimately show ?thesis using Inr gr fs by (simp add: read_frames_def)
  qed
qed simp

text \<open>A frame as a client sends it, and all the frames of a stream.\<close>

record client_frame =
  cf_form :: len_form
  cf_key :: "byte list"
  cf_frame :: frame

definition cf_bytes :: "client_frame \<Rightarrow> byte list" where
  "cf_bytes f = client_encode (cf_form f) (fr_fin (cf_frame f)) (fr_opcode (cf_frame f)) (cf_key f) (fr_payload (cf_frame f))"

definition cf_ok :: "nat \<Rightarrow> client_frame \<Rightarrow> bool" where
  "cf_ok limit f \<longleftrightarrow> len_fits (cf_form f) (length (fr_payload (cf_frame f))) \<and> length (cf_key f) = 4 \<and>
     length (fr_payload (cf_frame f)) \<le> limit \<and>
     (is_control (fr_opcode (cf_frame f)) \<longrightarrow> fr_fin (cf_frame f) \<and> length (fr_payload (cf_frame f)) \<le> 125)"

lemma drain_client_frames:
  "list_all (cf_ok limit) cfs \<Longrightarrow> drain_frames (concat (map cf_bytes cfs)) limit = Inr (map cf_frame cfs, [])"
proof (induction cfs)
  case Nil
  then show ?case by (simp add: drain_frames.simps parse_def parse_header_def)
next
  case (Cons f cfs)
  have "parse (cf_bytes f @ concat (map cf_bytes cfs)) limit = Inr (cf_frame f, concat (map cf_bytes cfs))"
    using parse_client_encode [of "cf_form f"] Cons.prems by (simp add: cf_bytes_def cf_ok_def)
  with Cons show ?case by (simp add: drain_frames.simps [of "cf_bytes f @ _"])
qed

text \<open>
  C25. Whatever valid frames a client sends, with any masking keys and length forms, and however
  the network cuts their bytes into reads, the connection delivers exactly those frames in
  order with their original payloads and keeps no byte back.
\<close>

theorem reads_deliver_client_frames:
  assumes "list_all (cf_ok limit) cfs" and "concat chunks = concat (map cf_bytes cfs)" and "[] \<notin> set chunks"
  shows "read_all chunks [] limit = Inr (map cf_frame cfs, [])"
  using assms drain_client_frames [OF assms(1)]
  by (intro read_all_drain) (simp_all add: drain_frames.simps [of "[]"] parse_def parse_header_def)

theorem reads_deliver_client_frames_witness:
  "read_all [[0x81, 0x82, 1, 2], [3, 4, 0x49], [0x6B]] [] 10 =
     Inr ([\<lparr>fr_fin = True, fr_opcode = OpText, fr_payload = [0x48, 0x69]\<rparr>], [])"
  using reads_deliver_client_frames [of 10
      "[\<lparr>cf_form = Len7, cf_key = [1, 2, 3, 4], cf_frame = \<lparr>fr_fin = True, fr_opcode = OpText, fr_payload = [0x48, 0x69]\<rparr>\<rparr>]"
      "[[0x81, 0x82, 1, 2], [3, 4, 0x49], [0x6B]]"]
  by (simp add: cf_ok_def cf_bytes_def client_encode_def mask_bytes_def is_control_def)

end
