(* ===== verification/Auth.thy ===== *)
theory Auth
  imports Channel_Kind "HOL-Library.Multiset"
begin

text \<open>
  Request and subscription signatures, from \<^verbatim>\<open>src/auth\<close>: the strings that are signed, and
  the verification of channel tokens, user tokens and signed REST requests. The digests, the
  hexadecimal printing and the constant-time comparison are those of third-party crates; they
  are the parameter \<open>cr\<close>. Case mapping beyond ASCII needs the Unicode tables; they are the
  parameter \<open>uc\<close>.
\<close>


section \<open>Primitives\<close>

record crypto =
  cr_hmac_sha256 :: "byte list \<Rightarrow> byte list \<Rightarrow> byte list"
  cr_md5 :: "byte list \<Rightarrow> byte list"
  cr_hex :: "byte list \<Rightarrow> string"
  cr_ct_eq :: "byte list \<Rightarrow> byte list \<Rightarrow> bool"

text \<open>The documented behaviour of the constant-time comparison of slices of equal length.\<close>

definition ct_eq_compares :: "crypto \<Rightarrow> bool" where
  "ct_eq_compares cr \<longleftrightarrow> (\<forall>a b. length a = length b \<longrightarrow> cr_ct_eq cr a b = (a = b))"

definition hmac_sha256_hex :: "crypto \<Rightarrow> string \<Rightarrow> string \<Rightarrow> string" where
  "hmac_sha256_hex cr secret msg = cr_hex cr (cr_hmac_sha256 cr (as_bytes secret) (as_bytes msg))"

definition md5_hex :: "crypto \<Rightarrow> byte list \<Rightarrow> string" where
  "md5_hex cr data = cr_hex cr (cr_md5 cr data)"

definition constant_time_eq :: "crypto \<Rightarrow> string \<Rightarrow> string \<Rightarrow> bool" where
  "constant_time_eq cr a b =
     (if length (as_bytes a) \<noteq> length (as_bytes b) then False else cr_ct_eq cr (as_bytes a) (as_bytes b))"

definition user_message :: "string \<Rightarrow> string \<Rightarrow> string" where
  "user_message socket_id user_data = socket_id @ ''::user::'' @ user_data"

definition user_signature :: "crypto \<Rightarrow> string \<Rightarrow> string \<Rightarrow> string \<Rightarrow> string" where
  "user_signature cr secret socket_id user_data = hmac_sha256_hex cr secret (user_message socket_id user_data)"

definition channel_message :: "string \<Rightarrow> string \<Rightarrow> string option \<Rightarrow> string" where
  "channel_message socket_id channel channel_data =
     (case channel_data of
        Some cd \<Rightarrow> socket_id @ '':'' @ channel @ '':'' @ cd
      | None \<Rightarrow> socket_id @ '':'' @ channel)"

definition channel_signature :: "crypto \<Rightarrow> string \<Rightarrow> string \<Rightarrow> string \<Rightarrow> string option \<Rightarrow> string" where
  "channel_signature cr secret socket_id channel channel_data =
     hmac_sha256_hex cr secret (channel_message socket_id channel channel_data)"


section \<open>Channel and user tokens\<close>

datatype token_error = Malformed | KeyMismatch | BadSignature

fun token_error_message :: "token_error \<Rightarrow> string" where
  "token_error_message Malformed = ''Bad auth token''"
| "token_error_message KeyMismatch = ''Auth key mismatch''"
| "token_error_message BadSignature = ''Invalid signature''"

definition channel_verify ::
  "crypto \<Rightarrow> string \<Rightarrow> string \<Rightarrow> string \<Rightarrow> string \<Rightarrow> string option \<Rightarrow> string \<Rightarrow> token_error + unit" where
  "channel_verify cr app_key app_secret socket_id channel channel_data token =
     (case split_once CHR '':'' token of
        None \<Rightarrow> Inl Malformed
      | Some (key, sig) \<Rightarrow>
        if key \<noteq> app_key then Inl KeyMismatch
        else if constant_time_eq cr sig (channel_signature cr app_secret socket_id channel channel_data) then Inr ()
        else Inl BadSignature)"

definition user_verify :: "crypto \<Rightarrow> string \<Rightarrow> string \<Rightarrow> string \<Rightarrow> string \<Rightarrow> string \<Rightarrow> token_error + unit" where
  "user_verify cr app_key app_secret socket_id user_data token =
     (case split_once CHR '':'' token of
        None \<Rightarrow> Inl Malformed
      | Some (key, sig) \<Rightarrow>
        if key \<noteq> app_key then Inl KeyMismatch
        else if constant_time_eq cr sig (user_signature cr app_secret socket_id user_data) then Inr ()
        else Inl BadSignature)"


section \<open>Signed REST requests\<close>

datatype rest_auth_error =
    MissingParam
  | BadVersion
  | RestKeyMismatch
  | Expired
  | BadBodyMd5
  | RestBadSignature
  | CaseCollidingParams

definition GENERIC_AUTH_FAILURE :: string where
  "GENERIC_AUTH_FAILURE = ''invalid authentication''"

fun rest_error_message :: "nat \<Rightarrow> rest_auth_error \<Rightarrow> string" where
  "rest_error_message window_secs MissingParam = ''Missing auth parameters''"
| "rest_error_message window_secs BadVersion = ''Invalid auth version''"
| "rest_error_message window_secs RestKeyMismatch = GENERIC_AUTH_FAILURE"
| "rest_error_message window_secs Expired =
     ''Timestamp expired: Given timestamp not within '' @ show_nat window_secs @ ''s of server time''"
| "rest_error_message window_secs BadBodyMd5 = ''Invalid body_md5''"
| "rest_error_message window_secs RestBadSignature = ''Invalid signature: Expected HMAC SHA256 hex digest''"
| "rest_error_message window_secs CaseCollidingParams = ''Invalid query: two parameters differ only by case''"

record unicode =
  uc_to_lowercase :: "string \<Rightarrow> string"
  uc_to_uppercase :: "string \<Rightarrow> string"

definition is_ascii :: "string \<Rightarrow> bool" where
  "is_ascii s = list_all (\<lambda>c. of_char c < (128 :: nat)) s"

definition shift_letter :: "char \<Rightarrow> char \<Rightarrow> int \<Rightarrow> char \<Rightarrow> char" where
  "shift_letter lo hi d c = (if lo \<le> c \<and> c \<le> hi then char_of (of_char c + d) else c)"

definition str_to_lowercase :: "unicode \<Rightarrow> string \<Rightarrow> string" where
  "str_to_lowercase uc s =
     (if is_ascii s then map (shift_letter CHR ''A'' CHR ''Z'' 32) s else uc_to_lowercase uc s)"

definition str_to_uppercase :: "unicode \<Rightarrow> string \<Rightarrow> string" where
  "str_to_uppercase uc s =
     (if is_ascii s then map (shift_letter CHR ''a'' CHR ''z'' (- 32)) s else uc_to_uppercase uc s)"

text \<open>\<open>str::parse::<u64>\<close>.\<close>

definition parse_u64 :: "string \<Rightarrow> nat option" where
  "parse_u64 s =
     (let ds = (case s of [] \<Rightarrow> [] | c # cs \<Rightarrow> if c = CHR ''+'' then cs else s)
      in if ds \<noteq> [] \<and> list_all is_ascii_digit ds \<and> digits_value ds < 2 ^ 64
         then Some (nat (digits_value ds)) else None)"

fun join_amp :: "string list \<Rightarrow> string" where
  "join_amp [] = []"
| "join_amp [p] = p"
| "join_amp (p # q # ps) = p @ ''&'' @ join_amp (q # ps)"

abbreviation newline :: char where
  "newline \<equiv> char_of (10 :: nat)"

definition signing_string :: "unicode \<Rightarrow> string \<Rightarrow> string \<Rightarrow> (string \<times> string) list \<Rightarrow> string" where
  "signing_string uc meth path params =
     str_to_uppercase uc meth @ [newline] @ path @ [newline] @ join_amp (map (\<lambda>(k, v). k @ ''='' @ v) params)"

fun collect_signed ::
  "unicode \<Rightarrow> (string \<times> string) list \<Rightarrow> (string \<times> string) list \<Rightarrow> (string \<times> string) list option" where
  "collect_signed uc [] acc = Some acc"
| "collect_signed uc ((k, v) # params) acc =
     (if map_of acc (str_to_lowercase uc k) \<noteq> None then None
      else collect_signed uc params (bt_insert (str_to_lowercase uc k) v acc))"

definition abs_diff :: "nat \<Rightarrow> nat \<Rightarrow> nat" where
  "abs_diff a b = (if a < b then b - a else a - b)"

definition rest_verify ::
  "crypto \<Rightarrow> unicode \<Rightarrow> string \<Rightarrow> string \<Rightarrow> string \<Rightarrow> string \<Rightarrow> (string \<times> string) list \<Rightarrow> byte list \<Rightarrow> nat \<Rightarrow> nat
     \<Rightarrow> rest_auth_error + unit" where
  "rest_verify cr uc app_key app_secret meth path params body now window =
     (let get = map_of params
      in if get ''auth_version'' \<noteq> Some ''1.0'' then Inl BadVersion
         else if \<not> constant_time_eq cr (case get ''auth_key'' of Some k \<Rightarrow> k | None \<Rightarrow> []) app_key then Inl RestKeyMismatch
         else
           (case Option.bind (get ''auth_timestamp'') parse_u64 of
              None \<Rightarrow> Inl MissingParam
            | Some ts \<Rightarrow>
              if window < abs_diff now ts then Inl Expired
              else if (body \<noteq> [] \<or> get ''body_md5'' \<noteq> None) \<and>
                  \<not> (case get ''body_md5'' of Some m \<Rightarrow> constant_time_eq cr m (md5_hex cr body) | None \<Rightarrow> False)
              then Inl BadBodyMd5
              else
                (case get ''auth_signature'' of
                   None \<Rightarrow> Inl MissingParam
                 | Some signature \<Rightarrow>
                   (case collect_signed uc params [] of
                      None \<Rightarrow> Inl CaseCollidingParams
                    | Some acc \<Rightarrow>
                      if constant_time_eq cr signature
                           (hmac_sha256_hex cr app_secret
                              (signing_string uc meth path (bt_remove ''auth_signature'' acc)))
                      then Inr () else Inl RestBadSignature))))"


section \<open>Tokens\<close>

lemma append_sep_eq:
  "d \<notin> set a \<Longrightarrow> d \<notin> set b \<Longrightarrow> a @ d # r = b @ d # r' \<longleftrightarrow> a = b \<and> r = r'"
proof (induction a arbitrary: b)
  case Nil
  then show ?case by (cases b) auto
next
  case (Cons x a)
  then show ?case by (cases b) auto
qed

lemma constant_time_eq_iff: "ct_eq_compares cr \<Longrightarrow> constant_time_eq cr a b \<longleftrightarrow> a = b"
  using as_bytes_inj by (auto simp: ct_eq_compares_def constant_time_eq_def dest: injD)

lemma token_split_iff:
  "split_once CHR '':'' token = Some (key, sig) \<longleftrightarrow> token = key @ '':'' @ sig \<and> CHR '':'' \<notin> set key"
  by (simp add: split_once_Some_iff)

text \<open>
  C36. A token admits a connection exactly when it is the application's key, a colon and the
  keyed digest of the message for this socket and this purpose. This holds for channel tokens
  and for user tokens, and a key that itself contains a colon can never authenticate.
\<close>

theorem token_accepted_iff:
  assumes "ct_eq_compares cr"
  shows "(channel_verify cr key secret sid channel data token = Inr () \<longleftrightarrow>
      CHR '':'' \<notin> set key \<and> token = key @ '':'' @ hmac_sha256_hex cr secret (channel_message sid channel data))
    \<and> (user_verify cr key secret sid user_data token = Inr () \<longleftrightarrow>
      CHR '':'' \<notin> set key \<and> token = key @ '':'' @ hmac_sha256_hex cr secret (user_message sid user_data))"
proof -
  have "(case split_once CHR '':'' token of None \<Rightarrow> Inl Malformed
      | Some (k, sig) \<Rightarrow> if k \<noteq> key then Inl KeyMismatch else if constant_time_eq cr sig s then Inr () else Inl BadSignature)
      = Inr () \<longleftrightarrow> CHR '':'' \<notin> set key \<and> token = key @ '':'' @ s" for s
    using token_split_iff [of token key s] constant_time_eq_iff [OF assms]
    by (cases "split_once CHR '':'' token") (auto simp del: append_Cons split: if_splits)
  then show ?thesis
    unfolding channel_verify_def user_verify_def channel_signature_def user_signature_def by blast
qed

definition example_crypto :: crypto where
  "example_crypto = \<lparr>cr_hmac_sha256 = (\<lambda>k m. k @ m), cr_md5 = (\<lambda>m. m), cr_hex = map (\<lambda>b. char_of (unat b)), cr_ct_eq = (=)\<rparr>"

lemma example_crypto_compares: "ct_eq_compares example_crypto"
  by (simp add: ct_eq_compares_def example_crypto_def)

theorem token_accepted_iff_witness:
  "ct_eq_compares example_crypto \<and>
   channel_verify example_crypto ''k'' ''s'' ''1.2'' ''private-x'' None
     (''k:'' @ hmac_sha256_hex example_crypto ''s'' ''1.2:private-x'') = Inr () \<and>
   channel_verify example_crypto ''k'' ''s'' ''1.2'' ''private-x'' None ''k:'' \<noteq> Inr ()"
  using token_accepted_iff [OF example_crypto_compares, of "''k''" "''s''" "''1.2''" "''private-x''" None]
    example_crypto_compares
  by (simp add: channel_message_def hmac_sha256_hex_def example_crypto_def as_bytes_def)

text \<open>
  C38. A signature is good for one purpose only: for socket ids without a colon, as the server
  generates them, and channel names that pass validation, the signed messages of two channel
  subscriptions agree only if socket, channel and channel data agree, with absent data distinct
  from empty data; and a channel message is never a user message.
\<close>

theorem signed_messages_separate:
  assumes "CHR '':'' \<notin> set sid" and "CHR '':'' \<notin> set sid'"
    and "validate_channel_name channel n" and "validate_channel_name channel' n'"
  shows "(channel_message sid channel data = channel_message sid' channel' data' \<longleftrightarrow>
      sid = sid' \<and> channel = channel' \<and> data = data')
    \<and> channel_message sid channel data \<noteq> user_message sid' user_data
    \<and> (user_message sid user_data = user_message sid' user_data' \<longleftrightarrow> sid = sid' \<and> user_data = user_data')"
proof -
  have head: "sid @ '':'' @ r = sid' @ '':'' @ r' \<longleftrightarrow> sid = sid' \<and> r = r'" for r r'
    using append_sep_eq [OF assms(1,2)] by simp
  have nc: "CHR '':'' \<notin> set channel" "CHR '':'' \<notin> set channel'" "channel \<noteq> []"
    using assms(3,4) valid_name_no_colon by (auto simp: validate_channel_name_def)
  have body: "channel @ '':'' @ d = channel' @ '':'' @ d' \<longleftrightarrow> channel = channel' \<and> d = d'" for d d'
    using append_sep_eq [OF nc(1,2)] by simp
  have mixed: "channel @ '':'' @ d \<noteq> channel'" "channel \<noteq> channel' @ '':'' @ d" for d
    using nc(1,2) by auto
  define tail where "tail ch d = (case d of Some cd \<Rightarrow> ch @ '':'' @ cd | None \<Rightarrow> ch)" for ch :: string and d
  have cm: "channel_message s ch d = s @ '':'' @ tail ch d" for s ch d
    by (simp add: channel_message_def tail_def split: option.split)
  have um: "user_message s u = s @ '':'' @ '':user::'' @ u" for s u by (simp add: user_message_def)
  have "tail channel data = tail channel' data' \<longleftrightarrow> channel = channel' \<and> data = data'"
    using body mixed by (cases data; cases data') (auto simp: tail_def)
  moreover have "tail channel data \<noteq> '':user::'' @ u" for u
    using nc(1,3) by (cases channel) (auto simp: tail_def split: option.split)
  ultimately show ?thesis
    unfolding cm um head using append_sep_eq [OF assms(1,2)] by (simp del: append_Cons)
qed

theorem signed_messages_separate_witness:
  "validate_channel_name ''presence-a'' 200 \<and>
   channel_message ''1.2'' ''presence-a'' (Some []) \<noteq> channel_message ''1.2'' ''presence-a'' None \<and>
   channel_message ''1.2'' ''presence-a'' (Some ''user'') \<noteq> user_message ''1.2'' ''presence-a''"
proof -
  have v: "validate_channel_name ''presence-a'' 200"
    by (simp add: validate_channel_name_def channel_char_ok_def is_ascii_alphanumeric_def less_eq_char_def)
  have c: "CHR '':'' \<notin> set ''1.2''" by simp
  show ?thesis
    using v signed_messages_separate [OF c c v v, of "Some []" None]
      signed_messages_separate [OF c c v v, of "Some ''user''" None "''presence-a''"] by blast
qed


section \<open>Requests\<close>

lemma bt_unique:
  assumes "bt_ok a" and "bt_ok b" and "map_of a = map_of b"
  shows "a = b"
proof -
  have "set a = set b"
    using bt.entries_iff [OF assms(1)] bt.entries_iff [OF assms(2)] assms(3) by auto
  moreover have "distinct a" "distinct b" using bt_ok_distinct [OF assms(1)] bt_ok_distinct [OF assms(2)]
    by (simp_all add: distinct_map)
  ultimately show ?thesis
    using assms(1,2) bt_ok_distinct [OF assms(1)] bt_ok_distinct [OF assms(2)]
    by (intro map_sorted_distinct_set_unique [of fst]) (auto simp: bt_ok_def distinct_map strict_sorted_iff)
qed

definition lowered :: "unicode \<Rightarrow> (string \<times> string) list \<Rightarrow> (string \<times> string) list" where
  "lowered uc = map (\<lambda>(k, v). (str_to_lowercase uc k, v))"

lemma collect_signed_correct:
  assumes "bt_ok acc"
  shows "case collect_signed uc params acc of
     None \<Rightarrow> \<not> (distinct (map fst (lowered uc params)) \<and> fst ` set (lowered uc params) \<inter> dom (map_of acc) = {})
   | Some s \<Rightarrow> distinct (map fst (lowered uc params)) \<and> fst ` set (lowered uc params) \<inter> dom (map_of acc) = {} \<and>
       bt_ok s \<and> map_of s = map_of acc ++ map_of (lowered uc params)"
  using assms
proof (induction uc params acc rule: collect_signed.induct)
  case (2 uc k v params acc)
  let ?k = "str_to_lowercase uc k"
  show ?case
  proof (cases "map_of acc ?k")
    case None
    have mo: "map_of (bt_insert ?k v acc) = (map_of acc)(?k \<mapsto> v)" using "2.prems" by (simp add: bt_simps)
    have dm: "dom (map_of (bt_insert ?k v acc)) = insert ?k (dom (map_of acc))" by (simp add: mo)
    have "bt_ok (bt_insert ?k v acc)" using "2.prems" by (simp add: bt_simps)
    with "2.IH" None have IH: "case collect_signed uc params (bt_insert ?k v acc) of
       None \<Rightarrow> \<not> (distinct (map fst (lowered uc params)) \<and> fst ` set (lowered uc params) \<inter> insert ?k (dom (map_of acc)) = {})
     | Some s \<Rightarrow> distinct (map fst (lowered uc params)) \<and> fst ` set (lowered uc params) \<inter> insert ?k (dom (map_of acc)) = {} \<and>
         bt_ok s \<and> map_of s = (map_of acc)(?k \<mapsto> v) ++ map_of (lowered uc params)"
      unfolding dm unfolding mo by simp
    have lw: "lowered uc ((k, v) # params) = (?k, v) # lowered uc params" by (simp add: lowered_def)
    have m: "(map_of acc)(?k \<mapsto> v) ++ map_of (lowered uc params) = map_of acc ++ (map_of (lowered uc params))(?k \<mapsto> v)"
      if "?k \<notin> fst ` set (lowered uc params)"
      using that by (simp add: map_add_upd_left dom_map_of_conv_image_fst)
    show ?thesis
    proof (cases "collect_signed uc params (bt_insert ?k v acc)")
      case (Some s)
      with IH have s: "distinct (map fst (lowered uc params))" "?k \<notin> fst ` set (lowered uc params)"
        "fst ` set (lowered uc params) \<inter> dom (map_of acc) = {}" "bt_ok s"
        "map_of s = (map_of acc)(?k \<mapsto> v) ++ map_of (lowered uc params)" by auto
      have "map_of s = map_of acc ++ map_of ((?k, v) # lowered uc params)" unfolding s(5) m [OF s(2)] by simp
      with Some None s(1-4) show ?thesis unfolding lw by (auto simp: domIff)
    qed (use IH None in \<open>auto simp: lw domIff\<close>)
  qed (auto simp: lowered_def)
qed (simp add: lowered_def)

lemma collect_signed_some:
  assumes "collect_signed uc params [] = Some s"
  shows "distinct (map fst (lowered uc params))" and "bt_ok s" and "map_of s = map_of (lowered uc params)"
  using collect_signed_correct [of "[]" uc params] assms by (auto simp: map_add_def split: option.splits)

lemma collect_signed_distinct:
  assumes "distinct (map fst (lowered uc params))"
  obtains s where "collect_signed uc params [] = Some s"
  using collect_signed_correct [of "[]" uc params] assms by (auto split: option.splits)

lemma collect_signed_perm:
  assumes "mset params = mset params'" and "distinct (map fst params)"
  shows "collect_signed uc params [] = collect_signed uc params' []"
proof -
  have ms: "mset (lowered uc params) = mset (lowered uc params')" using assms(1) by (simp add: lowered_def)
  then have d: "distinct (map fst (lowered uc params)) \<longleftrightarrow> distinct (map fst (lowered uc params'))"
    by (metis mset_eq_imp_distinct_iff mset_map)
  show ?thesis
  proof (cases "distinct (map fst (lowered uc params))")
    case True
    then obtain s s' where s: "collect_signed uc params [] = Some s" "collect_signed uc params' [] = Some s'"
      using d collect_signed_distinct by metis
    have "map_of (lowered uc params) = map_of (lowered uc params')"
      using True d mset_eq_setD [OF ms] by (intro map_of_inject_set [THEN iffD2]) auto
    then have "s = s'" using s collect_signed_some by (intro bt_unique) metis+
    with s show ?thesis by simp
  next
    case False
    with d collect_signed_some show ?thesis by (metis option.exhaust)
  qed
qed

text \<open>
  Verification of a signed REST request is a function of the request: it does not depend on
  the order in which the parameters are held. An accepted request carries this application's
  key, a timestamp within the window, the digest of the received body whenever there is a body
  or a digest was signed, and the keyed digest of method, path and all other parameters with
  lower-cased distinct names in increasing order.
\<close>

lemma rest_verify_sound:
  assumes "ct_eq_compares cr" and "distinct (map fst params)" and "mset params = mset params'"
  shows "rest_verify cr uc key secret meth path params body now window =
      rest_verify cr uc key secret meth path params' body now window
    \<and> (rest_verify cr uc key secret meth path params body now window = Inr () \<longrightarrow>
       (\<exists>ts sgn. map_of params ''auth_version'' = Some ''1.0'' \<and>
          (map_of params ''auth_key'' = Some key \<or> key = [] \<and> map_of params ''auth_key'' = None) \<and>
          Option.bind (map_of params ''auth_timestamp'') parse_u64 = Some ts \<and> abs_diff now ts \<le> window \<and>
          (body \<noteq> [] \<or> map_of params ''body_md5'' \<noteq> None \<longrightarrow> map_of params ''body_md5'' = Some (md5_hex cr body)) \<and>
          sorted_wrt (<) (map fst sgn) \<and>
          set sgn = {(str_to_lowercase uc k, v) | k v. (k, v) \<in> set params \<and> str_to_lowercase uc k \<noteq> ''auth_signature''} \<and>
          map_of params ''auth_signature'' = Some (hmac_sha256_hex cr secret (signing_string uc meth path sgn))))"
proof (intro conjI impI)
  have mp: "map_of params = map_of params'"
    using assms(2,3) mset_eq_setD [OF assms(3)] mset_eq_imp_distinct_iff [of "map fst params" "map fst params'"]
    by (intro map_of_inject_set [THEN iffD2]) auto
  show "rest_verify cr uc key secret meth path params body now window =
      rest_verify cr uc key secret meth path params' body now window"
    unfolding rest_verify_def mp collect_signed_perm [OF assms(3,2)] by (rule refl)
next
  assume ok: "rest_verify cr uc key secret meth path params body now window = Inr ()"
  note eq = constant_time_eq_iff [OF assms(1)]
  from ok obtain ts sg acc where a: "map_of params ''auth_version'' = Some ''1.0''"
      "(case map_of params ''auth_key'' of Some k \<Rightarrow> k | None \<Rightarrow> []) = key"
      "Option.bind (map_of params ''auth_timestamp'') parse_u64 = Some ts" "abs_diff now ts \<le> window"
      "body \<noteq> [] \<or> map_of params ''body_md5'' \<noteq> None \<longrightarrow>
         (case map_of params ''body_md5'' of Some m \<Rightarrow> m = md5_hex cr body | None \<Rightarrow> False)"
      "map_of params ''auth_signature'' = Some sg" "collect_signed uc params [] = Some acc"
      "sg = hmac_sha256_hex cr secret (signing_string uc meth path (bt_remove ''auth_signature'' acc))"
    unfolding rest_verify_def Let_def eq
    by (auto simp del: bind_eq_Some_conv split: if_split_asm option.split_asm)
  note s = collect_signed_some [OF a(7)]
  have "set acc = set (lowered uc params)"
    using bt.entries_iff [OF s(2)] s(1,3) by (auto simp: map_of_eq_Some_iff)
  then have "set (bt_remove ''auth_signature'' acc) =
      {(str_to_lowercase uc k, v) | k v. (k, v) \<in> set params \<and> str_to_lowercase uc k \<noteq> ''auth_signature''}"
    by (auto simp: bt_remove_def lowered_def)
  moreover have "sorted_wrt (<) (map fst (bt_remove ''auth_signature'' acc))"
    using bt_ok_remove [OF s(2)] by (simp add: bt_ok_def)
  ultimately show "\<exists>ts sgn. map_of params ''auth_version'' = Some ''1.0'' \<and>
          (map_of params ''auth_key'' = Some key \<or> key = [] \<and> map_of params ''auth_key'' = None) \<and>
          Option.bind (map_of params ''auth_timestamp'') parse_u64 = Some ts \<and> abs_diff now ts \<le> window \<and>
          (body \<noteq> [] \<or> map_of params ''body_md5'' \<noteq> None \<longrightarrow> map_of params ''body_md5'' = Some (md5_hex cr body)) \<and>
          sorted_wrt (<) (map fst sgn) \<and>
          set sgn = {(str_to_lowercase uc k, v) | k v. (k, v) \<in> set params \<and> str_to_lowercase uc k \<noteq> ''auth_signature''} \<and>
          map_of params ''auth_signature'' = Some (hmac_sha256_hex cr secret (signing_string uc meth path sgn))"
    using a by (intro exI [of _ ts] exI [of _ "bt_remove ''auth_signature'' acc"] conjI) (auto split: option.splits)
qed

definition signed_request :: "crypto \<Rightarrow> unicode \<Rightarrow> string \<Rightarrow> string \<Rightarrow> string \<Rightarrow> (string \<times> string) list \<Rightarrow> (string \<times> string) list" where
  "signed_request cr uc secret meth path p =
     (''auth_signature'', hmac_sha256_hex cr secret (signing_string uc meth path p)) # p"

lemma lower_auth_signature: "str_to_lowercase uc ''auth_signature'' = ''auth_signature''"
  by (simp add: str_to_lowercase_def is_ascii_def shift_letter_def less_eq_char_def)

text \<open>
  C37. A client that signs as documented is accepted: for parameters with lower-case names in
  increasing order, of version 1.0, with the application's key, a timestamp within the window
  and the digest of a non-empty body, appending the signature makes a request that passes.
\<close>

theorem signed_request_accepted:
  assumes "ct_eq_compares cr" and "bt_ok p" and "\<forall>(k, v) \<in> set p. str_to_lowercase uc k = k \<and> k \<noteq> ''auth_signature''"
    and "map_of p ''auth_version'' = Some ''1.0''" and "map_of p ''auth_key'' = Some key"
    and "map_of p ''auth_timestamp'' = Some (show_nat ts)" and "ts < 2 ^ 64" and "abs_diff now ts \<le> window"
    and "map_of p ''body_md5'' = (if body = [] then None else Some (md5_hex cr body))"
  shows "rest_verify cr uc key secret meth path (signed_request cr uc secret meth path p) body now window = Inr ()"
proof -
  let ?sig = "hmac_sha256_hex cr secret (signing_string uc meth path p)"
  let ?ps = "(''auth_signature'', ?sig) # p"
  have lw: "lowered uc ?ps = ?ps"
    using assms(3) lower_auth_signature by (auto simp: lowered_def intro!: map_idI)
  have notin: "''auth_signature'' \<notin> fst ` set p" using assms(3) by auto
  then have "distinct (map fst (lowered uc ?ps))" unfolding lw using bt_ok_distinct [OF assms(2)] by simp
  then obtain s where s: "collect_signed uc ?ps [] = Some s" by (rule collect_signed_distinct)
  note cs = collect_signed_some [OF s, unfolded lw]
  have "bt_remove ''auth_signature'' s = p"
    using notin bt_simps(2,4) [OF cs(2), of "''auth_signature''"] cs(3) assms(2)
    by (intro bt_unique) (auto simp: map_of_eq_None_iff fun_upd_idem_iff)
  moreover have "parse_u64 (show_nat ts) = Some ts"
  proof -
    have d: "list_all is_ascii_digit (show_nat ts)" using show_nat_digits by (auto simp: list_all_iff)
    moreover have ne: "show_nat ts \<noteq> []" by (simp add: show_nat.simps [of ts])
    moreover have "hd (show_nat ts) \<noteq> CHR ''+''"
      using d ne by (cases "show_nat ts") (auto simp: is_ascii_digit_def less_eq_char_def)
    moreover have "digits_value (show_nat ts) = int ts" by (rule digits_value_show_nat)
    ultimately show ?thesis using assms(7) by (cases "show_nat ts") (auto simp: parse_u64_def Let_def)
  qed
  ultimately show ?thesis
    using assms(1,4-6,8,9) s by (simp add: signed_request_def rest_verify_def constant_time_eq_iff)
qed

definition example_unicode :: unicode where
  "example_unicode = \<lparr>uc_to_lowercase = id, uc_to_uppercase = id\<rparr>"

definition example_params :: "(string \<times> string) list" where
  "example_params = [(''auth_key'', ''k''), (''auth_timestamp'', ''5''), (''auth_version'', ''1.0'')]"

lemma example_params_ok:
  "bt_ok example_params"
  "\<forall>(k, v) \<in> set example_params. str_to_lowercase example_unicode k = k \<and> k \<noteq> ''auth_signature''"
  "map_of example_params ''auth_version'' = Some ''1.0''" "map_of example_params ''auth_key'' = Some ''k''"
  "map_of example_params ''auth_timestamp'' = Some (show_nat 5)" "map_of example_params ''body_md5'' = None"
  by (simp_all add: example_params_def bt_ok_def less_char_def str_to_lowercase_def is_ascii_def
      shift_letter_def less_eq_char_def show_nat.simps char_of_def bit_0)

theorem signed_request_accepted_witness:
  "rest_verify example_crypto example_unicode ''k'' ''s'' ''GET'' ''/apps/1''
     (signed_request example_crypto example_unicode ''s'' ''GET'' ''/apps/1'' example_params) [] 7 600 = Inr ()"
  using signed_request_accepted [OF example_crypto_compares example_params_ok(1-5), of 7 600 "[]" "''s''" "''GET''" "''/apps/1''"]
    example_params_ok(6) by (simp add: abs_diff_def)

end
