(* ===== verification/Fanout.thy ===== *)
theory Fanout
  imports Mailbox Ws_Frame
begin

text \<open>
  The hand-off of a broadcast to the workers, from \<^verbatim>\<open>src/transport/fanout.rs\<close>: a broadcast is
  encoded once per protocol version and offered to the bounded inbox of every worker; a full
  inbox loses the message and marks the node as saturated. The slots are shared by reference
  between the sink, the saturation flag and the workers, so they form an explicit store.
\<close>


section \<open>State\<close>

record broadcast_msg =
  bm_app :: string
  bm_channel :: string
  bm_frames :: "(nat \<times> byte list) list"
  bm_except :: "socket_id option"

record worker_slot =
  ws_inbox :: "broadcast_msg list"
  ws_cap :: nat
  ws_alive :: bool
  ws_waker :: bool
  ws_woken :: bool
  ws_dropped :: u64
  ws_budget_saturated :: bool

record fan =
  fan_workers :: "worker_slot list"
  fan_inbox_full :: bool
  fan_bound :: bool


section \<open>Operations\<close>

fun frames_for :: "serde_json \<Rightarrow> nat list \<Rightarrow> server_event \<Rightarrow> (nat \<times> byte list) list option" where
  "frames_for sj versions (Raw f) =
     (let frame = encode_text [] (as_bytes f) in Some (map (\<lambda>v. (v, frame)) versions))"
| "frames_for sj versions other =
     those (map (\<lambda>v. map_option (\<lambda>json. (v, encode_text [] (as_bytes json))) (wire_encode sj v other)) versions)"

definition bind_workers :: "fan \<Rightarrow> fan" where
  "bind_workers f = f\<lparr>fan_bound := True\<rparr>"

definition set_inbox_full :: "fan \<Rightarrow> fan" where
  "set_inbox_full f = f\<lparr>fan_inbox_full := True\<rparr>"

definition clear_inbox_full :: "fan \<Rightarrow> fan" where
  "clear_inbox_full f = f\<lparr>fan_inbox_full := False\<rparr>"

definition is_saturated :: "fan \<Rightarrow> bool" where
  "is_saturated f \<longleftrightarrow> fan_inbox_full f \<or> (fan_bound f \<and> list_ex ws_budget_saturated (fan_workers f))"

text \<open>The offer to one slot; the flag says that the inbox was full.\<close>

definition slot_offer :: "broadcast_msg \<Rightarrow> worker_slot \<Rightarrow> bool \<times> worker_slot" where
  "slot_offer msg s =
     (if \<not> ws_alive s then (False, s)
      else if ws_cap s \<le> length (ws_inbox s) then (True, s\<lparr>ws_dropped := ws_dropped s + 1\<rparr>)
      else (let s1 = s\<lparr>ws_inbox := ws_inbox s @ [msg]\<rparr>
            in (False, if ws_waker s1 then s1\<lparr>ws_woken := True\<rparr> else s1)))"

fun sink_loop :: "broadcast_msg \<Rightarrow> worker_slot list \<Rightarrow> bool \<Rightarrow> worker_slot list \<times> bool" where
  "sink_loop msg [] full = ([], full)"
| "sink_loop msg (s # slots) full =
     (let (was_full, s') = slot_offer msg s;
          (slots', full') = sink_loop msg slots (full \<or> was_full)
      in (s' # slots', full'))"

definition sink_broadcast ::
  "string \<Rightarrow> string \<Rightarrow> (nat \<times> byte list) list \<Rightarrow> socket_id option \<Rightarrow> fan \<Rightarrow> fan" where
  "sink_broadcast app channel frames except f =
     (let msg = \<lparr>bm_app = app, bm_channel = channel, bm_frames = frames, bm_except = except\<rparr>;
          (workers, full) = sink_loop msg (fan_workers f) (fan_inbox_full f)
      in f\<lparr>fan_workers := workers, fan_inbox_full := full\<rparr>)"


section \<open>What a broadcast does\<close>

lemma frames_for_active:
  "frames_for sj all_versions ev = Some [(7, encode_text [] (as_bytes (active_frame sj ev)))]"
  by (cases ev) (simp_all add: all_versions_def MIN_PROTOCOL_def MAX_PROTOCOL_def wire_encode_def
      wire_encode_into_def active_frame_eq Let_def)

lemma sink_loop_map: "sink_loop msg slots full = (map (snd \<circ> slot_offer msg) slots, full \<or> list_ex (fst \<circ> slot_offer msg) slots)"
  by (induction slots arbitrary: full) (auto simp: Let_def split: prod.splits)

text \<open>
  A broadcast reaches each live worker at most once and in order; the node is saturated after it
  exactly when it was before or a live worker's inbox was full.
\<close>

lemma sink_broadcast_saturated:
  "is_saturated (sink_broadcast app channel frames except f) \<longleftrightarrow>
     is_saturated f \<or> (\<exists>s\<in>set (fan_workers f). ws_alive s \<and> ws_cap s \<le> length (ws_inbox s))"
  by (auto simp: is_saturated_def sink_broadcast_def sink_loop_map slot_offer_def Let_def list_ex_iff)

end
