(* ===== verification/Rate.thy ===== *)
theory Rate
  imports Prelude Complex_Main
begin

text \<open>
  The token bucket of the rate limits, from \<^verbatim>\<open>src/rate.rs\<close>, and its per-connection use for client
  events, from \<^verbatim>\<open>src/ws/rate.rs\<close>. The bucket computes in \<open>f64\<close>: a value is a rational number and
  every operation rounds its exact result to 53 significant bits, ties to even. The quantities
  here are zero or between one part in a billion and the product of two 64-bit numbers, far
  from the ends of the exponent range.
\<close>


section \<open>Floating point\<close>

type_synonym f64 = rat

definition round_half_even :: "rat \<Rightarrow> int" where
  "round_half_even x =
     (let n = \<lfloor>x\<rfloor>; r = x - of_int n
      in if r < 1 / 2 then n else if 1 / 2 < r then n + 1 else if even n then n else n + 1)"

definition pow2 :: "int \<Rightarrow> rat" where
  "pow2 e = (if 0 \<le> e then 2 ^ nat e else 1 / 2 ^ nat (- e))"

text \<open>The binary exponent of a positive number, \<open>pow2 e \<le> x < pow2 (e + 1)\<close>.\<close>

fun bits :: "nat \<Rightarrow> nat" where
  "bits n = (if n = 0 then 0 else Suc (bits (n div 2)))"

declare bits.simps [simp del]

definition exponent :: "rat \<Rightarrow> int" where
  "exponent x =
     (let (p, q) = quotient_of x; e = int (bits (nat p)) - int (bits (nat q))
      in if pow2 e \<le> x then e else e - 1)"

definition fl :: "rat \<Rightarrow> f64" where
  "fl x = (if x = 0 then 0
           else (let u = pow2 (exponent \<bar>x\<bar> - 52) in of_int (round_half_even (x / u)) * u))"


section \<open>The token bucket\<close>

record token_bucket =
  tb_rate_per_second :: nat
  tb_rate :: f64
  tb_capacity :: f64
  tb_tokens :: f64
  tb_last_ns :: "u64 option"

definition token_bucket_new :: "nat \<Rightarrow> nat \<Rightarrow> token_bucket" where
  "token_bucket_new rate_per_second burst =
     (let capacity = of_nat (max burst rate_per_second)
      in \<lparr>tb_rate_per_second = rate_per_second, tb_rate = of_nat rate_per_second, tb_capacity = capacity,
          tb_tokens = capacity, tb_last_ns = None\<rparr>)"

definition refilled_at_ns :: "u64 \<Rightarrow> token_bucket \<Rightarrow> f64" where
  "refilled_at_ns now_ns b =
     (case tb_last_ns b of
        None \<Rightarrow> tb_capacity b
      | Some prev \<Rightarrow>
        (let elapsed = fl (fl (of_nat (unat (sat_sub now_ns prev))) / 1000000000)
         in min (fl (tb_tokens b + fl (elapsed * tb_rate b))) (tb_capacity b)))"

definition take_at_ns :: "u64 \<Rightarrow> nat \<Rightarrow> token_bucket \<Rightarrow> bool \<times> token_bucket" where
  "take_at_ns now_ns cost b =
     (if tb_rate_per_second b = 0 then (True, b)
      else if tb_capacity b < of_nat cost then (False, b)
      else
        (let tokens = refilled_at_ns now_ns b;
             b1 = b\<lparr>tb_last_ns := Some now_ns\<rparr>
         in if of_nat cost \<le> tokens then (True, b1\<lparr>tb_tokens := fl (tokens - of_nat cost)\<rparr>)
            else (False, b1\<lparr>tb_tokens := tokens\<rparr>)))"

definition remaining_at_ns :: "u64 \<Rightarrow> token_bucket \<Rightarrow> nat" where
  "remaining_at_ns now_ns b =
     (if tb_rate_per_second b = 0 then 2 ^ 32 - 1
      else min (2 ^ 32 - 1) (nat \<lfloor>refilled_at_ns now_ns b\<rfloor>))"

definition retry_after_secs_at_ns :: "u64 \<Rightarrow> nat \<Rightarrow> token_bucket \<Rightarrow> nat" where
  "retry_after_secs_at_ns now_ns cost b =
     (if tb_rate_per_second b = 0 then 0
      else (let deficit = fl (of_nat cost - refilled_at_ns now_ns b)
            in if deficit \<le> 0 then 0
               else max 1 (min (2 ^ 64 - 1) (nat \<lceil>fl (deficit / tb_rate b)\<rceil>))))"

text \<open>The window of one connection; \<open>now\<close> and the origin are nanoseconds of the monotonic clock.\<close>

record rate_window =
  rw_bucket :: token_bucket
  rw_origin :: "nat option"

definition rate_window_new :: "nat \<Rightarrow> rate_window" where
  "rate_window_new limit = \<lparr>rw_bucket = token_bucket_new limit limit, rw_origin = None\<rparr>"

definition rate_check_at :: "nat \<Rightarrow> rate_window \<Rightarrow> bool \<times> rate_window" where
  "rate_check_at now w =
     (let origin = (case rw_origin w of Some t \<Rightarrow> t | None \<Rightarrow> now);
          now_ns = word_of_nat (now - origin);
          (ok, b) = take_at_ns now_ns 1 (rw_bucket w)
      in (ok, \<lparr>rw_bucket = b, rw_origin = Some origin\<rparr>))"


section \<open>Rounding\<close>

lemma pow2_pos [simp]: "0 < pow2 e"
  by (simp add: pow2_def)

lemma pow2_Suc: "pow2 (e + 1) = 2 * pow2 e"
proof (cases "0 \<le> e")
  case True
  then show ?thesis by (simp add: pow2_def nat_add_distrib)
next
  case False
  show ?thesis
  proof (cases "e = -1")
    case False
    with \<open>\<not> 0 \<le> e\<close> have "nat (- e) = Suc (nat (- (e + 1)))" "\<not> 0 \<le> e + 1" by simp_all
    with \<open>\<not> 0 \<le> e\<close> show ?thesis by (simp add: pow2_def)
  qed (simp add: pow2_def)
qed

lemma pow2_add: "pow2 (e + int n) = pow2 e * 2 ^ n"
proof (induction n)
  case (Suc n)
  have "pow2 (e + int (Suc n)) = 2 * pow2 (e + int n)" using pow2_Suc [of "e + int n"] by (simp add: ac_simps)
  with Suc show ?case by simp
qed simp

lemma round_half_even_mono: "x \<le> y \<Longrightarrow> round_half_even x \<le> round_half_even y"
proof -
  assume "x \<le> y"
  then have f: "\<lfloor>x\<rfloor> \<le> \<lfloor>y\<rfloor>" by (rule floor_mono)
  show ?thesis
  proof (cases "\<lfloor>x\<rfloor> = \<lfloor>y\<rfloor>")
    case True
    with \<open>x \<le> y\<close> show ?thesis by (auto simp: round_half_even_def Let_def)
  next
    case False
    with f have "\<lfloor>x\<rfloor> + 1 \<le> \<lfloor>y\<rfloor>" by simp
    then show ?thesis by (auto simp: round_half_even_def Let_def)
  qed
qed

lemma round_half_even_int [simp]: "round_half_even (of_int n) = n"
  by (simp add: round_half_even_def)

lemma round_half_even_error: "\<bar>of_int (round_half_even x) - x\<bar> \<le> 1 / 2"
proof -
  have "of_int \<lfloor>x\<rfloor> \<le> x" "x < of_int \<lfloor>x\<rfloor> + 1" by linarith+
  then show ?thesis by (auto simp: round_half_even_def Let_def)
qed

lemma bits_bounds: "0 < n \<Longrightarrow> 2 ^ bits n \<le> 2 * n \<and> n < 2 ^ bits n"
proof (induction n rule: bits.induct)
  case (1 n)
  show ?case
  proof (cases "n div 2 = 0")
    case True
    with "1.prems" have "n = 1" by presburger
    then show ?thesis by (simp add: bits.simps)
  next
    case False
    with 1 have "2 ^ bits (n div 2) \<le> 2 * (n div 2)" "n div 2 < 2 ^ bits (n div 2)" by auto
    moreover have "bits n = Suc (bits (n div 2))" using "1.prems" by (simp add: bits.simps [of n])
    ultimately show ?thesis by auto
  qed
qed

lemma exponent_bounds:
  assumes "0 < x"
  shows "pow2 (exponent x) \<le> x \<and> x < pow2 (exponent x + 1)"
proof -
  obtain p q where pq: "quotient_of x = (p, q)" by fastforce
  have q: "0 < q" and x: "x = of_int p / of_int q"
    using quotient_of_denom_pos [OF pq] quotient_of_div [OF pq] by auto
  with assms have p: "0 < p" by (auto simp: zero_less_divide_iff)
  define a b where "a = bits (nat p)" and "b = bits (nat q)"
  have A: "(2 :: rat) ^ a \<le> 2 * of_int p" "of_int p < (2 :: rat) ^ a"
    and B: "(2 :: rat) ^ b \<le> 2 * of_int q" "of_int q < (2 :: rat) ^ b"
  proof -
    have "2 ^ a \<le> 2 * nat p" "nat p < 2 ^ a" "2 ^ b \<le> 2 * nat q" "nat q < 2 ^ b"
      using bits_bounds [of "nat p"] bits_bounds [of "nat q"] p q by (simp_all add: a_def b_def)
    then have "of_nat (2 ^ a) \<le> (of_nat (2 * nat p) :: rat)" "of_nat (nat p) < (of_nat (2 ^ a) :: rat)"
      "of_nat (2 ^ b) \<le> (of_nat (2 * nat q) :: rat)" "of_nat (nat q) < (of_nat (2 ^ b) :: rat)"
      by (simp_all only: of_nat_le_iff of_nat_less_iff)
    then show "(2 :: rat) ^ a \<le> 2 * of_int p" "of_int p < (2 :: rat) ^ a"
      "(2 :: rat) ^ b \<le> 2 * of_int q" "of_int q < (2 :: rat) ^ b"
      using p q by (simp_all add: of_nat_nat)
  qed
  define e where "e = int a - int b"
  have pe: "pow2 e * 2 ^ b = 2 ^ a"
    using pow2_add [of e b] by (simp add: e_def pow2_def)
  have up: "x < pow2 e * 2"
  proof -
    have "of_int p * 2 ^ b < (2 :: rat) ^ a * (2 * of_int q)"
      using A(2) B(1) p q by (intro mult_less_le_imp_less) auto
    also have "\<dots> = pow2 e * 2 ^ b * (2 * of_int q)" by (simp add: pe)
    finally have "of_int p < pow2 e * 2 * of_int q" by (simp add: ac_simps)
    then show ?thesis using q by (simp add: x divide_less_eq)
  qed
  have low: "pow2 e \<le> 2 * x"
  proof -
    have "2 ^ a * of_int q \<le> 2 * of_int p * (2 :: rat) ^ b"
      using A(1) B(2) q p by (intro mult_mono) auto
    then have "pow2 e * of_int q * 2 ^ b \<le> 2 * of_int p * 2 ^ b" by (simp add: ac_simps flip: pe)
    then have "pow2 e * of_int q \<le> 2 * of_int p" by simp
    then show ?thesis using q by (simp add: x le_divide_eq)
  qed
  have ex: "exponent x = (if pow2 e \<le> x then e else e - 1)"
    using pq by (simp add: exponent_def e_def a_def b_def)
  show ?thesis
  proof (cases "pow2 e \<le> x")
    case True
    with up show ?thesis by (simp add: ex pow2_Suc)
  next
    case False
    with low show ?thesis using pow2_Suc [of "e - 1"] by (simp add: ex)
  qed
qed

lemma fl_error: "\<bar>fl x - x\<bar> \<le> \<bar>x\<bar> / 2 ^ 53"
proof (cases "x = 0")
  case False
  define u where "u = pow2 (exponent \<bar>x\<bar> - 52)"
  have u: "0 < u" by (simp add: u_def)
  have "fl x - x = (of_int (round_half_even (x / u)) - x / u) * u"
    using False u by (simp add: fl_def Let_def left_diff_distrib flip: u_def)
  then have "\<bar>fl x - x\<bar> \<le> 1 / 2 * u"
    using round_half_even_error [of "x / u"] u by (simp add: abs_mult mult_right_mono)
  moreover have "u * 2 ^ 52 \<le> \<bar>x\<bar>"
    using exponent_bounds [of "\<bar>x\<bar>"] False pow2_add [of "exponent \<bar>x\<bar> - 52" 52] by (simp add: u_def)
  ultimately show ?thesis by (simp add: field_simps)
qed (simp add: fl_def)

lemma fl_le: "0 \<le> x \<Longrightarrow> fl x \<le> x * (1 + 1 / 2 ^ 53)"
proof -
  assume "0 \<le> x"
  then have "fl x - x \<le> x / 2 ^ 53" using fl_error [of x] abs_ge_self [of "fl x - x"] by simp
  then show ?thesis by (simp add: distrib_left)
qed

lemma fl_nonneg: "0 \<le> x \<Longrightarrow> 0 \<le> fl x"
proof (cases "x = 0")
  case False
  assume "0 \<le> x"
  then have "round_half_even (of_int 0) \<le> round_half_even (x / pow2 (exponent \<bar>x\<bar> - 52))"
    by (intro round_half_even_mono) (simp add: less_imp_le)
  then have "0 \<le> round_half_even (x / pow2 (exponent \<bar>x\<bar> - 52))" by (simp only: round_half_even_int)
  with False show ?thesis by (simp add: fl_def Let_def less_imp_le)
qed (simp add: fl_def)


section \<open>The limit\<close>

text \<open>What every take keeps: the tokens stay between zero and, up to rounding, the capacity.\<close>

definition bucket_ok :: "token_bucket \<Rightarrow> bool" where
  "bucket_ok b \<longleftrightarrow> tb_rate b = of_nat (tb_rate_per_second b) \<and> 0 \<le> tb_tokens b \<and>
     tb_tokens b \<le> tb_capacity b * (1 + 1 / 2 ^ 53) \<and> 0 \<le> tb_capacity b"

lemma elapsed_nonneg: "0 \<le> d \<Longrightarrow> 0 \<le> fl (fl d / 1000000000)"
  by (intro fl_nonneg divide_nonneg_nonneg) simp_all

lemma refilled_bounds:
  assumes "bucket_ok b"
  shows "0 \<le> refilled_at_ns now b" and "refilled_at_ns now b \<le> tb_capacity b"
proof -
  have b: "0 \<le> tb_tokens b" "0 \<le> tb_rate b" "0 \<le> tb_capacity b" using assms by (simp_all add: bucket_ok_def)
  define refill where "refill d = fl (tb_tokens b + fl (fl (fl d / 1000000000) * tb_rate b))" for d
  have r0: "0 \<le> refill d" if "0 \<le> d" for d
  proof -
    have "0 \<le> fl (fl (fl d / 1000000000) * tb_rate b)"
      by (rule fl_nonneg, rule mult_nonneg_nonneg, rule elapsed_nonneg [OF that], rule b(2))
    then show ?thesis unfolding refill_def by (rule fl_nonneg [OF add_nonneg_nonneg [OF b(1)]])
  qed
  have eq: "refilled_at_ns now b = (case tb_last_ns b of None \<Rightarrow> tb_capacity b
      | Some prev \<Rightarrow> min (refill (of_nat (unat (sat_sub now prev)))) (tb_capacity b))"
    unfolding refilled_at_ns_def Let_def refill_def by (rule refl)
  show "0 \<le> refilled_at_ns now b" "refilled_at_ns now b \<le> tb_capacity b"
  proof (induct "tb_last_ns b")
    case None
    {
      case 1
      from None b show ?case by (simp add: eq)
    next
      case 2
      from None b show ?case by (simp add: eq)
    }
  next
    case (Some prev)
    {
      case 1
      show ?case unfolding eq Some [symmetric] option.case by (intro min.boundedI r0 of_nat_0_le_iff b(3))
    next
      case 2
      show ?case unfolding eq Some [symmetric] option.case by (rule min.cobounded2)
    }
  qed
qed

lemma take_ok:
  assumes "bucket_ok b" and "take_at_ns now cost b = (granted, b')"
  shows "bucket_ok b' \<and> tb_capacity b' = tb_capacity b \<and> tb_rate_per_second b' = tb_rate_per_second b"
proof -
  note r = refilled_bounds [OF assms(1), of now]
  have le: "x \<le> tb_capacity b \<Longrightarrow> x \<le> tb_capacity b * (1 + 1 / 2 ^ 53)" for x
    using assms(1) by (auto simp: bucket_ok_def distrib_left intro: order_trans)
  have "of_nat cost \<le> refilled_at_ns now b \<Longrightarrow>
      fl (refilled_at_ns now b - of_nat cost) \<le> tb_capacity b * (1 + 1 / 2 ^ 53)"
  proof -
    assume c: "of_nat cost \<le> refilled_at_ns now b"
    then have "fl (refilled_at_ns now b - of_nat cost) \<le> (refilled_at_ns now b - of_nat cost) * (1 + 1 / 2 ^ 53)"
      by (intro fl_le) simp
    also have "\<dots> \<le> tb_capacity b * (1 + 1 / 2 ^ 53)" using r by (intro mult_right_mono) simp_all
    finally show ?thesis .
  qed
  with assms r le [OF r(2)] show ?thesis
    by (auto simp: take_at_ns_def Let_def bucket_ok_def fl_nonneg split: if_splits)
qed

lemma refill_upper:
  assumes "bucket_ok b" and "tb_last_ns b = Some prev"
    and "h = 1 / 2 ^ 53" and "gain = of_nat (unat (sat_sub now prev)) * of_nat (tb_rate_per_second b) / 1000000000"
  shows "refilled_at_ns now b \<le> tb_tokens b + gain * (1 + h) ^ 4 + tb_capacity b * (h + h * h)"
proof -
  define d where "d = (of_nat (unat (sat_sub now prev)) :: rat)"
  have gn: "gain = d * of_nat (tb_rate_per_second b) / 1000000000" by (simp only: assms(4) d_def)
  have d0: "0 \<le> d" unfolding d_def by (rule of_nat_0_le_iff)
  have h: "0 \<le> h" by (simp add: assms(3))
  have b: "0 \<le> tb_tokens b" "tb_tokens b \<le> tb_capacity b * (1 + h)" "tb_rate b = of_nat (tb_rate_per_second b)"
    "0 \<le> tb_capacity b" using assms(1) unfolding bucket_ok_def assms(3) by blast+
  have 1: "fl d \<le> d * (1 + h)" using fl_le [OF d0] by (simp add: assms(3))
  have "fl (fl d / 1000000000) \<le> fl d / 1000000000 * (1 + h)"
    using fl_le [of "fl d / 1000000000"] fl_nonneg [OF d0] by (simp add: assms(3))
  also have "\<dots> \<le> d * (1 + h) / 1000000000 * (1 + h)"
    using 1 h by (intro mult_right_mono divide_right_mono) simp_all
  finally have 2: "fl (fl d / 1000000000) \<le> d / 1000000000 * (1 + h) ^ 2" by (simp add: power2_eq_square)
  let ?e = "fl (fl d / 1000000000)"
  have e0: "0 \<le> ?e" using d0 by (rule elapsed_nonneg)
  have "fl (?e * tb_rate b) \<le> ?e * tb_rate b * (1 + h)"
    using fl_le [of "?e * tb_rate b"] e0 b(3) by (simp add: assms(3))
  also have "\<dots> \<le> d / 1000000000 * (1 + h) ^ 2 * tb_rate b * (1 + h)"
    using 2 h b(3) by (intro mult_right_mono) simp_all
  finally have 3: "fl (?e * tb_rate b) \<le> gain * (1 + h) ^ 3"
    using b(3) by (simp add: gn power2_eq_square power3_eq_cube ac_simps)
  have p0: "0 \<le> fl (?e * tb_rate b)" using e0 b(3) by (intro fl_nonneg) simp
  have "refilled_at_ns now b \<le> fl (tb_tokens b + fl (?e * tb_rate b))"
    using assms(2) unfolding refilled_at_ns_def Let_def d_def by simp
  also have "\<dots> \<le> (tb_tokens b + fl (?e * tb_rate b)) * (1 + h)"
    using fl_le [of "tb_tokens b + fl (?e * tb_rate b)"] b(1) p0 by (simp add: assms(3))
  also have "\<dots> \<le> (tb_tokens b + gain * (1 + h) ^ 3) * (1 + h)"
    using 3 h by (intro mult_right_mono) simp_all
  also have "\<dots> = tb_tokens b + tb_tokens b * h + gain * (1 + h) ^ 4"
    by (simp add: distrib_left distrib_right eval_nat_numeral ac_simps)
  also have "\<dots> \<le> tb_tokens b + tb_capacity b * (1 + h) * h + gain * (1 + h) ^ 4"
    using mult_right_mono [OF b(2) h] by simp
  finally show ?thesis by (simp add: distrib_left distrib_right ac_simps)
qed

text \<open>A run of takes, each a time and a cost; the result is the total cost granted.\<close>

fun run_takes :: "(u64 \<times> nat) list \<Rightarrow> token_bucket \<Rightarrow> nat \<times> token_bucket" where
  "run_takes [] b = (0, b)"
| "run_takes ((now, cost) # ts) b =
     (let (granted, b1) = take_at_ns now cost b; (spent, b2) = run_takes ts b1
      in ((if granted then cost else 0) + spent, b2))"

lemma take_spends:
  assumes "bucket_ok b" and "tb_rate_per_second b \<noteq> 0" and "tb_last_ns b = Some prev"
    and "take_at_ns now cost b = (granted, b')" and "h = 1 / 2 ^ 53"
    and "gain = of_nat (unat (sat_sub now prev)) * of_nat (tb_rate_per_second b) / 1000000000"
  shows "of_nat (if granted then cost else 0) + tb_tokens b' \<le>
    tb_tokens b + gain * (1 + h) ^ 4 + tb_capacity b * (2 * h + h * h)"
proof -
  note up = refill_upper [OF assms(1,3,5,6)] and r = refilled_bounds [OF assms(1), of now]
  have h: "0 \<le> h" and cap: "0 \<le> tb_capacity b" using assms(1,5) by (simp_all add: bucket_ok_def)
  have g: "0 \<le> gain" unfolding assms(6) by (intro divide_nonneg_nonneg mult_nonneg_nonneg of_nat_0_le_iff) simp
  consider (reject) "\<not> granted" "b' = b" | (empty) "\<not> granted" "tb_tokens b' = refilled_at_ns now b"
    | (grant) "granted" "of_nat cost \<le> refilled_at_ns now b" "tb_tokens b' = fl (refilled_at_ns now b - of_nat cost)"
    using assms(2,4) by (auto simp: take_at_ns_def Let_def split: if_splits)
  then show ?thesis
  proof cases
    case reject
    with h cap g show ?thesis by simp
  next
    case empty
    with up h cap show ?thesis by (simp add: distrib_left) (use mult_nonneg_nonneg [OF cap h] in linarith)
  next
    case grant
    then have "tb_tokens b' \<le> (refilled_at_ns now b - of_nat cost) * (1 + h)"
      using fl_le [of "refilled_at_ns now b - of_nat cost"] by (simp add: assms(5))
    also have "\<dots> \<le> refilled_at_ns now b - of_nat cost + tb_capacity b * h"
      using mult_right_mono [OF r(2) h] mult_nonneg_nonneg [OF of_nat_0_le_iff h, of cost] by (simp add: algebra_simps)
    finally show ?thesis using grant(1) up by (simp add: distrib_left)
  qed
qed

lemma last_after_take:
  assumes "take_at_ns now cost b = (granted, b')" and "tb_rate_per_second b \<noteq> 0"
  shows "tb_last_ns b' = (if tb_capacity b < of_nat cost then tb_last_ns b else Some now)"
  using assms by (auto simp: take_at_ns_def Let_def split: if_splits)

lemma run_takes_bound:
  assumes "bucket_ok b" and "tb_rate_per_second b = r" and "r \<noteq> 0" and "tb_capacity b = cap"
    and "tb_last_ns b = Some prev" and "sorted (map fst ts)" and "\<forall>t\<in>set ts. prev \<le> fst t"
    and "run_takes ts b = (spent, b')" and "\<forall>t\<in>set ts. fst t \<le> end_ns" and "prev \<le> end_ns"
    and "h = 1 / 2 ^ 53" and "K = of_nat r / 1000000000 * (1 + h) ^ 4" and "E = cap * (2 * h + h * h)"
  shows "of_nat spent + tb_tokens b' \<le>
    tb_tokens b + of_nat (unat end_ns - unat prev) * K + of_nat (length ts) * E"
  using assms(1-10)
proof (induction ts arbitrary: b prev spent)
  case Nil
  have "0 \<le> K" by (simp add: assms(11,12))
  then have "0 \<le> of_nat (unat end_ns - unat prev) * K" by (intro mult_nonneg_nonneg of_nat_0_le_iff)
  with Nil show ?case by simp
next
  case (Cons t ts)
  obtain now cost where t: "t = (now, cost)" by fastforce
  obtain granted b1 where tk: "take_at_ns now cost b = (granted, b1)" by fastforce
  obtain rest where rs: "run_takes ts b1 = (rest, b')" and tot: "spent = (if granted then cost else 0) + rest"
    using Cons.prems(8) tk by (auto simp: t split: prod.splits)
  note ok = take_ok [OF Cons.prems(1) tk]
  define prev1 where "prev1 = (if cap < of_nat cost then prev else now)"
  have l: "tb_last_ns b1 = Some prev1"
    using last_after_take [OF tk] Cons.prems(2,3,4,5) by (simp add: prev1_def)
  have pn: "prev \<le> now" "now \<le> end_ns" using Cons.prems(7,9) by (simp_all add: t)
  have E: "0 \<le> E" using Cons.prems(1,4) by (simp add: bucket_ok_def assms(11,13))
  have "sorted (map fst ts)" "\<forall>t\<in>set ts. prev1 \<le> fst t" "\<forall>t\<in>set ts. fst t \<le> end_ns" "prev1 \<le> end_ns"
    using Cons.prems(6,7,9,10) pn by (simp_all add: t prev1_def)
  with Cons.prems(2,3,4) ok rs l have IH: "of_nat rest + tb_tokens b' \<le>
      tb_tokens b1 + of_nat (unat end_ns - unat prev1) * K + of_nat (length ts) * E"
    by (intro Cons.IH) simp_all
  show ?case
  proof (cases "cap < of_nat cost")
    case True
    then have "b1 = b" "\<not> granted" using tk Cons.prems(2,3,4) by (auto simp: take_at_ns_def)
    with IH True E show ?thesis by (simp add: tot prev1_def distrib_right)
  next
    case False
    define d where "d = (of_nat (unat (sat_sub now prev)) :: rat)"
    have "of_nat (if granted then cost else 0) + tb_tokens b1 \<le> tb_tokens b + d * K + E"
      using take_spends [OF Cons.prems(1) _ Cons.prems(5) tk assms(11) refl] Cons.prems(2,3,4)
      unfolding assms(12,13) d_def by (simp add: ac_simps)
    moreover have "unat (sat_sub now prev) + (unat end_ns - unat now) = unat end_ns - unat prev"
      using pn by (simp add: unat_sat_sub word_le_nat_alt)
    then have "d + of_nat (unat end_ns - unat now) = (of_nat (unat end_ns - unat prev) :: rat)"
      unfolding d_def by (metis of_nat_add)
    then have "of_nat (unat end_ns - unat prev) * K = d * K + of_nat (unat end_ns - unat now) * K"
      by (metis distrib_right)
    ultimately show ?thesis using IH False unfolding tot prev1_def of_nat_add by (simp add: distrib_right)
  qed
qed

lemma take_fresh:
  assumes "bucket_ok b" and "tb_rate_per_second b \<noteq> 0" and "tb_last_ns b = None" and "\<not> tb_capacity b < of_nat cost"
    and "take_at_ns now cost b = (granted, b')" and "h = 1 / 2 ^ 53"
  shows "of_nat (if granted then cost else 0) + tb_tokens b' \<le> tb_capacity b + tb_capacity b * (2 * h + h * h)"
proof -
  let ?c = "of_nat cost :: rat"
  have b: "granted" "tb_tokens b' = fl (tb_capacity b - ?c)"
    using assms(2-5) by (auto simp: take_at_ns_def refilled_at_ns_def)
  have h: "0 \<le> h" and cap: "0 \<le> tb_capacity b" using assms(1,6) by (simp_all add: bucket_ok_def)
  have "fl (tb_capacity b - ?c) \<le> (tb_capacity b - ?c) * (1 + h)"
    using fl_le [of "tb_capacity b - ?c"] assms(4) by (simp add: assms(6))
  also have "\<dots> \<le> tb_capacity b - ?c + tb_capacity b * h"
    using mult_nonneg_nonneg [OF of_nat_0_le_iff h, of cost] by (simp add: algebra_simps)
  finally show ?thesis
    using b mult_nonneg_nonneg [OF cap h] mult_nonneg_nonneg [OF cap mult_nonneg_nonneg [OF h h]]
    by (simp add: distrib_left)
qed

lemma run_takes_fresh:
  assumes "bucket_ok b" and "tb_rate_per_second b = r" and "r \<noteq> 0" and "tb_capacity b = cap" and "tb_tokens b = cap"
    and "tb_last_ns b = None" and "sorted (map fst ts)" and "\<forall>t\<in>set ts. t0 \<le> fst t \<and> fst t \<le> end_ns"
    and "run_takes ts b = (spent, b')"
    and "h = 1 / 2 ^ 53" and "K = of_nat r / 1000000000 * (1 + h) ^ 4" and "E = cap * (2 * h + h * h)"
  shows "of_nat spent + tb_tokens b' \<le> cap + of_nat (unat end_ns - unat t0) * K + of_nat (length ts) * E"
  using assms(7-9)
proof (induction ts arbitrary: spent)
  case Nil
  have "0 \<le> K" by (simp add: assms(10,11))
  then have "0 \<le> of_nat (unat end_ns - unat t0) * K" by (intro mult_nonneg_nonneg of_nat_0_le_iff)
  with Nil assms(5) show ?case by simp
next
  case (Cons t ts)
  have K: "0 \<le> K" by (simp add: assms(10,11))
  have E: "0 \<le> E" using assms(1,4) by (simp add: bucket_ok_def assms(10,12))
  obtain now cost where t: "t = (now, cost)" by fastforce
  obtain granted b1 where tk: "take_at_ns now cost b = (granted, b1)" by fastforce
  obtain rest where rs: "run_takes ts b1 = (rest, b')" and tot: "spent = (if granted then cost else 0) + rest"
    using Cons.prems(3) tk by (auto simp: t split: prod.splits)
  show ?case
  proof (cases "cap < of_nat cost")
    case True
    then have "b1 = b" "\<not> granted" using tk assms(2,3,4) by (auto simp: take_at_ns_def)
    with Cons.IH [of rest] Cons.prems rs E show ?thesis by (simp add: tot distrib_right)
  next
    case False
    note ok = take_ok [OF assms(1) tk]
    have l: "tb_last_ns b1 = Some now" using last_after_take [OF tk] assms(2,3,4) False by simp
    have s: "sorted (map fst ts)" "\<forall>t\<in>set ts. now \<le> fst t" "\<forall>t\<in>set ts. fst t \<le> end_ns" "now \<le> end_ns" "t0 \<le> now"
      using Cons.prems(1,2) by (auto simp: t)
    have "of_nat rest + tb_tokens b' \<le> tb_tokens b1 + of_nat (unat end_ns - unat now) * K + of_nat (length ts) * E"
      using ok assms(2,3,4) l s rs by (intro run_takes_bound [OF _ _ _ _ _ _ _ _ _ _ assms(10-12)]) auto
    moreover have "of_nat (if granted then cost else 0) + tb_tokens b1 \<le> cap + E"
      using take_fresh [OF assms(1) _ assms(6) _ tk assms(10)] assms(2,3,4,12) False by simp
    moreover have "of_nat (unat end_ns - unat now) * K \<le> of_nat (unat end_ns - unat t0) * K"
      using s(5) K by (intro mult_right_mono) (simp_all add: word_le_nat_alt)
    ultimately show ?thesis unfolding tot of_nat_add by (simp add: distrib_right)
  qed
qed

lemma run_takes_ok: "bucket_ok b \<Longrightarrow> run_takes ts b = (spent, b') \<Longrightarrow> bucket_ok b'"
proof (induction ts arbitrary: b spent)
  case (Cons t ts)
  obtain now cost where t: "t = (now, cost)" by fastforce
  obtain granted b1 where tk: "take_at_ns now cost b = (granted, b1)" by fastforce
  then obtain rest where "run_takes ts b1 = (rest, b')" using Cons.prems(2) by (auto simp: t split: prod.splits)
  with Cons.IH take_ok [OF Cons.prems(1) tk] show ?case by blast
qed simp

text \<open>
  The bucket enforces its rate in spite of floating-point rounding: over any sequence of
  requests at non-decreasing times, the total cost granted is at most the burst capacity plus
  the rate times the elapsed time, up to a relative error of about four units in the last
  place of the refill and two of the capacity for each request.
\<close>

lemma rate_limit_respected:
  assumes "0 < rate" and "sorted (map fst ts)" and "\<forall>t\<in>set ts. start_ns \<le> fst t \<and> fst t \<le> end_ns"
    and "run_takes ts (token_bucket_new rate burst) = (spent, b)" and "h = 1 / 2 ^ 53"
  shows "(of_nat spent :: rat) \<le> of_nat (max burst rate)
    + of_nat (unat end_ns - unat start_ns) * (of_nat rate / 1000000000 * (1 + h) ^ 4)
    + of_nat (length ts) * (of_nat (max burst rate) * (2 * h + h * h))"
proof -
  let ?b = "token_bucket_new rate burst"
  have new: "tb_rate_per_second ?b = rate" "tb_rate ?b = of_nat rate" "tb_capacity ?b = of_nat (max burst rate)"
    "tb_tokens ?b = of_nat (max burst rate)" "tb_last_ns ?b = None"
    by (simp_all add: token_bucket_new_def Let_def del: of_nat_max)
  have ok: "bucket_ok ?b" by (simp add: bucket_ok_def new distrib_left del: of_nat_max)
  have "0 \<le> tb_tokens b" using run_takes_ok [OF ok assms(4)] by (simp add: bucket_ok_def)
  moreover have "of_nat spent + tb_tokens b \<le> of_nat (max burst rate)
    + of_nat (unat end_ns - unat start_ns) * (of_nat rate / 1000000000 * (1 + h) ^ 4)
    + of_nat (length ts) * (of_nat (max burst rate) * (2 * h + h * h))"
    using assms(1) by (intro run_takes_fresh [OF ok new(1) _ new(3,4,5) assms(2,3,4,5) refl refl]) simp
  ultimately show ?thesis by linarith
qed

end
