(* ===== verification/App.thy ===== *)
theory App
  imports Protocol
begin

text \<open>
  Applications (tenants) and their webhook endpoints, from \<^verbatim>\<open>src/app/mod.rs\<close>: the record, the
  gates computed from the endpoints, and the validation run at load and at every lookup. Also
  the limits of \<^verbatim>\<open>src/server/config.rs\<close> that the connection handlers enforce.
\<close>


section \<open>Data\<close>

definition WEBHOOK_EVENT_TYPES :: "string list" where
  "WEBHOOK_EVENT_TYPES =
     [''channel_occupied'', ''channel_vacated'', ''member_added'', ''member_removed'',
      ''client_event'', ''cache_miss'', ''subscription_count'']"

record webhook_config =
  wh_url :: string
  wh_event_types :: "string list"
  wh_headers :: "(string \<times> string) list"

record app =
  app_name :: string
  app_id :: string
  app_key :: string
  app_secret :: string
  app_enabled :: bool
  client_messages_enabled :: bool
  app_capacity :: nat
  max_backend_events_per_second :: "nat option"
  max_read_requests_per_second :: "nat option"
  subscription_count_enabled :: bool
  app_webhooks :: "webhook_config list"
  has_channel_occupied_webhooks :: bool
  has_channel_vacated_webhooks :: bool
  has_member_added_webhooks :: bool
  has_member_removed_webhooks :: bool
  has_client_event_webhooks :: bool
  has_cache_miss_webhooks :: bool
  has_subscription_count_webhooks :: bool

record limits =
  max_presence_members :: nat
  max_event_payload_bytes :: nat
  max_watchlist_size :: nat
  max_channel_name_length :: nat
  max_event_name_length :: nat
  max_client_events_per_second :: nat
  max_presence_user_id_length :: nat
  max_presence_user_info_bytes :: nat
  max_subscriptions_per_connection :: nat


section \<open>Operations\<close>

definition any_webhook :: "app \<Rightarrow> string \<Rightarrow> bool" where
  "any_webhook a name = list_ex (\<lambda>w. list_ex (\<lambda>t. t = name) (wh_event_types w)) (app_webhooks a)"

definition recompute_has_flags :: "app \<Rightarrow> app" where
  "recompute_has_flags a =
     a\<lparr>has_channel_occupied_webhooks := any_webhook a ''channel_occupied'',
       has_channel_vacated_webhooks := any_webhook a ''channel_vacated'',
       has_member_added_webhooks := any_webhook a ''member_added'',
       has_member_removed_webhooks := any_webhook a ''member_removed'',
       has_client_event_webhooks := any_webhook a ''client_event'',
       has_cache_miss_webhooks := any_webhook a ''cache_miss'',
       has_subscription_count_webhooks := any_webhook a ''subscription_count''\<rparr>"

text \<open>
  \<open>s.trim().is_empty()\<close>: every character of the UTF-8 text is one of the 25 characters with
  the Unicode property White\_Space.
\<close>

definition ascii_white :: "char \<Rightarrow> bool" where
  "ascii_white c = (let n = of_char c :: nat in (9 \<le> n \<and> n \<le> 13) \<or> n = 32)"

definition white2 :: "nat \<Rightarrow> nat \<Rightarrow> bool" where
  "white2 a b = (a = 0xC2 \<and> (b = 0x85 \<or> b = 0xA0))"

definition white3 :: "nat \<Rightarrow> nat \<Rightarrow> nat \<Rightarrow> bool" where
  "white3 a b c =
     ((a = 0xE1 \<and> b = 0x9A \<and> c = 0x80) \<or>
      (a = 0xE2 \<and> b = 0x80 \<and> ((0x80 \<le> c \<and> c \<le> 0x8A) \<or> c = 0xA8 \<or> c = 0xA9 \<or> c = 0xAF)) \<or>
      (a = 0xE2 \<and> b = 0x81 \<and> c = 0x9F) \<or> (a = 0xE3 \<and> b = 0x80 \<and> c = 0x80))"

fun blank :: "string \<Rightarrow> bool" where
  "blank [] = True"
| "blank (a # s) =
     (if ascii_white a then blank s
      else case s of
        b # s2 \<Rightarrow>
          if white2 (of_char a) (of_char b) then blank s2
          else (case s2 of
            c # s3 \<Rightarrow> white3 (of_char a) (of_char b) (of_char c) \<and> blank s3
          | [] \<Rightarrow> False)
      | [] \<Rightarrow> False)"

definition em_dash :: string where
  "em_dash = map char_of [0xE2 :: nat, 0x80, 0x94]"

definition app_error :: "app \<Rightarrow> string \<Rightarrow> string" where
  "app_error a what = ''app '' @ [CHR 0x27] @ app_id a @ [CHR 0x27] @ what"

definition validate_webhook :: "app \<Rightarrow> nat \<Rightarrow> webhook_config \<Rightarrow> string + unit" where
  "validate_webhook a i w =
     (let at = '' webhook['' @ show_nat i @ '']: ''
      in if blank (wh_url w) then Inl (app_error a (at @ ''url is empty''))
         else if wh_event_types w = [] then Inl (app_error a (at @ ''event_types must be non-empty''))
         else (case find (\<lambda>t. t \<notin> set WEBHOOK_EVENT_TYPES) (wh_event_types w) of
                 Some t \<Rightarrow>
                   Inl (app_error a (at @ ''unknown event_type '' @ [CHR 0x27] @ t @ [CHR 0x27]))
               | None \<Rightarrow> Inr ()))"

fun validate_webhooks :: "app \<Rightarrow> nat \<Rightarrow> webhook_config list \<Rightarrow> string + unit" where
  "validate_webhooks a i [] = Inr ()"
| "validate_webhooks a i (w # ws) =
     (case validate_webhook a i w of
        Inl e \<Rightarrow> Inl e
      | Inr _ \<Rightarrow> validate_webhooks a (i + 1) ws)"

definition app_validate :: "app \<Rightarrow> string + unit" where
  "app_validate a =
     (if blank (app_id a) then Inl (app_error a '': id is empty'')
      else if blank (app_key a) then Inl (app_error a '': key is empty'')
      else if CHR '':'' \<in> set (app_key a) then
        Inl (app_error a ('': key must not contain '' @ [CHR 0x27, CHR '':'', CHR 0x27] @ '' '' @ em_dash
          @ '' the channel-auth and pusher:signin tokens are '' @ [CHR 0x27] @ ''<key>:<signature>''
          @ [CHR 0x27] @ '' and split at the first colon, so such a key fails every websocket auth''))
      else if blank (app_secret a) then Inl (app_error a '': secret is empty'')
      else validate_webhooks a 0 (app_webhooks a))"


section \<open>Lookups\<close>

datatype app_lookup_error = LookupBackend string | LookupDecode string

fun lookup_error_message :: "app_lookup_error \<Rightarrow> string" where
  "lookup_error_message (LookupBackend m) = ''app store backend error: '' @ m"
| "lookup_error_message (LookupDecode m) = ''app row decode error: '' @ m"

datatype app_lookup = Found app | Disabled | NotFound

fun into_enabled :: "app_lookup \<Rightarrow> app option" where
  "into_enabled (Found a) = Some a"
| "into_enabled Disabled = None"
| "into_enabled NotFound = None"

fun lookup_from_option :: "app option \<Rightarrow> app_lookup" where
  "lookup_from_option (Some a) = Found a"
| "lookup_from_option None = NotFound"


section \<open>Validation\<close>

lemma validate_webhook_ok:
  "validate_webhook a i w = Inr () \<longleftrightarrow>
     \<not> blank (wh_url w) \<and> wh_event_types w \<noteq> [] \<and> set (wh_event_types w) \<subseteq> set WEBHOOK_EVENT_TYPES"
  by (auto simp: validate_webhook_def Let_def find_None_iff split: option.splits)
    (auto simp: find_Some_iff dest: nth_mem)

lemma validate_webhooks_ok:
  "validate_webhooks a i ws = Inr () \<longleftrightarrow> (\<forall>w\<in>set ws. validate_webhook a i w = Inr ())"
proof (induction ws arbitrary: i)
  case (Cons w ws)
  have "validate_webhook a j v = Inr () \<longleftrightarrow> validate_webhook a i v = Inr ()" for j v
    by (simp add: validate_webhook_ok)
  with Cons [of "i + 1"] show ?case by (auto split: sum.split)
qed simp

lemma app_validate_ok:
  "app_validate a = Inr () \<longleftrightarrow>
     \<not> blank (app_id a) \<and> \<not> blank (app_key a) \<and> \<not> blank (app_secret a) \<and> CHR '':'' \<notin> set (app_key a) \<and>
     (\<forall>w\<in>set (app_webhooks a). \<not> blank (wh_url w) \<and> wh_event_types w \<noteq> [] \<and>
        set (wh_event_types w) \<subseteq> set WEBHOOK_EVENT_TYPES)"
  by (auto simp: app_validate_def validate_webhooks_ok validate_webhook_ok)

text \<open>Each gate says whether some endpoint asks for its event.\<close>

lemma any_webhook_iff: "any_webhook a name \<longleftrightarrow> (\<exists>w\<in>set (app_webhooks a). name \<in> set (wh_event_types w))"
  by (auto simp: any_webhook_def list_ex_iff)

end
