(* ===== verification/Webhook.thy ===== *)
theory Webhook
  imports App
begin

text \<open>
  Webhook triggers and the bounded queue in front of the dispatcher, from
  \<^verbatim>\<open>src/webhook/event.rs\<close> and \<^verbatim>\<open>src/webhook/mod.rs\<close>.
\<close>


section \<open>Triggers\<close>

datatype webhook_event =
    WhChannelOccupied (wh_app: string) (wh_channel: string)
  | WhChannelVacated (wh_app: string) (wh_channel: string)
  | WhMemberAdded (wh_app: string) (wh_channel: string) string
  | WhMemberRemoved (wh_app: string) (wh_channel: string) string
  | WhClientEvent (wh_app: string) (wh_channel: string) string json string "string option"
  | WhCacheMiss (wh_app: string) (wh_channel: string)
  | WhSubscriptionCount (wh_app: string) (wh_channel: string) nat

fun wh_name :: "webhook_event \<Rightarrow> string" where
  "wh_name (WhChannelOccupied _ _) = ''channel_occupied''"
| "wh_name (WhChannelVacated _ _) = ''channel_vacated''"
| "wh_name (WhMemberAdded _ _ _) = ''member_added''"
| "wh_name (WhMemberRemoved _ _ _) = ''member_removed''"
| "wh_name (WhClientEvent _ _ _ _ _ _) = ''client_event''"
| "wh_name (WhCacheMiss _ _) = ''cache_miss''"
| "wh_name (WhSubscriptionCount _ _ _) = ''subscription_count''"

fun data_text :: "serde_json \<Rightarrow> json \<Rightarrow> string" where
  "data_text sj (String already_text) = already_text"
| "data_text sj v = to_string sj v"

fun wh_to_json :: "serde_json \<Rightarrow> webhook_event \<Rightarrow> json" where
  "wh_to_json sj (WhChannelOccupied _ ch) =
     Object [(''name'', String ''channel_occupied''), (''channel'', String ch)]"
| "wh_to_json sj (WhChannelVacated _ ch) =
     Object [(''name'', String ''channel_vacated''), (''channel'', String ch)]"
| "wh_to_json sj (WhMemberAdded _ ch uid) =
     Object [(''name'', String ''member_added''), (''channel'', String ch), (''user_id'', String uid)]"
| "wh_to_json sj (WhMemberRemoved _ ch uid) =
     Object [(''name'', String ''member_removed''), (''channel'', String ch), (''user_id'', String uid)]"
| "wh_to_json sj (WhClientEvent _ ch event d socket_id user_id) =
     Object ([(''name'', String ''client_event''), (''channel'', String ch), (''event'', String event),
              (''data'', String (data_text sj d)), (''socket_id'', String socket_id)] @
       (case user_id of Some uid \<Rightarrow> [(''user_id'', String uid)] | None \<Rightarrow> []))"
| "wh_to_json sj (WhCacheMiss _ ch) =
     Object [(''name'', String ''cache_miss''), (''channel'', String ch)]"
| "wh_to_json sj (WhSubscriptionCount _ ch count) =
     Object [(''name'', String ''subscription_count''), (''channel'', String ch),
             (''subscription_count'', json_nat count)]"


section \<open>The queue\<close>

text \<open>The handle is cloned freely; all clones share one queue and one set of counters.\<close>

record webhook_queue =
  wq_events :: "webhook_event list"
  wq_capacity :: nat
  wq_alive :: bool
  wq_enqueued :: u64
  wq_dropped :: u64

definition enqueue :: "webhook_event \<Rightarrow> webhook_queue \<Rightarrow> webhook_queue" where
  "enqueue event q =
     (if \<not> wq_alive q then q\<lparr>wq_dropped := wq_dropped q + 1\<rparr>
      else if wq_capacity q \<le> length (wq_events q) then q\<lparr>wq_dropped := wq_dropped q + 1\<rparr>
      else q\<lparr>wq_events := wq_events q @ [event], wq_enqueued := wq_enqueued q + 1\<rparr>)"

definition queue_depth :: "webhook_queue \<Rightarrow> nat" where
  "queue_depth q = wq_capacity q - (wq_capacity q - length (wq_events q))"

lemma wh_name_legal: "wh_name e \<in> set WEBHOOK_EVENT_TYPES"
  by (cases e) (simp_all add: WEBHOOK_EVENT_TYPES_def)

lemma wh_to_json_name: "json_get ''name'' (wh_to_json sj e) = Some (String (wh_name e))"
  by (cases e) simp_all

lemma enqueue_room:
  "wq_alive q \<Longrightarrow> length (wq_events q) < wq_capacity q \<Longrightarrow> wq_events (enqueue e q) = wq_events q @ [e]"
  by (simp add: enqueue_def)

end
