(* ===== verification/Adapter.thy ===== *)
theory Adapter
  imports Channel_Registry User_Registry Fanout Webhook
begin

text \<open>
  The adapter seam, from \<^verbatim>\<open>src/adapter/mod.rs\<close>: the operations through which the connection
  handlers reach the channel and user state, as a record of functions, and the laws a handler
  relies on, as a locale. The state of an adapter is abstract here; what all the connections
  of a process share besides it (the clock, the mailboxes, the worker inboxes with the
  saturation flag, the webhook queue) is the node around it.
\<close>


section \<open>The interface\<close>

record 's node =
  nd_now :: nat
  nd_mail :: mailboxes
  nd_fan :: fan
  nd_hooks :: webhook_queue
  nd_state :: 's

datatype broadcast_error = Publish string

record cached_event =
  ce_event :: string
  ce_data :: string

record 's adapter =
  ad_subscribe ::
    "string \<Rightarrow> string \<Rightarrow> connection_handle \<Rightarrow> presence_member option \<Rightarrow> 's node \<Rightarrow> subscribe_outcome \<times> 's node"
  ad_unsubscribe :: "string \<Rightarrow> string \<Rightarrow> socket_id \<Rightarrow> 's node \<Rightarrow> unsubscribe_outcome \<times> 's node"
  ad_broadcast ::
    "string \<Rightarrow> string \<Rightarrow> server_event \<Rightarrow> socket_id option \<Rightarrow> 's node \<Rightarrow> (broadcast_error + unit) \<times> 's node"
  ad_channels :: "string \<Rightarrow> string option \<Rightarrow> 's node \<Rightarrow> channel_summary list \<times> 's node"
  ad_channel :: "string \<Rightarrow> string \<Rightarrow> 's node \<Rightarrow> channel_summary \<times> 's node"
  ad_presence_members :: "string \<Rightarrow> string \<Rightarrow> 's node \<Rightarrow> presence_member list \<times> 's node"
  ad_resend_presence_ack :: "string \<Rightarrow> string \<Rightarrow> mailbox \<Rightarrow> 's node \<Rightarrow> 's node"
  ad_cache_set :: "string \<Rightarrow> string \<Rightarrow> cached_event \<Rightarrow> nat \<Rightarrow> 's node \<Rightarrow> 's node"
  ad_cache_get :: "string \<Rightarrow> string \<Rightarrow> 's node \<Rightarrow> cached_event option \<times> 's node"
  ad_signin_user :: "string \<Rightarrow> string \<Rightarrow> connection_handle \<Rightarrow> 's node \<Rightarrow> bool \<times> 's node"
  ad_signout_user :: "string \<Rightarrow> string \<Rightarrow> socket_id \<Rightarrow> 's node \<Rightarrow> bool \<times> 's node"
  ad_is_user_online :: "string \<Rightarrow> string \<Rightarrow> 's node \<Rightarrow> bool \<times> 's node"
  ad_send_to_user :: "string \<Rightarrow> string \<Rightarrow> server_event \<Rightarrow> 's node \<Rightarrow> 's node"
  ad_terminate_user :: "string \<Rightarrow> string \<Rightarrow> 's node \<Rightarrow> socket_id list \<times> 's node"
  ad_purge_app :: "string \<Rightarrow> 's node \<Rightarrow> socket_id list \<times> 's node"
  ad_watch :: "string \<Rightarrow> connection_handle \<Rightarrow> string list \<Rightarrow> 's node \<Rightarrow> string list \<times> 's node"
  ad_unwatch :: "string \<Rightarrow> socket_id \<Rightarrow> 's node \<Rightarrow> 's node"
  ad_watchers_of :: "string \<Rightarrow> string \<Rightarrow> 's node \<Rightarrow> connection_handle list \<times> 's node"


section \<open>The contract\<close>

text \<open>
  \<open>rel s tab us\<close>: the adapter state \<open>s\<close> represents the subscriptions \<open>tab\<close> and the signed-in and
  watching connections \<open>us\<close>. Joining and leaving report exact edges and counts; every other
  operation leaves what is represented as it was.
\<close>

definition channel_users :: "subscriptions \<Rightarrow> string set" where
  "channel_users l = {uid. ref_conns uid l \<noteq> []}"

locale adapter_laws =
  fixes ad :: "'s adapter" and rel :: "'s \<Rightarrow> subscription_table \<Rightarrow> user_ref \<Rightarrow> bool"
  assumes subscribe_law:
      "rel (nd_state n) tab us \<Longrightarrow> ad_subscribe ad app ch h m n = (out, n') \<Longrightarrow>
       rel (nd_state n') (tab((app, ch) := ref_add (handle_socket_id h) m (tab (app, ch)))) us \<and>
       so_occupied out = (tab (app, ch) = []) \<and>
       so_subscription_count out = length (ref_add (handle_socket_id h) m (tab (app, ch))) \<and>
       map_option first_for_user (so_presence out) =
         map_option (\<lambda>p. ref_conns (pm_user_id p) (ref_remove (handle_socket_id h) (tab (app, ch))) = []) m"
    and unsubscribe_law:
      "rel (nd_state n) tab us \<Longrightarrow> ad_unsubscribe ad app ch sid n = (gone, n') \<Longrightarrow>
       rel (nd_state n') (tab((app, ch) := ref_remove sid (tab (app, ch)))) us \<and>
       uo_vacated gone = (tab (app, ch) \<noteq> [] \<and> ref_remove sid (tab (app, ch)) = []) \<and>
       uo_subscription_count gone = length (ref_remove sid (tab (app, ch)))"
    and broadcast_law:
      "rel (nd_state n) tab us \<Longrightarrow> ad_broadcast ad app ch ev except n = (res, n') \<Longrightarrow> rel (nd_state n') tab us"
    and channel_law:
      "rel (nd_state n) tab us \<Longrightarrow> ad_channel ad app ch n = (sm, n') \<Longrightarrow>
       rel (nd_state n') tab us \<and>
       sum_subscription_count sm = length (tab (app, ch)) \<and>
       (case sum_user_count sm of None \<Rightarrow> 0 | Some c \<Rightarrow> c) = card (channel_users (tab (app, ch)))"
    and members_law:
      "rel (nd_state n) tab us \<Longrightarrow> ad_presence_members ad app ch n = (ms, n') \<Longrightarrow>
       rel (nd_state n') tab us \<and> pm_user_id ` set ms = channel_users (tab (app, ch))"
    and resend_law:
      "rel (nd_state n) tab us \<Longrightarrow> rel (nd_state (ad_resend_presence_ack ad app ch mb n)) tab us"
    and cache_get_law:
      "rel (nd_state n) tab us \<Longrightarrow> ad_cache_get ad app ch n = (c, n') \<Longrightarrow> rel (nd_state n') tab us"
    and cache_set_law:
      "rel (nd_state n) tab us \<Longrightarrow> rel (nd_state (ad_cache_set ad app ch e ttl n)) tab us"
    and signin_law:
      "rel (nd_state n) tab us \<Longrightarrow> ad_signin_user ad app uid h n = (first, n') \<Longrightarrow>
       rel (nd_state n') tab (user_ref_step us (SigninOp app uid h)) \<and>
       first = (dom (signed_in us (app, uid)) = {})"
    and signout_law:
      "rel (nd_state n) tab us \<Longrightarrow> ad_signout_user ad app uid sid n = (was_last, n') \<Longrightarrow>
       rel (nd_state n') tab (user_ref_step us (SignoutOp app uid sid)) \<and>
       was_last = (dom (signed_in us (app, uid)) = {sid})"
    and watch_law:
      "rel (nd_state n) tab us \<Longrightarrow> ad_watch ad app h ws n = (online, n') \<Longrightarrow>
       rel (nd_state n') tab (user_ref_step us (WatchOp app h ws)) \<and>
       online = filter (\<lambda>w. dom (signed_in us (app, w)) \<noteq> {}) ws"
    and unwatch_law:
      "rel (nd_state n) tab us \<Longrightarrow>
       rel (nd_state (ad_unwatch ad app sid n)) tab (user_ref_step us (UnwatchOp app sid))"
    and watchers_law:
      "rel (nd_state n) tab us \<Longrightarrow> ad_watchers_of ad app uid n = (hs, n') \<Longrightarrow>
       rel (nd_state n') tab us \<and> set hs = ran (watchers_view (watches us) (app, uid))"

text \<open>
  An adapter that answers in the process itself: it never fails a broadcast and raises no
  webhook of its own, so every webhook comes from a handler.
\<close>

locale quiet_adapter = adapter_laws +
  assumes quiet:
      "nd_hooks (snd (ad_subscribe ad app ch h m n)) = nd_hooks n"
      "nd_hooks (snd (ad_unsubscribe ad app ch sid n)) = nd_hooks n"
      "nd_hooks (snd (ad_broadcast ad app ch ev except n)) = nd_hooks n"
      "nd_hooks (snd (ad_channel ad app ch n)) = nd_hooks n"
      "nd_hooks (snd (ad_presence_members ad app ch n)) = nd_hooks n"
      "nd_hooks (ad_resend_presence_ack ad app ch mb n) = nd_hooks n"
      "nd_hooks (snd (ad_cache_get ad app ch n)) = nd_hooks n"
      "nd_hooks (snd (ad_signin_user ad app uid h n)) = nd_hooks n"
      "nd_hooks (snd (ad_signout_user ad app uid sid n)) = nd_hooks n"
      "nd_hooks (snd (ad_watch ad app h ws n)) = nd_hooks n"
      "nd_hooks (ad_unwatch ad app sid n) = nd_hooks n"
      "nd_hooks (snd (ad_watchers_of ad app uid n)) = nd_hooks n"

end
