(* ===== verification/Local_Adapter.thy ===== *)
theory Local_Adapter
  imports Adapter
begin

text \<open>
  The in-process adapter, from \<^verbatim>\<open>src/adapter/local.rs\<close> and \<^verbatim>\<open>src/channel/cache.rs\<close>: the channel
  registry, the user registry, the connections by application and the cache of last events.
  The cache itself is the library moka, a parameter; the expiry policy handed to it is the
  code's.
\<close>


section \<open>The cache of last events\<close>

record cache_entry =
  ent_event :: cached_event
  ent_ttl :: nat

text \<open>The policy: the deadline of an entry, relative to its creation or update.\<close>

definition expire_after_create :: "string \<times> string \<Rightarrow> cache_entry \<Rightarrow> nat option" where
  "expire_after_create key e = Some (ent_ttl e)"

definition expire_after_update :: "string \<times> string \<Rightarrow> cache_entry \<Rightarrow> nat option \<Rightarrow> nat option" where
  "expire_after_update key e until_expiry = Some (ent_ttl e)"

record 'c moka =
  mk_insert ::
    "(string \<times> string \<Rightarrow> cache_entry \<Rightarrow> nat option) \<Rightarrow> (string \<times> string \<Rightarrow> cache_entry \<Rightarrow> nat option \<Rightarrow> nat option)
       \<Rightarrow> nat \<Rightarrow> string \<times> string \<Rightarrow> cache_entry \<Rightarrow> 'c \<Rightarrow> 'c"
  mk_get :: "nat \<Rightarrow> string \<times> string \<Rightarrow> 'c \<Rightarrow> cache_entry option \<times> 'c"

definition cache_set :: "'c moka \<Rightarrow> nat \<Rightarrow> string \<Rightarrow> string \<Rightarrow> cached_event \<Rightarrow> nat \<Rightarrow> 'c \<Rightarrow> 'c" where
  "cache_set mk now app channel event ttl c =
     mk_insert mk expire_after_create expire_after_update now (app, channel)
       \<lparr>ent_event = event, ent_ttl = ttl\<rparr> c"

definition cache_get :: "'c moka \<Rightarrow> nat \<Rightarrow> string \<Rightarrow> string \<Rightarrow> 'c \<Rightarrow> cached_event option \<times> 'c" where
  "cache_get mk now app channel c =
     (let (e, c') = mk_get mk now (app, channel) c in (map_option ent_event e, c'))"


section \<open>State\<close>

text \<open>
  \<open>la_sink\<close> says that the per-core sink is installed; the sink and the saturation flag are the
  \<open>fan\<close> of the node. \<open>la_sched\<close> is the schedule of the parallel sends of the mailbox path.
\<close>

record 'c local_adapter =
  la_registry :: registry
  la_cache :: 'c
  la_users :: user_registry
  la_apps :: app_registry
  la_sink :: bool
  la_sched :: "nat list"

definition local_adapter_new :: "'c \<Rightarrow> app_registry \<Rightarrow> 'c local_adapter" where
  "local_adapter_new cache apps =
     \<lparr>la_registry = [], la_cache = cache, la_users = user_registry_new, la_apps = apps,
      la_sink = False, la_sched = []\<rparr>"

definition set_broadcast_sink :: "'c local_adapter \<Rightarrow> 'c local_adapter" where
  "set_broadcast_sink s = s\<lparr>la_sink := True\<rparr>"


section \<open>Operations\<close>

definition deliver_all :: "connection_handle list \<Rightarrow> server_event list \<Rightarrow> mailboxes \<Rightarrow> mailboxes" where
  "deliver_all hs evs w = fold (\<lambda>h. fold (deliver h) evs) hs w"

definition close_handles_4009 :: "connection_handle list \<Rightarrow> mailboxes \<Rightarrow> socket_id list \<times> mailboxes" where
  "close_handles_4009 handles w =
     (map handle_socket_id handles,
      deliver_all handles
        [ErrorEvent (new_error 4009 ''You got disconnected by the app.''),
         Close 4009 ''You got disconnected by the app.''] w)"

definition la_subscribe ::
  "serde_json \<Rightarrow> string \<Rightarrow> string \<Rightarrow> connection_handle \<Rightarrow> presence_member option \<Rightarrow> 'c local_adapter node
     \<Rightarrow> subscribe_outcome \<times> 'c local_adapter node" where
  "la_subscribe sj app channel handle member n =
     (let (out, r) = registry_subscribe sj app channel handle member (la_registry (nd_state n))
      in (out, n\<lparr>nd_state := (nd_state n)\<lparr>la_registry := r\<rparr>\<rparr>))"

definition la_unsubscribe ::
  "serde_json \<Rightarrow> string \<Rightarrow> string \<Rightarrow> socket_id \<Rightarrow> 'c local_adapter node
     \<Rightarrow> unsubscribe_outcome \<times> 'c local_adapter node" where
  "la_unsubscribe sj app channel sid n =
     (let (out, r) = registry_unsubscribe sj app channel sid (la_registry (nd_state n))
      in (out, n\<lparr>nd_state := (nd_state n)\<lparr>la_registry := r\<rparr>\<rparr>))"

text \<open>
  The parallel sends return when every job has finished: the schedule is completed by running
  what it leaves, job after job.
\<close>

definition complete_sched :: "nat list \<Rightarrow> nat \<Rightarrow> nat list" where
  "complete_sched sched subscribers = sched @ concat (map (replicate SEND_CHUNK) [0..<subscribers])"

text \<open>The encoding of the frames never fails on the active versions (lemma \<open>frames_for_active\<close>).\<close>

definition la_broadcast ::
  "serde_json \<Rightarrow> string \<Rightarrow> string \<Rightarrow> server_event \<Rightarrow> socket_id option \<Rightarrow> 'c local_adapter node
     \<Rightarrow> (broadcast_error + unit) \<times> 'c local_adapter node" where
  "la_broadcast sj app channel event except n =
     (let s = nd_state n
      in if la_sink s
         then (case frames_for sj all_versions event of
                 Some frames \<Rightarrow> (Inr (), n\<lparr>nd_fan := sink_broadcast app channel frames except (nd_fan n)\<rparr>)
               | None \<Rightarrow> (Inr (), n))
         else (let sched = complete_sched (la_sched s)
                     (sum_subscription_count (channel_summary_of app channel (la_registry s)));
                   (_, r, w) = registry_broadcast sj sched app channel event except (la_registry s) (nd_mail n)
               in (Inr (), n\<lparr>nd_mail := w, nd_state := s\<lparr>la_registry := r\<rparr>\<rparr>)))"

definition la_channels ::
  "string \<Rightarrow> string option \<Rightarrow> 'c local_adapter node \<Rightarrow> channel_summary list \<times> 'c local_adapter node" where
  "la_channels app prefix n = (registry_channels app prefix (la_registry (nd_state n)), n)"

definition la_channel ::
  "string \<Rightarrow> string \<Rightarrow> 'c local_adapter node \<Rightarrow> channel_summary \<times> 'c local_adapter node" where
  "la_channel app channel n = (channel_summary_of app channel (la_registry (nd_state n)), n)"

definition la_presence_members ::
  "string \<Rightarrow> string \<Rightarrow> 'c local_adapter node \<Rightarrow> presence_member list \<times> 'c local_adapter node" where
  "la_presence_members app channel n = (registry_presence_members app channel (la_registry (nd_state n)), n)"

definition la_resend_presence_ack ::
  "serde_json \<Rightarrow> string \<Rightarrow> string \<Rightarrow> mailbox \<Rightarrow> 'c local_adapter node \<Rightarrow> 'c local_adapter node" where
  "la_resend_presence_ack sj app channel mb n =
     (let (fo, r) = registry_roster_frame sj app channel (la_registry (nd_state n));
          n1 = n\<lparr>nd_state := (nd_state n)\<lparr>la_registry := r\<rparr>\<rparr>
      in case fo of
           Some frame \<Rightarrow> n1\<lparr>nd_mail := snd (mailbox_send mb (Raw frame) (nd_mail n1))\<rparr>
         | None \<Rightarrow> n1)"

definition la_cache_set ::
  "'c moka \<Rightarrow> string \<Rightarrow> string \<Rightarrow> cached_event \<Rightarrow> nat \<Rightarrow> 'c local_adapter node \<Rightarrow> 'c local_adapter node" where
  "la_cache_set mk app channel event ttl n =
     n\<lparr>nd_state := (nd_state n)\<lparr>la_cache := cache_set mk (nd_now n) app channel event ttl (la_cache (nd_state n))\<rparr>\<rparr>"

definition la_cache_get ::
  "'c moka \<Rightarrow> string \<Rightarrow> string \<Rightarrow> 'c local_adapter node \<Rightarrow> cached_event option \<times> 'c local_adapter node" where
  "la_cache_get mk app channel n =
     (let (e, c) = cache_get mk (nd_now n) app channel (la_cache (nd_state n))
      in (e, n\<lparr>nd_state := (nd_state n)\<lparr>la_cache := c\<rparr>\<rparr>))"

definition la_signin_user ::
  "string \<Rightarrow> string \<Rightarrow> connection_handle \<Rightarrow> 'c local_adapter node \<Rightarrow> bool \<times> 'c local_adapter node" where
  "la_signin_user app uid handle n =
     (let (first, u) = ur_signin app uid handle (la_users (nd_state n))
      in (first, n\<lparr>nd_state := (nd_state n)\<lparr>la_users := u\<rparr>\<rparr>))"

definition la_signout_user ::
  "string \<Rightarrow> string \<Rightarrow> socket_id \<Rightarrow> 'c local_adapter node \<Rightarrow> bool \<times> 'c local_adapter node" where
  "la_signout_user app uid sid n =
     (let (was_last, u) = ur_signout app uid sid (la_users (nd_state n))
      in (was_last, n\<lparr>nd_state := (nd_state n)\<lparr>la_users := u\<rparr>\<rparr>))"

definition la_is_user_online ::
  "string \<Rightarrow> string \<Rightarrow> 'c local_adapter node \<Rightarrow> bool \<times> 'c local_adapter node" where
  "la_is_user_online app uid n = (ur_is_online app uid (la_users (nd_state n)), n)"

definition la_send_to_user ::
  "serde_json \<Rightarrow> string \<Rightarrow> string \<Rightarrow> server_event \<Rightarrow> 'c local_adapter node \<Rightarrow> 'c local_adapter node" where
  "la_send_to_user sj app uid event n =
     (let handles = ur_handles app uid (la_users (nd_state n))
      in if handles = [] then n
         else (let frame = (case event of Raw f \<Rightarrow> f | _ \<Rightarrow> active_frame sj event)
               in n\<lparr>nd_mail := deliver_all handles [Raw frame] (nd_mail n)\<rparr>))"

definition la_terminate_user ::
  "string \<Rightarrow> string \<Rightarrow> 'c local_adapter node \<Rightarrow> socket_id list \<times> 'c local_adapter node" where
  "la_terminate_user app uid n =
     (let (ids, w) = close_handles_4009 (ur_handles app uid (la_users (nd_state n))) (nd_mail n)
      in (ids, n\<lparr>nd_mail := w\<rparr>))"

definition la_purge_app :: "string \<Rightarrow> 'c local_adapter node \<Rightarrow> socket_id list \<times> 'c local_adapter node" where
  "la_purge_app app n =
     (let (handles, r) = drain_app app (la_apps (nd_state n));
          (ids, w) = close_handles_4009 handles (nd_mail n)
      in (ids, n\<lparr>nd_mail := w, nd_state := (nd_state n)\<lparr>la_apps := r\<rparr>\<rparr>))"

definition watch_edges ::
  "string \<Rightarrow> connection_handle \<Rightarrow> string list \<Rightarrow> 'c local_adapter node
     \<Rightarrow> (string list \<times> string list) \<times> 'c local_adapter node" where
  "watch_edges app handle watched n =
     (let (res, u) = ur_watch app handle watched (la_users (nd_state n))
      in (res, n\<lparr>nd_state := (nd_state n)\<lparr>la_users := u\<rparr>\<rparr>))"

definition unwatch_edges ::
  "string \<Rightarrow> socket_id \<Rightarrow> 'c local_adapter node \<Rightarrow> string list \<times> 'c local_adapter node" where
  "unwatch_edges app sid n =
     (let (emptied, u) = ur_unwatch app sid (la_users (nd_state n))
      in (emptied, n\<lparr>nd_state := (nd_state n)\<lparr>la_users := u\<rparr>\<rparr>))"

definition la_watch ::
  "string \<Rightarrow> connection_handle \<Rightarrow> string list \<Rightarrow> 'c local_adapter node \<Rightarrow> string list \<times> 'c local_adapter node" where
  "la_watch app handle watched n = (let (res, n') = watch_edges app handle watched n in (fst res, n'))"

definition la_unwatch :: "string \<Rightarrow> socket_id \<Rightarrow> 'c local_adapter node \<Rightarrow> 'c local_adapter node" where
  "la_unwatch app sid n = snd (unwatch_edges app sid n)"

definition la_watchers_of ::
  "string \<Rightarrow> string \<Rightarrow> 'c local_adapter node \<Rightarrow> connection_handle list \<times> 'c local_adapter node" where
  "la_watchers_of app uid n = (ur_watchers_of app uid (la_users (nd_state n)), n)"

definition local_members :: "'c local_adapter \<Rightarrow> (channel_key \<times> socket_id list) list" where
  "local_members s = registry_local_members (la_registry s)"

definition local_user_bindings :: "'c local_adapter \<Rightarrow> ((string \<times> string) \<times> socket_id list) list" where
  "local_user_bindings s = ur_local_bindings (la_users s)"

definition local_impl :: "serde_json \<Rightarrow> 'c moka \<Rightarrow> 'c local_adapter adapter" where
  "local_impl sj mk =
     \<lparr>ad_subscribe = la_subscribe sj, ad_unsubscribe = la_unsubscribe sj, ad_broadcast = la_broadcast sj,
      ad_channels = la_channels, ad_channel = la_channel, ad_presence_members = la_presence_members,
      ad_resend_presence_ack = la_resend_presence_ack sj, ad_cache_set = la_cache_set mk,
      ad_cache_get = la_cache_get mk, ad_signin_user = la_signin_user, ad_signout_user = la_signout_user,
      ad_is_user_online = la_is_user_online, ad_send_to_user = la_send_to_user sj,
      ad_terminate_user = la_terminate_user, ad_purge_app = la_purge_app, ad_watch = la_watch,
      ad_unwatch = la_unwatch, ad_watchers_of = la_watchers_of\<rparr>"


section \<open>The contract holds\<close>

definition la_rel :: "serde_json \<Rightarrow> 'c local_adapter \<Rightarrow> subscription_table \<Rightarrow> user_ref \<Rightarrow> bool" where
  "la_rel sj s tab us \<longleftrightarrow> reg_rel sj (la_registry s) tab \<and> ur_rel (la_users s) us"

lemma la_rel_new: "la_rel sj (local_adapter_new c apps) (\<lambda>_. []) user_ref_new"
  by (simp add: la_rel_def local_adapter_new_def reg_rel_empty ur_rel_new)

lemma registry_subscribe_presence:
  assumes rel: "reg_rel sj r tab" and s: "registry_subscribe sj app channel handle member r = (out, r')"
  shows "map_option first_for_user (so_presence out) =
    map_option (\<lambda>p. ref_conns (pm_user_id p) (ref_remove (handle_socket_id handle) (tab (app, channel))) = []) member"
proof -
  let ?k = "(app, channel)"
  define st where "st = (case map_of r ?k of Some s \<Rightarrow> s | None \<Rightarrow> channel_state_default)"
  have st: "cs_rel sj channel st (tab ?k)"
    using reg_rel_state [OF rel, of ?k] by (simp add: st_def)
  obtain j st' where a: "cs_add sj channel handle member st = (j, st')" by fastforce
  with s have "so_presence out = j" by (auto simp: registry_subscribe_def Let_def simp flip: st_def)
  with cs_add_rel [OF st a refl] show ?thesis by (cases member) simp_all
qed

lemma summary_rel:
  assumes "reg_rel sj r tab"
  shows "sum_subscription_count (channel_summary_of app ch r) = length (tab (app, ch))"
    and "(case sum_user_count (channel_summary_of app ch r) of None \<Rightarrow> 0 | Some c \<Rightarrow> c) =
      card (channel_users (tab (app, ch)))"
proof (atomize (full), cases "map_of r (app, ch)")
  case None
  with reg_rel_None [OF assms None] show "sum_subscription_count (channel_summary_of app ch r) = length (tab (app, ch)) \<and>
      (case sum_user_count (channel_summary_of app ch r) of None \<Rightarrow> 0 | Some c \<Rightarrow> c) = card (channel_users (tab (app, ch)))"
    by (simp add: channel_summary_of_def channel_users_def ref_conns_def)
next
  case (Some s)
  with reg_rel_Some [OF assms Some] have cs: "cs_rel sj ch s (tab (app, ch))" by simp
  show "sum_subscription_count (channel_summary_of app ch r) = length (tab (app, ch)) \<and>
      (case sum_user_count (channel_summary_of app ch r) of None \<Rightarrow> 0 | Some c \<Rightarrow> c) = card (channel_users (tab (app, ch)))"
    using Some cs_rel_count [OF cs] cs_rel_user_count [OF cs]
    by (simp add: channel_summary_of_def channel_users_def Let_def)
qed

lemma presence_members_rel:
  assumes "reg_rel sj r tab"
  shows "pm_user_id ` set (registry_presence_members app ch r) = channel_users (tab (app, ch))"
proof (cases "map_of r (app, ch)")
  case None
  with reg_rel_None [OF assms None] show ?thesis
    by (simp add: registry_presence_members_def channel_users_def ref_conns_def)
next
  case (Some s)
  with reg_rel_Some [OF assms Some] have cs: "cs_rel sj ch s (tab (app, ch))" by simp
  have "pm_user_id ` set (members s) = set (map fst (cs_users s))"
    by (force simp: members_def)
  with Some cs_rel_users [OF cs] show ?thesis
    by (simp add: registry_presence_members_def channel_users_def)
qed

lemma watchers_of_rel:
  assumes "ur_rel ur us"
  shows "set (ur_watchers_of app uid ur) = ran (watchers_view (watches us) (app, uid))"
proof -
  have ok: "groups_ok (ur_watchers ur)" and v: "gview (ur_watchers ur) = watchers_view (watches us)"
    using assms by (auto simp: ur_rel_def)
  from group_of_ok [OF ok] have "hm_ok (group_of (ur_watchers ur) (app, uid))" .
  then have "ran (gview (ur_watchers ur) (app, uid)) = snd ` set (group_of (ur_watchers ur) (app, uid))"
    by (simp add: gview_def ran_distinct hm_ok_def)
  with v show ?thesis by (simp add: ur_watchers_of_def)
qed

lemmas la_defs = local_impl_def la_subscribe_def la_unsubscribe_def la_broadcast_def la_channel_def
  la_presence_members_def la_resend_presence_ack_def la_cache_get_def la_cache_set_def la_signin_user_def
  la_signout_user_def la_watch_def watch_edges_def la_unwatch_def unwatch_edges_def la_watchers_of_def

lemma la_broadcast_rel:
  assumes "la_rel sj (nd_state n) tab us" and "la_broadcast sj app ch ev except n = (res, n')"
  shows "la_rel sj (nd_state n') tab us"
proof (cases "la_sink (nd_state n)")
  case True
  with assms show ?thesis by (auto simp: la_broadcast_def Let_def split: option.splits)
next
  case False
  let ?sched = "complete_sched (la_sched (nd_state n))
    (sum_subscription_count (channel_summary_of app ch (la_registry (nd_state n))))"
  obtain left r w where b: "registry_broadcast sj ?sched app ch ev except (la_registry (nd_state n)) (nd_mail n) = (left, r, w)"
    using prod_cases3 by blast
  have "reg_rel sj r tab"
    using registry_broadcast_rel [OF _ b] assms(1) by (simp add: la_rel_def)
  with False assms b show ?thesis by (auto simp: la_broadcast_def la_rel_def)
qed

interpretation local: quiet_adapter "local_impl sj mk" "la_rel sj" for sj :: serde_json and mk :: "'c moka"
proof unfold_locales
  fix n :: "'c local_adapter node" and tab us app ch h m out n'
  assume "la_rel sj (nd_state n) tab us" and "ad_subscribe (local_impl sj mk) app ch h m n = (out, n')"
  then show "la_rel sj (nd_state n') (tab((app, ch) := ref_add (handle_socket_id h) m (tab (app, ch)))) us \<and>
      so_occupied out = (tab (app, ch) = []) \<and>
      so_subscription_count out = length (ref_add (handle_socket_id h) m (tab (app, ch))) \<and>
      map_option first_for_user (so_presence out) =
        map_option (\<lambda>p. ref_conns (pm_user_id p) (ref_remove (handle_socket_id h) (tab (app, ch))) = []) m"
    using registry_subscribe_rel [OF _ _ refl] registry_subscribe_presence
    by (fastforce simp: la_rel_def la_subscribe_def local_impl_def split: prod.splits)
next
  fix n :: "'c local_adapter node" and tab us app ch sid gone n'
  assume "la_rel sj (nd_state n) tab us" and "ad_unsubscribe (local_impl sj mk) app ch sid n = (gone, n')"
  then show "la_rel sj (nd_state n') (tab((app, ch) := ref_remove sid (tab (app, ch)))) us \<and>
      uo_vacated gone = (tab (app, ch) \<noteq> [] \<and> ref_remove sid (tab (app, ch)) = []) \<and>
      uo_subscription_count gone = length (ref_remove sid (tab (app, ch)))"
    using registry_unsubscribe_rel
    by (fastforce simp: la_rel_def la_unsubscribe_def local_impl_def split: prod.splits)
next
  fix n :: "'c local_adapter node" and tab us app ch ev except res n'
  assume "la_rel sj (nd_state n) tab us" and "ad_broadcast (local_impl sj mk) app ch ev except n = (res, n')"
  then show "la_rel sj (nd_state n') tab us"
    using la_broadcast_rel by (auto simp: local_impl_def)
next
  fix n :: "'c local_adapter node" and tab us app ch sm n'
  assume "la_rel sj (nd_state n) tab us" and "ad_channel (local_impl sj mk) app ch n = (sm, n')"
  then show "la_rel sj (nd_state n') tab us \<and> sum_subscription_count sm = length (tab (app, ch)) \<and>
      (case sum_user_count sm of None \<Rightarrow> 0 | Some c \<Rightarrow> c) = card (channel_users (tab (app, ch)))"
    using summary_rel by (auto simp: la_rel_def la_channel_def local_impl_def)
next
  fix n :: "'c local_adapter node" and tab us app ch ms n'
  assume "la_rel sj (nd_state n) tab us" and "ad_presence_members (local_impl sj mk) app ch n = (ms, n')"
  then show "la_rel sj (nd_state n') tab us \<and> pm_user_id ` set ms = channel_users (tab (app, ch))"
    using presence_members_rel [of sj "la_registry (nd_state n)" tab app ch]
    by (simp add: la_rel_def la_presence_members_def local_impl_def) blast
next
  fix n :: "'c local_adapter node" and tab us app ch mb
  assume "la_rel sj (nd_state n) tab us"
  then show "la_rel sj (nd_state (ad_resend_presence_ack (local_impl sj mk) app ch mb n)) tab us"
    using registry_roster_frame_rel
    by (fastforce simp: la_rel_def la_resend_presence_ack_def local_impl_def Let_def split: prod.splits option.splits)
next
  fix n :: "'c local_adapter node" and tab us app ch c n'
  assume "la_rel sj (nd_state n) tab us" and "ad_cache_get (local_impl sj mk) app ch n = (c, n')"
  then show "la_rel sj (nd_state n') tab us"
    by (auto simp: la_rel_def la_cache_get_def local_impl_def split: prod.splits)
next
  fix n :: "'c local_adapter node" and tab us app uid h "first" n'
  assume "la_rel sj (nd_state n) tab us" and "ad_signin_user (local_impl sj mk) app uid h n = (first, n')"
  then show "la_rel sj (nd_state n') tab (user_ref_step us (SigninOp app uid h)) \<and>
      first = (dom (signed_in us (app, uid)) = {})"
    using ur_signin_rel [of "la_users (nd_state n)" us app uid h]
    by (auto simp: la_rel_def la_signin_user_def local_impl_def split: prod.splits)
next
  fix n :: "'c local_adapter node" and tab us app uid sid was_last n'
  assume "la_rel sj (nd_state n) tab us" and "ad_signout_user (local_impl sj mk) app uid sid n = (was_last, n')"
  then show "la_rel sj (nd_state n') tab (user_ref_step us (SignoutOp app uid sid)) \<and>
      was_last = (dom (signed_in us (app, uid)) = {sid})"
    using ur_signout_rel [of "la_users (nd_state n)" us app uid sid]
    by (auto simp: la_rel_def la_signout_user_def local_impl_def split: prod.splits)
next
  fix n :: "'c local_adapter node" and tab us app h ws online n'
  assume "la_rel sj (nd_state n) tab us" and "ad_watch (local_impl sj mk) app h ws n = (online, n')"
  then show "la_rel sj (nd_state n') tab (user_ref_step us (WatchOp app h ws)) \<and>
      online = filter (\<lambda>w. dom (signed_in us (app, w)) \<noteq> {}) ws"
    using ur_watch_rel [of "la_users (nd_state n)" us app h ws]
    by (auto simp: la_rel_def la_watch_def watch_edges_def local_impl_def split: prod.splits)
next
  fix n :: "'c local_adapter node" and tab us app sid
  assume "la_rel sj (nd_state n) tab us"
  then show "la_rel sj (nd_state (ad_unwatch (local_impl sj mk) app sid n)) tab (user_ref_step us (UnwatchOp app sid))"
    using ur_unwatch_rel [of "la_users (nd_state n)" us app sid]
    by (auto simp: la_rel_def la_unwatch_def unwatch_edges_def local_impl_def split: prod.splits)
next
  fix n :: "'c local_adapter node" and tab us app uid hs n'
  assume "la_rel sj (nd_state n) tab us" and "ad_watchers_of (local_impl sj mk) app uid n = (hs, n')"
  then show "la_rel sj (nd_state n') tab us \<and> set hs = ran (watchers_view (watches us) (app, uid))"
    using watchers_of_rel [of "la_users (nd_state n)" us app uid]
    by (simp add: la_rel_def la_watchers_of_def local_impl_def) blast
qed (auto simp: la_defs la_rel_def Let_def split: prod.splits option.splits)

end
