(* ===== verification/Ws_Handler.thy ===== *)
theory Ws_Handler
  imports Adapter Auth Rate
begin

text \<open>
  The dispatch of client commands on one connection, from \<^verbatim>\<open>src/ws/handler.rs\<close>,
  \<^verbatim>\<open>src/ws/subscribe.rs\<close> and \<^verbatim>\<open>src/ws/signin.rs\<close>. A handler takes the connection's context and
  the node and returns both; the adapter, the JSON library and the cryptographic library are
  parameters.
\<close>


section \<open>Context\<close>

text \<open>
  \<open>cx_subscribed\<close> and \<open>cx_presence_membership\<close> are a hash set and a hash map, kept as lists
  without repetition. \<open>cx_saturated\<close> says that the saturation flag is wired.
\<close>

record connection_context =
  cx_app :: app
  cx_socket_id :: socket_id
  cx_self_tx :: nat
  cx_limits :: limits
  cx_subscribed :: "string list"
  cx_user :: "authenticated_user option"
  cx_presence_membership :: "(string \<times> string) list"
  cx_client_event_rate :: rate_window
  cx_saturated :: bool
  cx_clustered :: bool
  cx_mailbox_notify :: "mailbox_notify option"
  cx_mailbox_dropped :: "nat option"
  cx_capabilities :: capabilities

definition hs_insert :: "'a \<Rightarrow> 'a list \<Rightarrow> 'a list" where
  "hs_insert x xs = (if x \<in> set xs then xs else xs @ [x])"

definition hs_remove :: "'a \<Rightarrow> 'a list \<Rightarrow> 'a list" where
  "hs_remove x xs = filter (\<lambda>y. y \<noteq> x) xs"

definition cx_is_saturated :: "connection_context \<Rightarrow> 's node \<Rightarrow> bool" where
  "cx_is_saturated cx n = (cx_saturated cx \<and> is_saturated (nd_fan n))"

definition cx_handle :: "connection_context \<Rightarrow> connection_handle" where
  "cx_handle cx =
     \<lparr>handle_socket_id = cx_socket_id cx,
      handle_mailbox = \<lparr>inner = cx_self_tx cx, notify = cx_mailbox_notify cx,
                        mailbox_dropped = cx_mailbox_dropped cx\<rparr>\<rparr>"

definition send_self :: "connection_context \<Rightarrow> server_event \<Rightarrow> 's node \<Rightarrow> 's node" where
  "send_self cx event n =
     (case try_send (cx_self_tx cx) event (nd_mail n) of
        (Full, w) \<Rightarrow>
          (case cx_mailbox_dropped cx of
             Some ctr \<Rightarrow> n\<lparr>nd_mail := w\<lparr>dropped := (dropped w)(ctr := dropped w ctr + 1)\<rparr>\<rparr>
           | None \<Rightarrow> n\<lparr>nd_mail := w\<rparr>)
      | (_, w) \<Rightarrow> n\<lparr>nd_mail := w\<rparr>)"

definition emit_webhook :: "webhook_event \<Rightarrow> 's node \<Rightarrow> 's node" where
  "emit_webhook event n = n\<lparr>nd_hooks := enqueue event (nd_hooks n)\<rparr>"

text \<open>A failed broadcast is logged and otherwise ignored.\<close>

definition note_broadcast_drop :: "(broadcast_error + unit) \<times> 's node \<Rightarrow> 's node" where
  "note_broadcast_drop res = snd res"

definition notify_watchers :: "'s adapter \<Rightarrow> connection_context \<Rightarrow> string \<Rightarrow> string \<Rightarrow> 's node \<Rightarrow> 's node" where
  "notify_watchers ad cx user_id name n =
     (let (watchers, n1) = ad_watchers_of ad (app_id (cx_app cx)) user_id n
      in if watchers = [] then n1
         else (let ev = WatchlistEvents [\<lparr>wc_name = name, wc_user_ids = [user_id]\<rparr>]
               in n1\<lparr>nd_mail := fold (\<lambda>h. deliver h ev) watchers (nd_mail n1)\<rparr>))"


section \<open>Leaving\<close>

definition maybe_emit_count :: "'s adapter \<Rightarrow> connection_context \<Rightarrow> string \<Rightarrow> nat \<Rightarrow> 's node \<Rightarrow> 's node" where
  "maybe_emit_count ad cx channel cnt n =
     (if cx_clustered cx then n
      else if ci_auth (channel_info_of channel) = Presence then n
      else if subscription_count_enabled (cx_app cx) then
        (let n1 = note_broadcast_drop
               (ad_broadcast ad (app_id (cx_app cx)) channel (SubscriptionCount channel cnt) None n)
         in if 0 < cnt \<and> has_subscription_count_webhooks (cx_app cx)
            then emit_webhook (WhSubscriptionCount (app_id (cx_app cx)) channel cnt) n1
            else n1)
      else n)"

definition announce_leave ::
  "'s adapter \<Rightarrow> connection_context \<Rightarrow> string \<Rightarrow> presence_leave option \<Rightarrow> 's node \<Rightarrow> 's node" where
  "announce_leave ad cx channel presence n =
     (case presence of
        Some leave \<Rightarrow>
          if last_for_user leave then
            (let uid = leave_user_id leave;
                 n1 = note_broadcast_drop
                   (ad_broadcast ad (app_id (cx_app cx)) channel (MemberRemoved channel uid) None n)
             in if has_member_removed_webhooks (cx_app cx)
                then emit_webhook (WhMemberRemoved (app_id (cx_app cx)) channel uid) n1
                else n1)
          else n
      | None \<Rightarrow> n)"

definition unsubscribe ::
  "'s adapter \<Rightarrow> string \<Rightarrow> connection_context \<times> 's node \<Rightarrow> connection_context \<times> 's node" where
  "unsubscribe ad channel = (\<lambda>(cx, n).
     if channel \<in> set (cx_subscribed cx) then
       (let cx1 = cx\<lparr>cx_subscribed := hs_remove channel (cx_subscribed cx),
                     cx_presence_membership := AList.delete channel (cx_presence_membership cx)\<rparr>;
            (out, n1) = ad_unsubscribe ad (app_id (cx_app cx1)) channel (cx_socket_id cx1) n;
            n2 = (if \<not> cx_clustered cx1 then announce_leave ad cx1 channel (uo_presence out) n1 else n1);
            n3 = (if \<not> cx_clustered cx1 \<and> uo_vacated out \<and> has_channel_vacated_webhooks (cx_app cx1)
                  then emit_webhook (WhChannelVacated (app_id (cx_app cx1)) channel) n2 else n2)
        in (cx1, maybe_emit_count ad cx1 channel (uo_subscription_count out) n3))
     else (cx, n))"


section \<open>Joining\<close>

definition send_subscription_error ::
  "connection_context \<Rightarrow> string \<Rightarrow> string \<Rightarrow> string \<Rightarrow> nat \<Rightarrow> 's node \<Rightarrow> 's node" where
  "send_subscription_error cx channel error_type err status n =
     send_self cx (SubscriptionError channel error_type err status) n"

definition resend_subscription_succeeded ::
  "'s adapter \<Rightarrow> connection_context \<Rightarrow> string \<Rightarrow> 's node \<Rightarrow> 's node" where
  "resend_subscription_succeeded ad cx channel n =
     (if ci_auth (channel_info_of channel) = Presence
      then ad_resend_presence_ack ad (app_id (cx_app cx)) channel (handle_mailbox (cx_handle cx)) n
      else send_self cx (SubscriptionSucceeded channel None) n)"

definition emit_occupied_if_edge :: "connection_context \<Rightarrow> string \<Rightarrow> bool \<Rightarrow> 's node \<Rightarrow> 's node" where
  "emit_occupied_if_edge cx channel occupied n =
     (if cx_clustered cx then n
      else if occupied \<and> has_channel_occupied_webhooks (cx_app cx)
      then emit_webhook (WhChannelOccupied (app_id (cx_app cx)) channel) n
      else n)"

text \<open>The tail shared by the public and the private arm.\<close>

definition join_plain ::
  "'s adapter \<Rightarrow> string \<Rightarrow> connection_context \<Rightarrow> 's node \<Rightarrow> connection_context \<times> 's node" where
  "join_plain ad channel cx n =
     (let (out, n1) = ad_subscribe ad (app_id (cx_app cx)) channel (cx_handle cx) None n;
          cx1 = cx\<lparr>cx_subscribed := hs_insert channel (cx_subscribed cx)\<rparr>;
          n2 = send_self cx1 (SubscriptionSucceeded channel None) n1;
          n3 = maybe_emit_count ad cx1 channel (so_subscription_count out) n2
      in (cx1, emit_occupied_if_edge cx1 channel (so_occupied out) n3))"

text \<open>Refusals are the type, the text and the status of the error frame.\<close>

type_synonym refusal = "string \<times> string \<times> nat"

definition check_private ::
  "crypto \<Rightarrow> connection_context \<Rightarrow> auth_kind \<Rightarrow> string \<Rightarrow> string option \<Rightarrow> refusal + unit" where
  "check_private cr cx kind channel auth =
     (if kind = PrivateEncrypted \<and> \<not> cap_encrypted_channels (cx_capabilities cx)
      then Inl (''AuthError'', ''Encrypted channels are not supported by this protocol version'', 401)
      else case auth of
        None \<Rightarrow> Inl (''AuthError'', ''Auth signature required'', 401)
      | Some tok \<Rightarrow>
        (case channel_verify cr (app_key (cx_app cx)) (app_secret (cx_app cx))
                (socket_id_as_str (cx_socket_id cx)) channel None tok of
           Inl e \<Rightarrow> Inl (''AuthError'', token_error_message e, 401)
         | Inr _ \<Rightarrow> Inr ()))"

definition check_presence ::
  "serde_json \<Rightarrow> crypto \<Rightarrow> connection_context \<Rightarrow> string \<Rightarrow> string option \<Rightarrow> string option
     \<Rightarrow> refusal + presence_member" where
  "check_presence sj cr cx channel auth channel_data =
     (if \<not> cap_presence (cx_capabilities cx)
      then Inl (''AuthError'', ''Presence channels are not supported by this protocol version'', 401)
      else case auth of
        None \<Rightarrow> Inl (''AuthError'', ''Auth signature required'', 401)
      | Some tok \<Rightarrow>
        (case channel_data of
           None \<Rightarrow> Inl (''AuthError'', ''Presence requires channel_data'', 401)
         | Some raw \<Rightarrow>
           (case channel_verify cr (app_key (cx_app cx)) (app_secret (cx_app cx))
                   (socket_id_as_str (cx_socket_id cx)) channel (Some raw) tok of
              Inl e \<Rightarrow> Inl (''AuthError'', token_error_message e, 401)
            | Inr _ \<Rightarrow>
              (case parse_channel_data sj raw of
                 Inl _ \<Rightarrow> Inl (''AuthError'', ''Invalid channel_data'', 401)
               | Inr member \<Rightarrow>
                 if max_presence_user_id_length (cx_limits cx) < chars_count (pm_user_id member)
                 then Inl (''InvalidPresenceData'', ''user_id exceeds maximum length'', 401)
                 else if pm_user_info member \<noteq> Null \<and>
                   max_presence_user_info_bytes (cx_limits cx) < length (to_string sj (pm_user_info member))
                 then Inl (''InvalidPresenceData'', ''user_info exceeds maximum size'', 401)
                 else Inr member))))"

definition presence_full ::
  "'s adapter \<Rightarrow> connection_context \<Rightarrow> string \<Rightarrow> presence_member \<Rightarrow> 's node \<Rightarrow> bool \<times> 's node" where
  "presence_full ad cx channel member n =
     (if cx_clustered cx then (False, n)
      else (let (summary, n1) = ad_channel ad (app_id (cx_app cx)) channel n;
                current = (case sum_user_count summary of Some c \<Rightarrow> c | None \<Rightarrow> 0);
                (ms, n2) = ad_presence_members ad (app_id (cx_app cx)) channel n1;
                already_member = list_ex (\<lambda>m. pm_user_id m = pm_user_id member) ms
            in (\<not> already_member \<and> max_presence_members (cx_limits cx) \<le> current, n2)))"

definition announce_join ::
  "'s adapter \<Rightarrow> connection_context \<Rightarrow> string \<Rightarrow> presence_join option \<Rightarrow> 's node \<Rightarrow> 's node" where
  "announce_join ad cx channel presence n =
     (case presence of
        Some join \<Rightarrow>
          if \<not> cx_clustered cx then
            (let n1 = send_self cx (Raw (join_roster_frame join)) n
             in if first_for_user join then
                  (let m = join_member join;
                       n2 = note_broadcast_drop (ad_broadcast ad (app_id (cx_app cx)) channel
                         (MemberAdded channel (pm_user_id m) (pm_user_info m)) (Some (cx_socket_id cx)) n1)
                   in if has_member_added_webhooks (cx_app cx)
                      then emit_webhook (WhMemberAdded (app_id (cx_app cx)) channel (pm_user_id m)) n2
                      else n2)
                else n1)
          else n
      | None \<Rightarrow> n)"

definition join_presence ::
  "'s adapter \<Rightarrow> string \<Rightarrow> presence_member \<Rightarrow> connection_context \<Rightarrow> 's node \<Rightarrow> connection_context \<times> 's node" where
  "join_presence ad channel member cx n =
     (let (out, n1) = ad_subscribe ad (app_id (cx_app cx)) channel (cx_handle cx) (Some member) n;
          cx1 = cx\<lparr>cx_subscribed := hs_insert channel (cx_subscribed cx),
                   cx_presence_membership :=
                     AList.update channel (pm_user_id member) (cx_presence_membership cx)\<rparr>;
          n2 = announce_join ad cx1 channel (so_presence out) n1;
          n3 = maybe_emit_count ad cx1 channel (so_subscription_count out) n2
      in (cx1, emit_occupied_if_edge cx1 channel (so_occupied out) n3))"

definition replay_cache ::
  "'s adapter \<Rightarrow> string \<Rightarrow> channel_info \<Rightarrow> connection_context \<times> 's node \<Rightarrow> connection_context \<times> 's node" where
  "replay_cache ad channel info = (\<lambda>(cx, n).
     if \<not> cx_clustered cx \<and> ci_cache info \<and> channel \<in> set (cx_subscribed cx) then
       (let (cached, n1) = ad_cache_get ad (app_id (cx_app cx)) channel n
        in case cached of
             Some c \<Rightarrow> (cx, send_self cx (ChannelEvent channel (ce_event c) (String (ce_data c)) None) n1)
           | None \<Rightarrow>
             (let n2 = (if has_cache_miss_webhooks (cx_app cx)
                        then emit_webhook (WhCacheMiss (app_id (cx_app cx)) channel) n1 else n1)
              in (cx, send_self cx (CacheMiss channel) n2)))
     else (cx, n))"

text \<open>The arms of the match on the kind of the channel.\<close>

definition join_channel ::
  "serde_json \<Rightarrow> crypto \<Rightarrow> 's adapter \<Rightarrow> string \<Rightarrow> string option \<Rightarrow> string option \<Rightarrow> connection_context \<Rightarrow> 's node
     \<Rightarrow> refusal \<times> 's node + connection_context \<times> 's node" where
  "join_channel sj cr ad channel auth channel_data cx n =
     (let kind = ci_auth (channel_info_of channel)
      in case kind of
           Public \<Rightarrow> Inr (join_plain ad channel cx n)
         | Presence \<Rightarrow>
           (case check_presence sj cr cx channel auth channel_data of
              Inl e \<Rightarrow> Inl (e, n)
            | Inr member \<Rightarrow>
              (let (full, n1) = presence_full ad cx channel member n
               in if full then Inl ((''LimitReached'', ''Presence channel is full'', 4004), n1)
                  else Inr (join_presence ad channel member cx n1)))
         | _ \<Rightarrow>
           (case check_private cr cx kind channel auth of
              Inl e \<Rightarrow> Inl (e, n)
            | Inr _ \<Rightarrow> Inr (join_plain ad channel cx n)))"

definition subscribe ::
  "serde_json \<Rightarrow> crypto \<Rightarrow> 's adapter \<Rightarrow> string \<Rightarrow> string option \<Rightarrow> string option
     \<Rightarrow> connection_context \<times> 's node \<Rightarrow> connection_context \<times> 's node" where
  "subscribe sj cr ad channel auth channel_data = (\<lambda>(cx, n).
     let err = (\<lambda>ty e st n'. (cx, send_subscription_error cx channel ty e st n'));
         cap = max_subscriptions_per_connection (cx_limits cx)
     in if channel \<in> set (cx_subscribed cx) then (cx, resend_subscription_succeeded ad cx channel n)
        else if cap \<noteq> 0 \<and> cap \<le> length (cx_subscribed cx)
        then err ''LimitReached'' ''Subscription limit reached for this connection'' 4004 n
        else if cx_is_saturated cx n
        then err ''LimitReached'' ''Server is over capacity; try again shortly'' 4004 n
        else case strip_prefix SERVER_TO_USER_PREFIX channel of
          Some uid \<Rightarrow>
            if (case cx_user cx of Some u \<Rightarrow> au_id u = uid | None \<Rightarrow> False)
            then (cx, send_self cx (SubscriptionSucceeded channel None) n)
            else err ''AuthError'' ''Unauthorized'' 401 n
        | None \<Rightarrow>
          if starts_with ''#'' channel then err ''AuthError'' ''Unknown channel'' 401 n
          else if \<not> validate_channel_name channel (max_channel_name_length (cx_limits cx))
          then err ''InvalidChannel'' ''Invalid channel name'' 4009 n
          else (let info = channel_info_of channel
                in if ci_cache info \<and> \<not> cap_cache_channels (cx_capabilities cx)
                   then err ''AuthError'' ''Cache channels are not supported by this protocol version'' 401 n
                   else (case join_channel sj cr ad channel auth channel_data cx n of
                           Inl ((ty, e, st), n1) \<Rightarrow> err ty e st n1
                         | Inr (cx1, n1) \<Rightarrow> replay_cache ad channel info (cx1, n1))))"


section \<open>Client events\<close>

definition client_event ::
  "serde_json \<Rightarrow> 's adapter \<Rightarrow> string \<Rightarrow> string \<Rightarrow> json \<Rightarrow> connection_context \<times> 's node \<Rightarrow> connection_context \<times> 's node" where
  "client_event sj ad event channel data = (\<lambda>(cx, n).
     let reject = (\<lambda>cx' message. (cx', send_self cx' (ClientEventError 4301 message) n));
         auth = ci_auth (channel_info_of channel)
     in if \<not> cap_client_events (cx_capabilities cx)
        then reject cx ''Client events are not supported by this protocol version.''
        else if \<not> client_messages_enabled (cx_app cx)
        then reject cx ''The app does not have client messaging enabled.''
        else if \<not> (auth = Private \<or> auth = Presence) \<or> channel \<notin> set (cx_subscribed cx) then (cx, n)
        else if max_event_name_length (cx_limits cx) < length event
        then reject cx (''Event name is too long. Maximum allowed size is ''
               @ show_nat (max_event_name_length (cx_limits cx)) @ ''.'')
        else if max_event_payload_bytes (cx_limits cx) < length (to_string sj data)
        then reject cx ''Client event rejected - the data is too large''
        else if cx_is_saturated cx n then (cx, n)
        else (let (ok, rate) = rate_check_at (nd_now n) (cx_client_event_rate cx);
                  cx1 = cx\<lparr>cx_client_event_rate := rate\<rparr>
              in if \<not> ok then reject cx1 ''Client event rejected due to rate limit''
                 else (let user_id = map_of (cx_presence_membership cx1) channel;
                           n1 = note_broadcast_drop (ad_broadcast ad (app_id (cx_app cx1)) channel
                             (ChannelEvent channel event data user_id) (Some (cx_socket_id cx1)) n)
                       in (cx1, if has_client_event_webhooks (cx_app cx1)
                                then emit_webhook (WhClientEvent (app_id (cx_app cx1)) channel event data
                                       (socket_id_as_str (cx_socket_id cx1)) user_id) n1
                                else n1))))"


section \<open>Sign-in\<close>

definition fail_signin :: "connection_context \<Rightarrow> string \<Rightarrow> 's node \<Rightarrow> 's node" where
  "fail_signin cx message n =
     send_self cx (Close 4009 message) (send_self cx (ErrorEvent (new_error 4009 message)) n)"

definition capped_watchlist :: "connection_context \<Rightarrow> string list \<Rightarrow> 's node \<Rightarrow> string list \<times> 's node" where
  "capped_watchlist cx watchlist n =
     (let cap = max_watchlist_size (cx_limits cx)
      in if cap < length watchlist
         then (take cap watchlist,
               send_self cx (ErrorEvent (new_error 4302 (''Watchlist limit exceeded; only the first ''
                 @ show_nat cap @ '' entries are tracked.''))) n)
         else (watchlist, n))"

definition signin ::
  "serde_json \<Rightarrow> crypto \<Rightarrow> 's adapter \<Rightarrow> string \<Rightarrow> string \<Rightarrow> connection_context \<times> 's node \<Rightarrow> connection_context \<times> 's node" where
  "signin sj cr ad auth user_data = (\<lambda>(cx, n).
     let refuse = (\<lambda>message. (cx, fail_signin cx message n));
         app = app_id (cx_app cx)
     in if \<not> cap_user_auth (cx_capabilities cx) then refuse ''Connection not authorized.''
        else case cx_user cx of
          Some existing \<Rightarrow>
            if au_user_data_raw existing = user_data then (cx, send_self cx (SigninSuccess user_data) n)
            else refuse ''Connection not authorized.''
        | None \<Rightarrow>
          (case user_verify cr (app_key (cx_app cx)) (app_secret (cx_app cx))
                  (socket_id_as_str (cx_socket_id cx)) user_data auth of
             Inl _ \<Rightarrow> refuse ''Connection not authorized.''
           | Inr _ \<Rightarrow>
             (case parse_user_data sj user_data of
                Inl _ \<Rightarrow> refuse (''The returned user data must contain the '' @ [CHR 0x22] @ ''id'' @ [CHR 0x22] @ '' field.'')
              | Inr user \<Rightarrow>
                (let (first, n1) = ad_signin_user ad app (au_id user) (cx_handle cx) n;
                     n2 = send_self cx (SigninSuccess (au_user_data_raw user)) n1;
                     n3 = (if \<not> cx_clustered cx \<and> first then notify_watchers ad cx (au_id user) ''online'' n2 else n2);
                     (watched, n4) = (if cap_watchlist (cx_capabilities cx)
                                      then capped_watchlist cx (au_watchlist user) n3 else ([], n3));
                     n5 = (if watched = [] then n4
                           else (let (online, n') = ad_watch ad app (cx_handle cx) watched n4
                                 in if \<not> cx_clustered cx \<and> online \<noteq> []
                                    then send_self cx (WatchlistEvents [\<lparr>wc_name = ''online'', wc_user_ids = online\<rparr>]) n'
                                    else n'))
                 in (cx\<lparr>cx_user := Some user\<rparr>, n5)))))"


section \<open>Dispatch and close\<close>

fun dispatch ::
  "serde_json \<Rightarrow> crypto \<Rightarrow> 's adapter \<Rightarrow> client_command \<Rightarrow> connection_context \<times> 's node \<Rightarrow> connection_context \<times> 's node" where
  "dispatch sj cr ad CmdPing (cx, n) = (cx, send_self cx Pong n)"
| "dispatch sj cr ad (Subscribe channel auth channel_data) cn = subscribe sj cr ad channel auth channel_data cn"
| "dispatch sj cr ad (Unsubscribe channel) cn = unsubscribe ad channel cn"
| "dispatch sj cr ad (ClientEvent event channel data) cn = client_event sj ad event channel data cn"
| "dispatch sj cr ad (Signin auth user_data) cn = signin sj cr ad auth user_data cn"
| "dispatch sj cr ad (Unknown _) cn = cn"

definition on_close :: "'s adapter \<Rightarrow> connection_context \<times> 's node \<Rightarrow> connection_context \<times> 's node" where
  "on_close ad = (\<lambda>(cx, n).
     let app = app_id (cx_app cx);
         (cx1, n1) = fold (unsubscribe ad) (cx_subscribed cx) (cx, n);
         (cx2, n2) =
           (case cx_user cx1 of
              Some user \<Rightarrow>
                (let (was_last, n') = ad_signout_user ad app (au_id user) (cx_socket_id cx1) n1;
                     cx' = cx1\<lparr>cx_user := None\<rparr>
                 in (cx', if \<not> cx_clustered cx' \<and> was_last
                          then notify_watchers ad cx' (au_id user) ''offline'' n' else n'))
            | None \<Rightarrow> (cx1, n1))
     in (cx2, ad_unwatch ad app (cx_socket_id cx2) n2))"


section \<open>What a command may do\<close>

text \<open>What a subscription needs: a valid name and, by kind, a verified token and member data.\<close>

definition authorized ::
  "serde_json \<Rightarrow> crypto \<Rightarrow> connection_context \<Rightarrow> string \<Rightarrow> string option \<Rightarrow> string option \<Rightarrow> presence_member option \<Rightarrow> bool" where
  "authorized sj cr cx channel auth channel_data member \<longleftrightarrow>
     validate_channel_name channel (max_channel_name_length (cx_limits cx)) \<and>
     (let verified = (\<lambda>cd. \<exists>tok. auth = Some tok \<and>
            channel_verify cr (app_key (cx_app cx)) (app_secret (cx_app cx))
              (socket_id_as_str (cx_socket_id cx)) channel cd tok = Inr ())
      in case ci_auth (channel_info_of channel) of
           Public \<Rightarrow> member = None
         | Presence \<Rightarrow>
           (\<exists>raw m. channel_data = Some raw \<and> verified (Some raw) \<and> parse_channel_data sj raw = Inr m \<and> member = Some m \<and>
              chars_count (pm_user_id m) \<le> max_presence_user_id_length (cx_limits cx) \<and>
              (pm_user_info m = Null \<or> length (to_string sj (pm_user_info m)) \<le> max_presence_user_info_bytes (cx_limits cx)))
         | _ \<Rightarrow> member = None \<and> verified None)"

definition joined_context :: "string \<Rightarrow> presence_member option \<Rightarrow> connection_context \<Rightarrow> connection_context" where
  "joined_context channel member cx =
     cx\<lparr>cx_subscribed := cx_subscribed cx @ [channel],
        cx_presence_membership :=
          (case member of
             None \<Rightarrow> cx_presence_membership cx
           | Some m \<Rightarrow> AList.update channel (pm_user_id m) (cx_presence_membership cx))\<rparr>"

definition left_context :: "string \<Rightarrow> connection_context \<Rightarrow> connection_context" where
  "left_context channel cx =
     cx\<lparr>cx_subscribed := hs_remove channel (cx_subscribed cx),
        cx_presence_membership := AList.delete channel (cx_presence_membership cx)\<rparr>"

text \<open>The channels that the cap on connections and the cap on members leave room for.\<close>

definition room_for ::
  "connection_context \<Rightarrow> presence_member option \<Rightarrow> subscriptions \<Rightarrow> bool" where
  "room_for cx member l \<longleftrightarrow>
     (max_subscriptions_per_connection (cx_limits cx) = 0 \<or>
      length (cx_subscribed cx) < max_subscriptions_per_connection (cx_limits cx)) \<and>
     (\<forall>m. member = Some m \<longrightarrow> \<not> cx_clustered cx \<longrightarrow>
        pm_user_id m \<in> channel_users l \<or> card (channel_users l) < max_presence_members (cx_limits cx))"

text \<open>The users a connection watches once signed in, and the sign-in and close seen from outside.\<close>

definition tracked :: "connection_context \<Rightarrow> authenticated_user \<Rightarrow> string list" where
  "tracked cx u =
     (if cap_watchlist (cx_capabilities cx) then take (max_watchlist_size (cx_limits cx)) (au_watchlist u) else [])"

definition signed_ref :: "connection_context \<Rightarrow> authenticated_user \<Rightarrow> user_ref \<Rightarrow> user_ref" where
  "signed_ref cx u us =
     (let us1 = user_ref_step us (SigninOp (app_id (cx_app cx)) (au_id u) (cx_handle cx))
      in if tracked cx u = [] then us1
         else user_ref_step us1 (WatchOp (app_id (cx_app cx)) (cx_handle cx) (tracked cx u)))"

definition closed_table :: "connection_context \<Rightarrow> string list \<Rightarrow> subscription_table \<Rightarrow> subscription_table" where
  "closed_table cx chs tab =
     (\<lambda>k. if fst k = app_id (cx_app cx) \<and> snd k \<in> set chs then ref_remove (cx_socket_id cx) (tab k) else tab k)"

definition closed_ref :: "connection_context \<Rightarrow> user_ref \<Rightarrow> user_ref" where
  "closed_ref cx us =
     (let us1 = (case cx_user cx of
                   None \<Rightarrow> us
                 | Some u \<Rightarrow> user_ref_step us (SignoutOp (app_id (cx_app cx)) (au_id u) (cx_socket_id cx)))
      in user_ref_step us1 (UnwatchOp (app_id (cx_app cx)) (cx_socket_id cx)))"

lemma send_self_keeps [simp]:
  "nd_state (send_self cx ev n) = nd_state n" "nd_hooks (send_self cx ev n) = nd_hooks n"
  "nd_fan (send_self cx ev n) = nd_fan n" "nd_now (send_self cx ev n) = nd_now n"
  by (simp_all add: send_self_def split: prod.split try_send_result.split option.split)

lemma emit_webhook_keeps [simp]:
  "nd_state (emit_webhook e n) = nd_state n" "nd_hooks (emit_webhook e n) = enqueue e (nd_hooks n)"
  "nd_fan (emit_webhook e n) = nd_fan n" "nd_now (emit_webhook e n) = nd_now n"
  by (simp_all add: emit_webhook_def)

lemma send_subscription_error_keeps [simp]:
  "nd_state (send_subscription_error cx ch ty e st n) = nd_state n"
  "nd_hooks (send_subscription_error cx ch ty e st n) = nd_hooks n"
  by (simp_all add: send_subscription_error_def)

lemma fail_signin_keeps [simp]:
  "nd_state (fail_signin cx m n) = nd_state n" "nd_hooks (fail_signin cx m n) = nd_hooks n"
  by (simp_all add: fail_signin_def)

lemma emit_occupied_keeps [simp]: "nd_state (emit_occupied_if_edge cx ch e n) = nd_state n"
  by (simp add: emit_occupied_if_edge_def)

lemma capped_watchlist_result:
  assumes "capped_watchlist cx ws n = (ws', n')"
  shows "ws' = take (max_watchlist_size (cx_limits cx)) ws" "nd_state n' = nd_state n" "nd_hooks n' = nd_hooks n"
  using assms by (auto simp: capped_watchlist_def Let_def split: if_splits)

context adapter_laws
begin

lemma broadcast_keeps: "rel (nd_state n) tab us \<Longrightarrow> rel (nd_state (note_broadcast_drop (ad_broadcast ad app ch ev except n))) tab us"
  using broadcast_law [of n tab us app ch ev except] by (cases "ad_broadcast ad app ch ev except n") (simp add: note_broadcast_drop_def)

lemma maybe_emit_count_keeps: "rel (nd_state n) tab us \<Longrightarrow> rel (nd_state (maybe_emit_count ad cx ch c n)) tab us"
  by (simp add: maybe_emit_count_def broadcast_keeps Let_def)

lemma announce_leave_keeps: "rel (nd_state n) tab us \<Longrightarrow> rel (nd_state (announce_leave ad cx ch p n)) tab us"
  by (simp add: announce_leave_def broadcast_keeps Let_def split: option.split)

lemma announce_join_keeps: "rel (nd_state n) tab us \<Longrightarrow> rel (nd_state (announce_join ad cx ch p n)) tab us"
  by (simp add: announce_join_def broadcast_keeps Let_def split: option.split)

lemma notify_watchers_keeps: "rel (nd_state n) tab us \<Longrightarrow> rel (nd_state (notify_watchers ad cx uid name n)) tab us"
  using watchers_law [of n tab us "app_id (cx_app cx)" uid]
  by (cases "ad_watchers_of ad (app_id (cx_app cx)) uid n") (simp add: notify_watchers_def Let_def)

lemma replay_cache_keeps:
  assumes "rel (nd_state n) tab us" and "replay_cache ad ch info (cx, n) = (cx', n')"
  shows "cx' = cx \<and> rel (nd_state n') tab us"
  using assms cache_get_law [of n tab us "app_id (cx_app cx)" ch]
  by (cases "ad_cache_get ad (app_id (cx_app cx)) ch n")
    (auto simp: replay_cache_def Let_def split: if_splits option.splits)

lemma resend_keeps: "rel (nd_state n) tab us \<Longrightarrow> rel (nd_state (resend_subscription_succeeded ad cx ch n)) tab us"
  by (simp add: resend_subscription_succeeded_def resend_law)

lemma unsubscribe_rel:
  assumes rel: "rel (nd_state n) tab us" and u: "unsubscribe ad ch (cx, n) = (cx', n')"
  shows "cx' = (if ch \<in> set (cx_subscribed cx) then left_context ch cx else cx) \<and>
    rel (nd_state n') (if ch \<in> set (cx_subscribed cx)
      then tab((app_id (cx_app cx), ch) := ref_remove (cx_socket_id cx) (tab (app_id (cx_app cx), ch))) else tab) us"
proof (cases "ch \<in> set (cx_subscribed cx)")
  case True
  obtain out n1 where o: "ad_unsubscribe ad (app_id (cx_app cx)) ch (cx_socket_id cx) n = (out, n1)" by fastforce
  let ?tab = "tab((app_id (cx_app cx), ch) := ref_remove (cx_socket_id cx) (tab (app_id (cx_app cx), ch)))"
  from unsubscribe_law [OF rel o] have 1: "rel (nd_state n1) ?tab us" by blast
  show ?thesis
    using u True o
    by (auto simp: unsubscribe_def left_context_def Let_def
        intro!: maybe_emit_count_keeps announce_leave_keeps 1)
next
  case False
  with assms show ?thesis by (simp add: unsubscribe_def)
qed

lemma join_plain_rel:
  assumes rel: "rel (nd_state n) tab us" and j: "join_plain ad ch cx n = (cx', n')" and new: "ch \<notin> set (cx_subscribed cx)"
  shows "cx' = joined_context ch None cx \<and>
    rel (nd_state n') (tab((app_id (cx_app cx), ch) := ref_add (cx_socket_id cx) None (tab (app_id (cx_app cx), ch)))) us"
proof -
  obtain out n1 where o: "ad_subscribe ad (app_id (cx_app cx)) ch (cx_handle cx) None n = (out, n1)" by fastforce
  let ?tab = "tab((app_id (cx_app cx), ch) := ref_add (cx_socket_id cx) None (tab (app_id (cx_app cx), ch)))"
  from subscribe_law [OF rel o] have 1: "rel (nd_state n1) ?tab us" by (simp add: cx_handle_def)
  show ?thesis
    using j o new by (auto simp: join_plain_def joined_context_def hs_insert_def Let_def intro!: maybe_emit_count_keeps 1)
qed

lemma join_presence_rel:
  assumes rel: "rel (nd_state n) tab us" and j: "join_presence ad ch m cx n = (cx', n')" and new: "ch \<notin> set (cx_subscribed cx)"
  shows "cx' = joined_context ch (Some m) cx \<and>
    rel (nd_state n') (tab((app_id (cx_app cx), ch) := ref_add (cx_socket_id cx) (Some m) (tab (app_id (cx_app cx), ch)))) us"
proof -
  obtain out n1 where o: "ad_subscribe ad (app_id (cx_app cx)) ch (cx_handle cx) (Some m) n = (out, n1)" by fastforce
  let ?tab = "tab((app_id (cx_app cx), ch) := ref_add (cx_socket_id cx) (Some m) (tab (app_id (cx_app cx), ch)))"
  from subscribe_law [OF rel o] have 1: "rel (nd_state n1) ?tab us" by (simp add: cx_handle_def)
  show ?thesis
    using j o new
    by (auto simp: join_presence_def joined_context_def hs_insert_def Let_def intro!: maybe_emit_count_keeps announce_join_keeps 1)
qed

lemma presence_full_rel:
  assumes rel: "rel (nd_state n) tab us" and f: "presence_full ad cx ch m n = (full, n')"
    and k: "k = (app_id (cx_app cx), ch)"
  shows "rel (nd_state n') tab us \<and> (full \<longleftrightarrow> \<not> cx_clustered cx \<and>
    pm_user_id m \<notin> channel_users (tab k) \<and> max_presence_members (cx_limits cx) \<le> card (channel_users (tab k)))"
proof (cases "cx_clustered cx")
  case True
  with assms show ?thesis by (auto simp: presence_full_def)
next
  case False
  obtain sm n1 where c: "ad_channel ad (app_id (cx_app cx)) ch n = (sm, n1)" by fastforce
  obtain ms n2 where p: "ad_presence_members ad (app_id (cx_app cx)) ch n1 = (ms, n2)" by fastforce
  note law1 = channel_law [OF rel c] note law2 = members_law [OF conjunct1 [OF law1] p]
  have "list_ex (\<lambda>x. pm_user_id x = pm_user_id m) ms \<longleftrightarrow> pm_user_id m \<in> channel_users (tab k)"
    unfolding k conjunct2 [OF law2, symmetric] by (auto simp: list_ex_iff image_iff) metis
  with False f c p k law1 law2 show ?thesis
    by (auto simp: presence_full_def Let_def)
qed

text \<open>A subscription either changes no membership or joins, when it is authorized and there is room.\<close>

lemma join_channel_rel:
  assumes rel: "rel (nd_state n) tab us" and j: "join_channel sj cr ad ch auth cd cx n = res"
    and name: "validate_channel_name ch (max_channel_name_length (cx_limits cx))" and new: "ch \<notin> set (cx_subscribed cx)"
    and k: "k = (app_id (cx_app cx), ch)"
  shows "case res of
      Inl (e, n') \<Rightarrow> rel (nd_state n') tab us
    | Inr (cx', n') \<Rightarrow> \<exists>member. authorized sj cr cx ch auth cd member \<and> cx' = joined_context ch member cx \<and>
        rel (nd_state n') (tab(k := ref_add (cx_socket_id cx) member (tab k))) us \<and>
        (\<forall>m. member = Some m \<longrightarrow> \<not> cx_clustered cx \<longrightarrow>
          pm_user_id m \<in> channel_users (tab k) \<or> card (channel_users (tab k)) < max_presence_members (cx_limits cx))"
proof -
  obtain pcx pn where p: "join_plain ad ch cx n = (pcx, pn)" by fastforce
  note plain = join_plain_rel [OF rel p new]
  show ?thesis
  proof (cases "ci_auth (channel_info_of ch)")
    case Public
    with j p plain name k show ?thesis
      by (auto simp: join_channel_def authorized_def intro!: exI [of _ None])
  next
    case Private
    show ?thesis
    proof (cases "check_private cr cx Private ch auth")
      case (Inl e)
      with Private j rel show ?thesis by (auto simp: join_channel_def)
    next
      case (Inr u)
      then have "authorized sj cr cx ch auth cd None"
        using Private name by (auto simp: authorized_def check_private_def split: if_splits option.splits sum.splits)
      with Inr Private j p plain k show ?thesis
        by (auto simp: join_channel_def intro!: exI [of _ None])
    qed
  next
    case PrivateEncrypted
    show ?thesis
    proof (cases "check_private cr cx PrivateEncrypted ch auth")
      case (Inl e)
      with PrivateEncrypted j rel show ?thesis by (auto simp: join_channel_def)
    next
      case (Inr u)
      then have "authorized sj cr cx ch auth cd None"
        using PrivateEncrypted name by (auto simp: authorized_def check_private_def split: if_splits option.splits sum.splits)
      with Inr PrivateEncrypted j p plain k show ?thesis
        by (auto simp: join_channel_def intro!: exI [of _ None])
    qed
  next
    case Presence
    show ?thesis
    proof (cases "check_presence sj cr cx ch auth cd")
      case (Inl e)
      with Presence j rel show ?thesis by (auto simp: join_channel_def)
    next
      case (Inr m)
      obtain full n1 where f: "presence_full ad cx ch m n = (full, n1)" by fastforce
      note full = presence_full_rel [OF rel f k]
      have auth: "authorized sj cr cx ch auth cd (Some m)"
        using Inr Presence name
        by (auto simp: authorized_def check_presence_def not_less split: if_splits option.splits sum.splits)
      obtain jcx jn where q: "join_presence ad ch m cx n1 = (jcx, jn)" by fastforce
      note pres = join_presence_rel [OF conjunct1 [OF full] q new]
      show ?thesis
      proof (cases full)
        case True
        with Inr Presence j f full show ?thesis by (auto simp: join_channel_def)
      next
        case False
        with Inr Presence j f full auth pres q k show ?thesis
          by (auto simp: join_channel_def not_le intro!: exI [of _ "Some m"])
      qed
    qed
  qed
qed

lemma subscribe_rel:
  assumes rel: "rel (nd_state n) tab us" and s: "subscribe sj cr ad ch auth cd (cx, n) = (cx', n')"
    and k: "k = (app_id (cx_app cx), ch)"
  shows "cx' = cx \<and> rel (nd_state n') tab us \<or>
    (\<exists>member. ch \<notin> set (cx_subscribed cx) \<and> authorized sj cr cx ch auth cd member \<and> \<not> cx_is_saturated cx n \<and>
       room_for cx member (tab k) \<and> cx' = joined_context ch member cx \<and>
       rel (nd_state n') (tab(k := ref_add (cx_socket_id cx) member (tab k))) us)"
proof (cases "cx' = cx \<and> rel (nd_state n') tab us")
  case False
  define joins where "joins = join_channel sj cr ad ch auth cd cx n"
  have new: "ch \<notin> set (cx_subscribed cx)" and sat: "\<not> cx_is_saturated cx n"
    and cap: "max_subscriptions_per_connection (cx_limits cx) = 0 \<or>
      length (cx_subscribed cx) < max_subscriptions_per_connection (cx_limits cx)"
    and name: "validate_channel_name ch (max_channel_name_length (cx_limits cx))"
    and r: "(case joins of Inl ((ty, e, st), n1) \<Rightarrow> (cx, send_subscription_error cx ch ty e st n1)
      | Inr (cx1, n1) \<Rightarrow> replay_cache ad ch (channel_info_of ch) (cx1, n1)) = (cx', n')"
    using s False rel
    by (auto simp: subscribe_def joins_def Let_def resend_keeps not_le split: if_splits option.splits)
  note join = join_channel_rel [OF rel joins_def [symmetric] name new k]
  show ?thesis
  proof (cases joins)
    case (Inl x)
    obtain ty e st n1 where x: "x = ((ty, e, st), n1)" by (metis prod.collapse)
    with Inl join r have "cx' = cx \<and> rel (nd_state n') tab us" by auto
    then show ?thesis ..
  next
    case (Inr x)
    obtain cx1 n1 where x: "x = (cx1, n1)" by fastforce
    with Inr join obtain member where m: "authorized sj cr cx ch auth cd member" "cx1 = joined_context ch member cx"
      "rel (nd_state n1) (tab(k := ref_add (cx_socket_id cx) member (tab k))) us"
      "\<forall>m. member = Some m \<longrightarrow> \<not> cx_clustered cx \<longrightarrow>
          pm_user_id m \<in> channel_users (tab k) \<or> card (channel_users (tab k)) < max_presence_members (cx_limits cx)"
      by auto
    from r Inr x have "replay_cache ad ch (channel_info_of ch) (cx1, n1) = (cx', n')" by simp
    from replay_cache_keeps [OF m(3) this] m new sat cap show ?thesis
      unfolding room_for_def by blast
  qed
qed blast

text \<open>Conversely, with every capability, an authorized subscription that has room is admitted.\<close>

lemma join_channel_admits:
  assumes rel: "rel (nd_state n) tab us" and cap: "cx_capabilities cx = capabilities_v7"
    and new: "ch \<notin> set (cx_subscribed cx)" and auth: "authorized sj cr cx ch auth cd member"
    and room: "room_for cx member (tab (app_id (cx_app cx), ch))"
  shows "\<exists>n'. join_channel sj cr ad ch auth cd cx n = Inr (joined_context ch member cx, n')"
proof -
  obtain pcx pn where p: "join_plain ad ch cx n = (pcx, pn)" by fastforce
  note plain = conjunct1 [OF join_plain_rel [OF rel p new]]
  show ?thesis
  proof (cases "ci_auth (channel_info_of ch)")
    case Public
    with auth have "member = None" by (simp add: authorized_def)
    with Public p plain show ?thesis by (simp add: join_channel_def)
  next
    case Private
    with auth cap have "check_private cr cx Private ch auth = Inr ()" "member = None"
      by (auto simp: authorized_def check_private_def)
    with Private p plain show ?thesis by (simp add: join_channel_def)
  next
    case PrivateEncrypted
    with auth cap have "check_private cr cx PrivateEncrypted ch auth = Inr ()" "member = None"
      by (auto simp: authorized_def check_private_def capabilities_v7_def)
    with PrivateEncrypted p plain show ?thesis by (simp add: join_channel_def)
  next
    case Presence
    with auth cap obtain m where m: "member = Some m" "check_presence sj cr cx ch auth cd = Inr m"
      by (auto simp: authorized_def check_presence_def capabilities_v7_def)
    obtain full n1 where f: "presence_full ad cx ch m n = (full, n1)" by fastforce
    note full = presence_full_rel [OF rel f refl]
    with room m have nf: "\<not> full" by (auto simp: room_for_def)
    obtain jcx jn where q: "join_presence ad ch m cx n1 = (jcx, jn)" by fastforce
    from conjunct1 [OF join_presence_rel [OF conjunct1 [OF full] q new]] Presence m f nf q show ?thesis
      by (simp add: join_channel_def)
  qed
qed

lemma valid_name_subscribable:
  assumes "validate_channel_name ch len"
  shows "strip_prefix SERVER_TO_USER_PREFIX ch = None" and "\<not> starts_with ''#'' ch"
proof -
  obtain a rest where ch: "ch = a # rest" and "channel_char_ok a"
    using assms by (cases ch) (auto simp: validate_channel_name_def split: if_splits)
  moreover have "\<not> channel_char_ok CHR ''#''"
    by (simp add: channel_char_ok_def is_ascii_alphanumeric_def is_ascii_digit_def less_eq_char_def)
  ultimately have "a \<noteq> CHR ''#''" by auto
  with ch show "strip_prefix SERVER_TO_USER_PREFIX ch = None" and "\<not> starts_with ''#'' ch"
    by (auto simp: SERVER_TO_USER_PREFIX_def starts_with_def)
qed

lemma subscribe_admits:
  assumes rel: "rel (nd_state n) tab us" and cap: "cx_capabilities cx = capabilities_v7"
    and new: "ch \<notin> set (cx_subscribed cx)" and sat: "\<not> cx_is_saturated cx n"
    and auth: "authorized sj cr cx ch auth cd member" and room: "room_for cx member (tab (app_id (cx_app cx), ch))"
  shows "fst (subscribe sj cr ad ch auth cd (cx, n)) = joined_context ch member cx"
proof -
  have name: "validate_channel_name ch (max_channel_name_length (cx_limits cx))"
    using auth by (simp add: authorized_def)
  have sub: "\<not> (max_subscriptions_per_connection (cx_limits cx) \<noteq> 0 \<and>
      max_subscriptions_per_connection (cx_limits cx) \<le> length (cx_subscribed cx))"
    using room by (auto simp: room_for_def)
  obtain n' where j: "join_channel sj cr ad ch auth cd cx n = Inr (joined_context ch member cx, n')"
    using join_channel_admits [OF rel cap new auth room] by blast
  have "fst (replay_cache ad ch (channel_info_of ch) (joined_context ch member cx, n')) = joined_context ch member cx"
    by (simp add: replay_cache_def case_prod_unfold Let_def split: option.split)
  with new sub sat valid_name_subscribable [OF name] name j cap show ?thesis
    by (auto simp: subscribe_def Let_def capabilities_v7_def)
qed

lemma client_event_rel:
  assumes rel: "rel (nd_state n) tab us" and c: "client_event sj ad ev ch d (cx, n) = (cx', n')"
  shows "(\<exists>r. cx' = cx\<lparr>cx_client_event_rate := r\<rparr>) \<and> rel (nd_state n') tab us"
proof -
  have self: "\<exists>r. cx = cx\<lparr>cx_client_event_rate := r\<rparr>" by (rule exI [of _ "cx_client_event_rate cx"]) simp
  obtain ok r where rate: "rate_check_at (nd_now n) (cx_client_event_rate cx) = (ok, r)" by fastforce
  show ?thesis
    using c self rel by (auto simp: client_event_def rate Let_def broadcast_keeps split: if_splits)
qed

lemma signin_rel:
  assumes rel: "rel (nd_state n) tab us" and s: "signin sj cr ad auth ud (cx, n) = (cx', n')"
  shows "cx' = cx \<and> rel (nd_state n') tab us \<or>
    (\<exists>u. cx_user cx = None \<and> parse_user_data sj ud = Inr u \<and>
       user_verify cr (app_key (cx_app cx)) (app_secret (cx_app cx)) (socket_id_as_str (cx_socket_id cx)) ud auth = Inr () \<and>
       cx' = cx\<lparr>cx_user := Some u\<rparr> \<and> rel (nd_state n') tab (signed_ref cx u us))"
proof (cases "cx' = cx \<and> rel (nd_state n') tab us")
  case False
  let ?app = "app_id (cx_app cx)"
  have none: "cx_user cx = None"
    and ok: "user_verify cr (app_key (cx_app cx)) (app_secret (cx_app cx)) (socket_id_as_str (cx_socket_id cx)) ud auth = Inr ()"
    using s False rel by (auto simp: signin_def Let_def split: if_splits option.splits sum.splits)
  with s False rel obtain u where u: "parse_user_data sj ud = Inr u"
    by (auto simp: signin_def Let_def split: if_splits option.splits sum.splits)
  have cap: "cap_user_auth (cx_capabilities cx)" using s False rel by (auto simp: signin_def Let_def split: if_splits)
  obtain f n1 where f: "ad_signin_user ad ?app (au_id u) (cx_handle cx) n = (f, n1)" by fastforce
  define n3 where "n3 = (let n2 = send_self cx (SigninSuccess (au_user_data_raw u)) n1
    in if \<not> cx_clustered cx \<and> f then notify_watchers ad cx (au_id u) ''online'' n2 else n2)"
  let ?us = "user_ref_step us (SigninOp ?app (au_id u) (cx_handle cx))"
  have "rel (nd_state (send_self cx (SigninSuccess (au_user_data_raw u)) n1)) tab ?us"
    using conjunct1 [OF signin_law [OF rel f]] by (simp only: send_self_keeps)
  with notify_watchers_keeps [OF this] have r3: "rel (nd_state n3) tab ?us"
    unfolding n3_def Let_def by (simp only: split: if_split) blast
  obtain ws n4 where w: "(if cap_watchlist (cx_capabilities cx) then capped_watchlist cx (au_watchlist u) n3 else ([], n3)) = (ws, n4)"
    by fastforce
  have ws: "ws = tracked cx u" and r4: "rel (nd_state n4) tab ?us"
    using w r3 capped_watchlist_result [of cx "au_watchlist u" n3 ws n4] by (auto simp: tracked_def split: if_splits)
  obtain on n' where o: "ad_watch ad ?app (cx_handle cx) ws n4 = (on, n')" by fastforce
  note rw = watch_law [OF r4 o]
  show ?thesis
    using s none ok u cap f w o r4 rw
    by (auto simp: signin_def Let_def signed_ref_def ws simp flip: n3_def [unfolded Let_def] split: if_splits)
qed blast

lemma fold_unsubscribe_rel:
  assumes "rel (nd_state n) tab us" and "fold (unsubscribe ad) chs (cx, n) = (cx', n')"
    and "set chs \<subseteq> set (cx_subscribed cx)" and "distinct chs"
  shows "cx_subscribed cx' = filter (\<lambda>c. c \<notin> set chs) (cx_subscribed cx) \<and> cx_user cx' = cx_user cx \<and>
    cx_app cx' = cx_app cx \<and> cx_socket_id cx' = cx_socket_id cx \<and> rel (nd_state n') (closed_table cx chs tab) us"
  using assms
proof (induction chs arbitrary: cx n tab)
  case Nil
  then show ?case by (simp add: closed_table_def)
next
  case (Cons c chs)
  obtain cx1 n1 where u: "unsubscribe ad c (cx, n) = (cx1, n1)" by fastforce
  note one = unsubscribe_rel [OF Cons.prems(1) u]
  have c: "c \<in> set (cx_subscribed cx)" using Cons.prems(3) by simp
  with one have cx1: "cx1 = left_context c cx"
    and r1: "rel (nd_state n1) (tab((app_id (cx_app cx), c) := ref_remove (cx_socket_id cx) (tab (app_id (cx_app cx), c)))) us"
    by simp_all
  have "fold (unsubscribe ad) chs (cx1, n1) = (cx', n')" using Cons.prems(2) u by simp
  moreover have "set chs \<subseteq> set (cx_subscribed cx1)"
    using Cons.prems(3,4) by (auto simp: cx1 left_context_def hs_remove_def)
  moreover have "distinct chs" using Cons.prems(4) by simp
  ultimately have IH: "cx_subscribed cx' = filter (\<lambda>c. c \<notin> set chs) (cx_subscribed cx1)"
    "cx_user cx' = cx_user cx1" "cx_app cx' = cx_app cx1" "cx_socket_id cx' = cx_socket_id cx1"
    "rel (nd_state n') (closed_table cx1 chs
      (tab((app_id (cx_app cx), c) := ref_remove (cx_socket_id cx) (tab (app_id (cx_app cx), c))))) us"
    using Cons.IH [OF r1] by (simp_all only:)
  have "closed_table cx1 chs (tab((app_id (cx_app cx), c) := ref_remove (cx_socket_id cx) (tab (app_id (cx_app cx), c)))) =
      closed_table cx (c # chs) tab"
    using Cons.prems(4) by (auto simp: closed_table_def cx1 left_context_def fun_eq_iff)
  with IH show ?case
    by (simp add: cx1 left_context_def hs_remove_def)
qed

lemma on_close_rel:
  assumes rel: "rel (nd_state n) tab us" and c: "on_close ad (cx, n) = (cx', n')" and d: "distinct (cx_subscribed cx)"
  shows "cx_subscribed cx' = [] \<and> cx_user cx' = None \<and>
    rel (nd_state n') (closed_table cx (cx_subscribed cx) tab) (closed_ref cx us)"
proof -
  let ?tab = "closed_table cx (cx_subscribed cx) tab"
  obtain cx1 n1 where f: "fold (unsubscribe ad) (cx_subscribed cx) (cx, n) = (cx1, n1)" by fastforce
  from fold_unsubscribe_rel [OF rel f subset_refl d] have cx1: "cx_subscribed cx1 = []" "cx_user cx1 = cx_user cx"
    "cx_app cx1 = cx_app cx" "cx_socket_id cx1 = cx_socket_id cx" "rel (nd_state n1) ?tab us"
    by auto
  show ?thesis
  proof (cases "cx_user cx")
    case None
    with c f cx1 unwatch_law [OF cx1(5)] show ?thesis
      by (auto simp: on_close_def closed_ref_def Let_def)
  next
    case (Some u)
    obtain l n2 where o: "ad_signout_user ad (app_id (cx_app cx)) (au_id u) (cx_socket_id cx) n1 = (l, n2)" by fastforce
    let ?us = "user_ref_step us (SignoutOp (app_id (cx_app cx)) (au_id u) (cx_socket_id cx))"
    from signout_law [OF cx1(5) o] have r2: "rel (nd_state n2) ?tab ?us" by blast
    have "rel (nd_state (if \<not> cx_clustered cx1 \<and> l then notify_watchers ad (cx1\<lparr>cx_user := None\<rparr>) (au_id u) ''offline'' n2 else n2)) ?tab ?us"
      using r2 notify_watchers_keeps by simp
    from unwatch_law [OF this] Some c f cx1 o show ?thesis
      by (auto simp: on_close_def closed_ref_def Let_def)
  qed
qed

end

end
