(* ===== verification/Sessions.thy ===== *)
theory Sessions
  imports Ws_Handler Local_Adapter
begin

text \<open>
  All the connections of a node: their contexts and the state they share, driven by any
  interleaving of opens, client commands, closes and activity of the rest of the process. The
  contract of the adapter gives what the handlers keep; the interpretation for the in-process
  adapter gives the properties.
\<close>


section \<open>Interleaved connections\<close>

type_synonym contexts = "socket_id \<Rightarrow> connection_context option"

text \<open>
  \<open>Elsewhere\<close> is what the rest of the process does meanwhile: time passes, workers drain
  mailboxes and inboxes, the dispatcher drains the webhook queue.
\<close>

datatype session_op =
    Open connection_context
  | Command socket_id client_command
  | Hangup socket_id
  | Elsewhere nat mailboxes fan webhook_queue

definition fresh_context :: "connection_context \<Rightarrow> bool" where
  "fresh_context cx \<longleftrightarrow> cx_subscribed cx = [] \<and> cx_user cx = None \<and> cx_presence_membership cx = []"

fun session_step ::
  "serde_json \<Rightarrow> crypto \<Rightarrow> 's adapter \<Rightarrow> contexts \<times> 's node \<Rightarrow> session_op \<Rightarrow> contexts \<times> 's node" where
  "session_step sj cr ad (cs, n) (Open cx) =
     (if fresh_context cx \<and> cs (cx_socket_id cx) = None then (cs(cx_socket_id cx \<mapsto> cx), n) else (cs, n))"
| "session_step sj cr ad (cs, n) (Command sid cmd) =
     (case cs sid of
        None \<Rightarrow> (cs, n)
      | Some cx \<Rightarrow> (let (cx', n') = dispatch sj cr ad cmd (cx, n) in (cs(sid \<mapsto> cx'), n')))"
| "session_step sj cr ad (cs, n) (Hangup sid) =
     (case cs sid of
        None \<Rightarrow> (cs, n)
      | Some cx \<Rightarrow> (let (_, n') = on_close ad (cx, n) in (cs(sid := None), n')))"
| "session_step sj cr ad (cs, n) (Elsewhere now mail f hooks) =
     (cs, n\<lparr>nd_now := now, nd_mail := mail, nd_fan := f, nd_hooks := hooks\<rparr>)"


section \<open>What the contexts say\<close>

definition cx_member :: "connection_context \<Rightarrow> string \<Rightarrow> string \<Rightarrow> string option option" where
  "cx_member cx app ch =
     (if app_id (cx_app cx) = app \<and> ch \<in> set (cx_subscribed cx)
      then Some (map_of (cx_presence_membership cx) ch) else None)"

definition cx_signed :: "connection_context \<Rightarrow> string \<Rightarrow> string \<Rightarrow> connection_handle option" where
  "cx_signed cx app uid =
     (if app_id (cx_app cx) = app \<and> map_option au_id (cx_user cx) = Some uid then Some (cx_handle cx) else None)"

definition cx_watch :: "connection_context \<Rightarrow> string \<Rightarrow> (string list \<times> connection_handle) option" where
  "cx_watch cx app =
     (case cx_user cx of
        None \<Rightarrow> None
      | Some u \<Rightarrow> if app_id (cx_app cx) = app \<and> tracked cx u \<noteq> [] then Some (tracked cx u, cx_handle cx) else None)"

definition cx_ok :: "socket_id \<Rightarrow> connection_context \<Rightarrow> bool" where
  "cx_ok sid cx \<longleftrightarrow>
     cx_socket_id cx = sid \<and> distinct (cx_subscribed cx) \<and>
     dom (map_of (cx_presence_membership cx)) \<subseteq> set (cx_subscribed cx)"

definition member_view :: "subscriptions \<Rightarrow> socket_id \<Rightarrow> string option option" where
  "member_view l sid = map_option (map_option pm_user_id) (map_of l sid)"

text \<open>The shared state agrees with the context of one socket, and with all of them.\<close>

definition matches_at ::
  "connection_context option \<Rightarrow> subscription_table \<Rightarrow> user_ref \<Rightarrow> socket_id \<Rightarrow> bool" where
  "matches_at cxo tab us sid \<longleftrightarrow>
     (\<forall>cx. cxo = Some cx \<longrightarrow> cx_ok sid cx) \<and>
     (\<forall>app ch. member_view (tab (app, ch)) sid = Option.bind cxo (\<lambda>cx. cx_member cx app ch)) \<and>
     (\<forall>app uid. signed_in us (app, uid) sid = Option.bind cxo (\<lambda>cx. cx_signed cx app uid)) \<and>
     (\<forall>app. watches us (app, sid) = Option.bind cxo (\<lambda>cx. cx_watch cx app))"

definition matches :: "contexts \<Rightarrow> subscription_table \<Rightarrow> user_ref \<Rightarrow> bool" where
  "matches cs tab us \<longleftrightarrow> (\<forall>sid. matches_at (cs sid) tab us sid) \<and> (\<forall>k. distinct (map fst (tab k)))"

lemma member_view_add: "member_view (ref_add sid m l) = (member_view l)(sid \<mapsto> map_option pm_user_id m)"
  by (auto simp: member_view_def ref_add_def map_add_def map_of_ref_remove fun_eq_iff split: option.split)

lemma member_view_remove: "member_view (ref_remove sid l) = (member_view l)(sid := None)"
  by (auto simp: member_view_def map_of_ref_remove fun_eq_iff)

lemma distinct_ref_add: "distinct (map fst l) \<Longrightarrow> distinct (map fst (ref_add sid m l))"
  using distinct_ref_remove [of l sid] notin_ref_remove [of sid l] by (simp add: ref_add_def)

text \<open>A step of the connection \<open>sid\<close> that leaves every other connection's entries alone.\<close>

lemma matches_update:
  assumes m: "matches cs tab us" and here: "matches_at cxo tab' us' sid" and d: "\<And>k. distinct (map fst (tab' k))"
    and "\<And>s k. s \<noteq> sid \<Longrightarrow> member_view (tab' k) s = member_view (tab k) s"
    and "\<And>s k. s \<noteq> sid \<Longrightarrow> signed_in us' k s = signed_in us k s"
    and "\<And>s app. s \<noteq> sid \<Longrightarrow> watches us' (app, s) = watches us (app, s)"
  shows "matches (cs(sid := cxo)) tab' us'"
proof -
  have "matches_at (cs s) tab' us' s" if "s \<noteq> sid" for s
    using m assms(4-6) [OF that] by (simp add: matches_def matches_at_def)
  with here d show ?thesis by (simp add: matches_def)
qed

lemma matches_cx_ok: "matches cs tab us \<Longrightarrow> cs sid = Some cx \<Longrightarrow> cx_ok sid cx"
  by (auto simp: matches_def matches_at_def dest: spec [of _ sid])

lemma matches_here: "matches cs tab us \<Longrightarrow> cs sid = Some cx \<Longrightarrow> matches_at (Some cx) tab us sid"
  unfolding matches_def by metis

lemma matches_distinct: "matches cs tab us \<Longrightarrow> distinct (map fst (tab k))"
  unfolding matches_def by blast

lemma matches_joined:
  assumes m: "matches cs tab us" and c: "cs sid = Some cx" and new: "ch \<notin> set (cx_subscribed cx)"
    and k: "k = (app_id (cx_app cx), ch)"
  shows "matches (cs(sid \<mapsto> joined_context ch member cx))
    (tab(k := ref_add (cx_socket_id cx) member (tab k))) us"
proof (rule matches_update [OF m])
  note ok = matches_cx_ok [OF m c]
  then have sid: "cx_socket_id cx = sid" and n: "map_of (cx_presence_membership cx) ch = None"
    using new by (auto simp: cx_ok_def)
  show "matches_at (Some (joined_context ch member cx)) (tab(k := ref_add (cx_socket_id cx) member (tab k))) us sid"
    using matches_here [OF m c] ok new n
    by (auto simp: matches_at_def cx_ok_def joined_context_def cx_member_def cx_signed_def cx_watch_def k sid
        member_view_add update_conv' tracked_def cx_handle_def split: option.split)
  show "distinct (map fst ((tab(k := ref_add (cx_socket_id cx) member (tab k))) k'))" for k'
    using matches_distinct [OF m] by (simp add: distinct_ref_add)
  show "member_view ((tab(k := ref_add (cx_socket_id cx) member (tab k))) k') s = member_view (tab k') s" if "s \<noteq> sid" for s k'
    using that by (simp add: member_view_add sid)
qed simp_all

lemma matches_left:
  assumes m: "matches cs tab us" and c: "cs sid = Some cx" and k: "k = (app_id (cx_app cx), ch)"
  shows "matches (cs(sid \<mapsto> left_context ch cx)) (tab(k := ref_remove (cx_socket_id cx) (tab k))) us"
proof (rule matches_update [OF m])
  note ok = matches_cx_ok [OF m c]
  then have sid: "cx_socket_id cx = sid" by (simp add: cx_ok_def)
  show "matches_at (Some (left_context ch cx)) (tab(k := ref_remove (cx_socket_id cx) (tab k))) us sid"
    using matches_here [OF m c] ok
    by (auto simp: matches_at_def cx_ok_def left_context_def cx_member_def cx_signed_def cx_watch_def k sid
        member_view_remove hs_remove_def delete_conv' tracked_def cx_handle_def split: option.split if_splits)
  show "distinct (map fst ((tab(k := ref_remove (cx_socket_id cx) (tab k))) k'))" for k'
    using matches_distinct [OF m] by (simp add: distinct_ref_remove)
  show "member_view ((tab(k := ref_remove (cx_socket_id cx) (tab k))) k') s = member_view (tab k') s" if "s \<noteq> sid" for s k'
    using that by (simp add: member_view_remove sid)
qed simp_all

lemma matches_rate:
  assumes m: "matches cs tab us" and c: "cs sid = Some cx"
  shows "matches (cs(sid \<mapsto> cx\<lparr>cx_client_event_rate := r\<rparr>)) tab us"
proof (rule matches_update [OF m])
  show "matches_at (Some (cx\<lparr>cx_client_event_rate := r\<rparr>)) tab us sid"
    using matches_here [OF m c]
    by (simp add: matches_at_def cx_ok_def cx_member_def cx_signed_def cx_watch_def tracked_def cx_handle_def split: option.split)
qed (simp_all only: matches_distinct [OF m])

lemma matches_signed:
  assumes m: "matches cs tab us" and c: "cs sid = Some cx" and none: "cx_user cx = None"
  shows "matches (cs(sid \<mapsto> cx\<lparr>cx_user := Some u\<rparr>)) tab (signed_ref cx u us)"
proof (rule matches_update [OF m])
  note here = matches_here [OF m c]
  then have sid: "cx_socket_id cx = sid" by (simp add: matches_at_def cx_ok_def)
  then have h: "handle_socket_id (cx_handle cx) = sid" "cx_handle (cx\<lparr>cx_user := Some u\<rparr>) = cx_handle cx"
    by (simp_all add: cx_handle_def)
  show "matches_at (Some (cx\<lparr>cx_user := Some u\<rparr>)) tab (signed_ref cx u us) sid"
    using here none
    by (auto simp: matches_at_def cx_ok_def cx_member_def cx_signed_def cx_watch_def signed_ref_def Let_def h tracked_def)
  show "signed_in (signed_ref cx u us) k s = signed_in us k s" if "s \<noteq> sid" for s k
    using that by (simp add: signed_ref_def Let_def h)
  show "watches (signed_ref cx u us) (app, s) = watches us (app, s)" if "s \<noteq> sid" for s app
    using that by (simp add: signed_ref_def Let_def h)
qed (simp_all only: matches_distinct [OF m])

lemma matches_closed:
  assumes m: "matches cs tab us" and c: "cs sid = Some cx"
  shows "matches (cs(sid := None)) (closed_table cx (cx_subscribed cx) tab) (closed_ref cx us)"
proof (rule matches_update [OF m])
  note here = matches_here [OF m c]
  then have sid: "cx_socket_id cx = sid" by (simp add: matches_at_def cx_ok_def)
  show "matches_at None (closed_table cx (cx_subscribed cx) tab) (closed_ref cx us) sid"
    using here
    by (auto simp: matches_at_def closed_table_def closed_ref_def member_view_remove sid cx_member_def cx_signed_def
        cx_watch_def Let_def split: option.splits if_splits)
  show "distinct (map fst (closed_table cx (cx_subscribed cx) tab k))" for k
    using matches_distinct [OF m, of k] by (simp add: closed_table_def distinct_ref_remove)
  show "member_view (closed_table cx (cx_subscribed cx) tab k) s = member_view (tab k) s" if "s \<noteq> sid" for s k
    using that by (simp add: closed_table_def member_view_remove sid)
  show "signed_in (closed_ref cx us) k s = signed_in us k s" if "s \<noteq> sid" for s k
    using that by (simp add: closed_ref_def Let_def sid split: option.split)
  show "watches (closed_ref cx us) (app, s) = watches us (app, s)" if "s \<noteq> sid" for s app
    using that by (simp add: closed_ref_def Let_def sid split: option.split)
qed

lemma matches_open:
  assumes m: "matches cs tab us" and f: "fresh_context cx" and n: "cs (cx_socket_id cx) = None"
  shows "matches (cs(cx_socket_id cx \<mapsto> cx)) tab us"
proof (rule matches_update [OF m])
  have "matches_at None tab us (cx_socket_id cx)" using m n unfolding matches_def by metis
  with f show "matches_at (Some cx) tab us (cx_socket_id cx)"
    by (simp add: matches_at_def fresh_context_def cx_ok_def cx_member_def cx_signed_def cx_watch_def)
qed (simp_all only: matches_distinct [OF m])

section \<open>The specification of the sessions\<close>

text \<open>
  What a command may do to the context of its connection and to what the adapter represents:
  change at most the rate window, join one authorized channel that has room, leave one channel,
  or sign in with verified user data.
\<close>

inductive effect ::
  "serde_json \<Rightarrow> crypto \<Rightarrow> client_command \<Rightarrow> connection_context \<Rightarrow> subscription_table \<Rightarrow> user_ref
     \<Rightarrow> connection_context \<Rightarrow> subscription_table \<Rightarrow> user_ref \<Rightarrow> bool" for sj cr where
  stay: "effect sj cr cmd cx tab us (cx\<lparr>cx_client_event_rate := r\<rparr>) tab us"
| join: "effect sj cr (Subscribe ch auth cd) cx tab us (joined_context ch member cx)
           (tab(k := ref_add (cx_socket_id cx) member (tab k))) us"
  if "ch \<notin> set (cx_subscribed cx)" and "authorized sj cr cx ch auth cd member"
    and "room_for cx member (tab k)" and "k = (app_id (cx_app cx), ch)"
| leave: "effect sj cr (Unsubscribe ch) cx tab us (left_context ch cx)
            (tab(k := ref_remove (cx_socket_id cx) (tab k))) us"
  if "ch \<in> set (cx_subscribed cx)" and "k = (app_id (cx_app cx), ch)"
| sign: "effect sj cr (Signin auth ud) cx tab us (cx\<lparr>cx_user := Some u\<rparr>) tab (signed_ref cx u us)"
  if "cx_user cx = None" and "parse_user_data sj ud = Inr u"
    and "user_verify cr (app_key (cx_app cx)) (app_secret (cx_app cx)) (socket_id_as_str (cx_socket_id cx)) ud auth = Inr ()"

inductive_cases effect_subscribeE: "effect sj cr (Subscribe ch auth cd) cx tab us cx' tab' us'"
inductive_cases effect_unsubscribeE: "effect sj cr (Unsubscribe ch) cx tab us cx' tab' us'"

inductive session_spec ::
  "serde_json \<Rightarrow> crypto \<Rightarrow> session_op \<Rightarrow> contexts \<times> subscription_table \<times> user_ref
     \<Rightarrow> contexts \<times> subscription_table \<times> user_ref \<Rightarrow> bool" for sj cr where
  idle: "session_spec sj cr x s s"
| opened: "session_spec sj cr (Open cx) (cs, tab, us) (cs(cx_socket_id cx \<mapsto> cx), tab, us)"
  if "fresh_context cx" and "cs (cx_socket_id cx) = None"
| command: "session_spec sj cr (Command sid cmd) (cs, tab, us) (cs(sid \<mapsto> cx'), tab', us')"
  if "cs sid = Some cx" and "effect sj cr cmd cx tab us cx' tab' us'"
| hangup: "session_spec sj cr (Hangup sid) (cs, tab, us)
             (cs(sid := None), closed_table cx (cx_subscribed cx) tab, closed_ref cx us)"
  if "cs sid = Some cx"

lemma effect_matches:
  assumes "effect sj cr cmd cx tab us cx' tab' us'" and "matches cs tab us" and "cs sid = Some cx"
  shows "matches (cs(sid \<mapsto> cx')) tab' us'"
  using assms
proof (induction rule: effect.induct)
  case (stay cmd cx tab us r)
  then show ?case by (rule matches_rate)
next
  case (join ch cx auth cd member tab k us)
  then show ?case using matches_joined by blast
next
  case (leave ch cx k tab us)
  then show ?case using matches_left by blast
next
  case (sign cx ud u auth tab us)
  then show ?case using matches_signed by blast
qed

lemma spec_matches:
  assumes "session_spec sj cr x s s'" and "matches (fst s) (fst (snd s)) (snd (snd s))"
  shows "matches (fst s') (fst (snd s')) (snd (snd s'))"
  using assms
proof (induction rule: session_spec.induct)
  case (opened cx cs tab us)
  then show ?case by (simp add: matches_open del: fun_upd_apply)
next
  case (command cs sid cx cmd tab us cx' tab' us')
  then show ?case using effect_matches [of sj cr cmd cx tab us cx' tab' us' cs sid] by (simp del: fun_upd_apply)
next
  case (hangup cs sid cx tab us)
  then show ?case by (simp add: matches_closed del: fun_upd_apply)
qed simp

text \<open>The limits, when every connection is opened with \<open>L\<close> and no cluster decides instead.\<close>

definition limits_kept :: "limits \<Rightarrow> contexts \<Rightarrow> subscription_table \<Rightarrow> bool" where
  "limits_kept L cs tab \<longleftrightarrow>
     (\<forall>sid cx. cs sid = Some cx \<longrightarrow> cx_limits cx = L \<and> \<not> cx_clustered cx \<and>
        (max_subscriptions_per_connection L = 0 \<or> length (cx_subscribed cx) \<le> max_subscriptions_per_connection L)) \<and>
     (\<forall>k. card (channel_users (tab k)) \<le> max_presence_members L)"

definition opens_with :: "limits \<Rightarrow> session_op \<Rightarrow> bool" where
  "opens_with L x = (case x of Open cx \<Rightarrow> cx_limits cx = L \<and> \<not> cx_clustered cx | _ \<Rightarrow> True)"

lemma finite_channel_users [simp]: "finite (channel_users l)"
proof (rule finite_subset)
  show "channel_users l \<subseteq> (\<lambda>e. case snd e of Some m \<Rightarrow> pm_user_id m | None \<Rightarrow> []) ` set l"
    by (force simp: channel_users_def ref_conns_def of_user_def filter_empty_conv split: option.splits)
qed simp

lemma channel_users_remove: "channel_users (ref_remove sid l) \<subseteq> channel_users l"
  by (auto simp: channel_users_def ref_conns_remove filter_empty_conv)

lemma channel_users_add:
  "channel_users (ref_add sid member l) \<subseteq> (case member of None \<Rightarrow> {} | Some m \<Rightarrow> {pm_user_id m}) \<union> channel_users l"
  using channel_users_remove [of sid l]
  by (auto simp: channel_users_def ref_add_def ref_conns_snoc of_user_def split: option.splits if_splits)

lemma users_after_join:
  assumes "room_for cx member l" and "\<not> cx_clustered cx" and "card (channel_users l) \<le> max_presence_members (cx_limits cx)"
  shows "card (channel_users (ref_add sid member l)) \<le> max_presence_members (cx_limits cx)"
proof (cases "case member of None \<Rightarrow> True | Some m \<Rightarrow> pm_user_id m \<in> channel_users l")
  case True
  then have "channel_users (ref_add sid member l) \<subseteq> channel_users l"
    using channel_users_add [of sid member l] by (auto split: option.splits)
  with card_mono [OF finite_channel_users this] assms(3) show ?thesis by simp
next
  case False
  then obtain m where m: "member = Some m" "card (channel_users l) < max_presence_members (cx_limits cx)"
    using assms(1,2) by (auto simp: room_for_def split: option.splits)
  have "card (channel_users (ref_add sid member l)) \<le> card (insert (pm_user_id m) (channel_users l))"
    using channel_users_add [of sid member l] m(1) by (intro card_mono) auto
  also have "\<dots> \<le> Suc (card (channel_users l))" by (rule card_insert_le_m1) simp_all
  finally show ?thesis using m(2) by simp
qed

lemma limits_kept_update:
  assumes "limits_kept L cs tab" and "cs sid = Some cx" and "cx_limits cx' = L" and "\<not> cx_clustered cx'"
    and "max_subscriptions_per_connection L = 0 \<or> length (cx_subscribed cx') \<le> max_subscriptions_per_connection L"
    and "\<And>k. card (channel_users (tab' k)) \<le> max_presence_members L"
  shows "limits_kept L (cs(sid \<mapsto> cx')) tab'"
  using assms unfolding limits_kept_def by auto

lemma effect_limits:
  assumes "effect sj cr cmd cx tab us cx' tab' us'" and "limits_kept L cs tab" and "cs sid = Some cx"
  shows "limits_kept L (cs(sid \<mapsto> cx')) tab'"
  using assms
proof (induction rule: effect.induct)
  case (stay cmd cx tab us r)
  then show ?case by (intro limits_kept_update [OF stay(1,2)]) (auto simp: limits_kept_def)
next
  case (join ch cx auth cd member tab k us)
  from join have l: "cx_limits cx = L" "\<not> cx_clustered cx" and c: "\<And>k. card (channel_users (tab k)) \<le> max_presence_members L"
    by (auto simp: limits_kept_def)
  from users_after_join [OF join(3) l(2)] l(1) c [of k]
  have "card (channel_users (ref_add (cx_socket_id cx) member (tab k))) \<le> max_presence_members L" by simp
  with join l c show ?case
    by (intro limits_kept_update [OF join(5,6)]) (auto simp: joined_context_def room_for_def)
next
  case (leave ch cx k tab us)
  from leave have l: "cx_limits cx = L" "\<not> cx_clustered cx" and c: "\<And>k. card (channel_users (tab k)) \<le> max_presence_members L"
    and b: "max_subscriptions_per_connection L = 0 \<or> length (cx_subscribed cx) \<le> max_subscriptions_per_connection L"
    by (auto simp: limits_kept_def)
  have "card (channel_users (ref_remove (cx_socket_id cx) (tab k))) \<le> max_presence_members L"
    using c [of k] card_mono [OF finite_channel_users channel_users_remove] by (rule order.trans [rotated])
  with l c b show ?case
    by (intro limits_kept_update [OF leave(3,4)]) (auto simp: left_context_def hs_remove_def intro: order.trans [OF length_filter_le])
next
  case (sign cx ud u auth tab us)
  then show ?case by (intro limits_kept_update [OF sign(4,5)]) (auto simp: limits_kept_def)
qed

lemma spec_limits:
  assumes "session_spec sj cr x s s'" and "opens_with L x" and "limits_kept L (fst s) (fst (snd s))"
  shows "limits_kept L (fst s') (fst (snd s'))"
  using assms
proof (induction rule: session_spec.induct)
  case (opened cx cs tab us)
  then show ?case by (auto simp: limits_kept_def opens_with_def fresh_context_def)
next
  case (command cs sid cx cmd tab us cx' tab' us')
  then show ?case using effect_limits [of sj cr cmd cx tab us cx' tab' us' L cs sid] by (simp del: fun_upd_apply)
next
  case (hangup cs sid cx tab us)
  have "card (channel_users (closed_table cx (cx_subscribed cx) tab k)) \<le> card (channel_users (tab k))" for k
    by (auto simp: closed_table_def intro: card_mono [OF finite_channel_users channel_users_remove])
  moreover from hangup have "card (channel_users (tab k)) \<le> max_presence_members L" for k
    by (cases k) (simp add: limits_kept_def)
  ultimately have "card (channel_users (closed_table cx (cx_subscribed cx) tab k)) \<le> max_presence_members L" for k
    by (rule order.trans)
  with hangup show ?case by (simp add: limits_kept_def)
qed simp

context adapter_laws
begin

lemmas subscribe_outcome = subscribe_rel and subscribe_admitted = subscribe_admits

lemma dispatch_effect:
  assumes rel: "rel (nd_state n) tab us" and d: "dispatch sj cr ad cmd (cx, n) = (cx', n')"
  shows "\<exists>tab' us'. rel (nd_state n') tab' us' \<and> effect sj cr cmd cx tab us cx' tab' us'"
proof -
  have intro: ?thesis if "rel (nd_state n') tab' us'" and "effect sj cr cmd cx tab us cx' tab' us'" for tab' us'
    using that by blast
  have "effect sj cr cmd cx tab us cx tab us" using stay [of sj cr cmd cx tab us "cx_client_event_rate cx"] by simp
  then have keep: ?thesis if "cx' = cx" and "rel (nd_state n') tab us"
    using intro [OF that(2)] that(1) by simp
  show ?thesis
  proof (cases cmd)
    case CmdPing
    with d rel show ?thesis by (intro keep) auto
  next
    case (Subscribe ch auth cd)
    with d have "subscribe sj cr ad ch auth cd (cx, n) = (cx', n')" by simp
    from subscribe_rel [OF rel this refl] show ?thesis
    proof (elim disjE exE conjE)
      fix member
      assume "ch \<notin> set (cx_subscribed cx)" and "cx' = joined_context ch member cx" and "authorized sj cr cx ch auth cd member"
        and "room_for cx member (tab (app_id (cx_app cx), ch))"
        and r: "rel (nd_state n') (tab((app_id (cx_app cx), ch) := ref_add (cx_socket_id cx) member (tab (app_id (cx_app cx), ch)))) us"
      with Subscribe show ?thesis by (intro intro [OF r]) (simp add: effect.join)
    qed (rule keep)
  next
    case (Unsubscribe ch)
    with d have u: "unsubscribe ad ch (cx, n) = (cx', n')" by simp
    note r = unsubscribe_rel [OF rel u]
    show ?thesis
    proof (cases "ch \<in> set (cx_subscribed cx)")
      case True
      with r have "rel (nd_state n') (tab((app_id (cx_app cx), ch) := ref_remove (cx_socket_id cx) (tab (app_id (cx_app cx), ch)))) us"
        and "cx' = left_context ch cx" by simp_all
      with effect.leave [OF True refl] Unsubscribe show ?thesis by (intro intro) simp_all
    next
      case False
      with r show ?thesis by (intro keep) simp_all
    qed
  next
    case (ClientEvent ev ch data)
    with d have u: "client_event sj ad ev ch data (cx, n) = (cx', n')" by simp
    from client_event_rel [OF rel u] stay show ?thesis
      by (elim conjE exE) (rule intro, simp_all)
  next
    case (Signin auth ud)
    with d have u: "signin sj cr ad auth ud (cx, n) = (cx', n')" by simp
    from signin_rel [OF rel u] show ?thesis
    proof (elim disjE exE conjE)
      fix u
      assume "cx_user cx = None" and "cx' = cx\<lparr>cx_user := Some u\<rparr>" and "parse_user_data sj ud = Inr u"
        and "user_verify cr (app_key (cx_app cx)) (app_secret (cx_app cx)) (socket_id_as_str (cx_socket_id cx)) ud auth = Inr ()"
        and r: "rel (nd_state n') tab (signed_ref cx u us)"
      with Signin show ?thesis by (intro intro [OF r]) (simp add: effect.sign)
    qed (rule keep)
  next
    case (Unknown x)
    with d rel show ?thesis by (intro keep) auto
  qed
qed

text \<open>The handlers simulate the specification, step by step.\<close>

lemma session_step_sim:
  assumes rel: "rel (nd_state n) tab us" and m: "matches cs tab us"
    and s: "session_step sj cr ad (cs, n) x = (cs', n')"
  shows "\<exists>tab' us'. rel (nd_state n') tab' us' \<and> session_spec sj cr x (cs, tab, us) (cs', tab', us')"
proof -
  have intro: ?thesis if "rel (nd_state n') tab' us'" and "session_spec sj cr x (cs, tab, us) (cs', tab', us')" for tab' us'
    using that by blast
  have keep: ?thesis if "cs' = cs" and "nd_state n' = nd_state n"
    using intro [of tab us] rel session_spec.idle that by simp
  show ?thesis
  proof (cases x)
    case (Open cx)
    show ?thesis
    proof (cases "fresh_context cx \<and> cs (cx_socket_id cx) = None")
      case True
      with s Open rel session_spec.opened [of cx cs sj cr tab us] show ?thesis by (intro intro [of tab us]) auto
    next
      case False
      with s Open show ?thesis by (intro keep) (auto split: if_splits)
    qed
  next
    case (Command sid cmd)
    show ?thesis
    proof (cases "cs sid")
      case None
      with Command s show ?thesis by (intro keep) auto
    next
      case (Some cx)
      obtain cx1 n1 where d: "dispatch sj cr ad cmd (cx, n) = (cx1, n1)" by fastforce
      with Command Some s have eq: "cs' = cs(sid \<mapsto> cx1)" "n' = n1" by simp_all
      from dispatch_effect [OF rel d] obtain tab' us' where r: "rel (nd_state n1) tab' us'"
        and e: "effect sj cr cmd cx tab us cx1 tab' us'" by blast
      from r session_spec.command [of cs, OF Some e] eq Command show ?thesis by (intro intro) simp_all
    qed
  next
    case (Hangup sid)
    show ?thesis
    proof (cases "cs sid")
      case None
      with Hangup s show ?thesis by (intro keep) auto
    next
      case (Some cx)
      obtain cx1 n1 where d: "on_close ad (cx, n) = (cx1, n1)" by fastforce
      with Hangup Some s have eq: "cs' = cs(sid := None)" "n' = n1" by simp_all
      have "distinct (cx_subscribed cx)" using matches_cx_ok [OF m Some] by (simp add: cx_ok_def)
      with on_close_rel [OF rel d] eq session_spec.hangup [of cs, OF Some] Hangup show ?thesis
        by (intro intro [of "closed_table cx (cx_subscribed cx) tab" "closed_ref cx us"]) simp_all
    qed
  next
    case (Elsewhere now mail f hooks)
    with s show ?thesis by (intro keep) auto
  qed
qed

lemma run_matches:
  assumes "rel (nd_state n) tab us" and "matches cs tab us" and "foldl (session_step sj cr ad) (cs, n) ops = (cs', n')"
  shows "\<exists>tab' us'. rel (nd_state n') tab' us' \<and> matches cs' tab' us'"
  using assms
proof (induction ops arbitrary: cs n tab us)
  case Nil
  then show ?case by auto
next
  case (Cons x ops)
  obtain cs1 n1 where s: "session_step sj cr ad (cs, n) x = (cs1, n1)" by fastforce
  from session_step_sim [OF Cons.prems(1,2) s] obtain tab1 us1
    where r: "rel (nd_state n1) tab1 us1" and sp: "session_spec sj cr x (cs, tab, us) (cs1, tab1, us1)" by blast
  from spec_matches [OF sp] Cons.prems(2) have "matches cs1 tab1 us1" by simp
  from Cons.IH [OF r this] Cons.prems(3) s show ?case by simp
qed

lemma run_limits:
  assumes "rel (nd_state n) tab us" and "matches cs tab us" and "limits_kept L cs tab"
    and "foldl (session_step sj cr ad) (cs, n) ops = (cs', n')" and "\<forall>x\<in>set ops. opens_with L x"
  shows "\<exists>tab' us'. rel (nd_state n') tab' us' \<and> limits_kept L cs' tab'"
  using assms
proof (induction ops arbitrary: cs n tab us)
  case Nil
  then show ?case by auto
next
  case (Cons x ops)
  obtain cs1 n1 where s: "session_step sj cr ad (cs, n) x = (cs1, n1)" by fastforce
  from session_step_sim [OF Cons.prems(1,2) s] obtain tab1 us1
    where r: "rel (nd_state n1) tab1 us1" and sp: "session_spec sj cr x (cs, tab, us) (cs1, tab1, us1)" by blast
  from spec_matches [OF sp] Cons.prems(2) have m: "matches cs1 tab1 us1" by simp
  from spec_limits [OF sp] Cons.prems(3,5) have "limits_kept L cs1 tab1" by simp
  from Cons.IH [OF r m this] Cons.prems(4,5) s show ?case by simp
qed

end



section \<open>A node with the in-process adapter\<close>

abbreviation local_run ::
  "serde_json \<Rightarrow> crypto \<Rightarrow> 'c moka \<Rightarrow> 'c local_adapter node \<Rightarrow> session_op list \<Rightarrow> contexts \<times> 'c local_adapter node" where
  "local_run sj cr mk n0 ops \<equiv> foldl (session_step sj cr (local_impl sj mk)) (Map.empty, n0) ops"

lemma matches_start: "matches Map.empty (\<lambda>_. []) user_ref_new"
  by (simp add: matches_def matches_at_def member_view_def user_ref_new_def)

lemma limits_start: "limits_kept L Map.empty (\<lambda>_. [])"
  by (simp add: limits_kept_def channel_users_def ref_conns_def)

lemma local_run_matches:
  assumes "nd_state n0 = local_adapter_new cache apps" and "local_run sj cr mk n0 ops = (cs, n)"
  shows "\<exists>tab us. la_rel sj (nd_state n) tab us \<and> matches cs tab us"
  by (rule local.run_matches [OF _ matches_start assms(2)]) (simp add: assms(1) la_rel_new)

lemma sockets_of_channel:
  assumes "reg_rel sj r tab"
  shows "(case map_of r k of None \<Rightarrow> {} | Some s \<Rightarrow> set (socket_ids s)) = {sid. member_view (tab k) sid \<noteq> None}"
    and "map_of r k = None \<longleftrightarrow> {sid. member_view (tab k) sid \<noteq> None} = {}"
proof -
  have "{sid. member_view l sid \<noteq> None} = dom (map_of l)" for l
    by (auto simp: member_view_def)
  then have dom: "{sid. member_view l sid \<noteq> None} = fst ` set l" for l
    by (simp only: dom_map_of_conv_image_fst)
  show "(case map_of r k of None \<Rightarrow> {} | Some s \<Rightarrow> set (socket_ids s)) = {sid. member_view (tab k) sid \<noteq> None}"
  proof (cases "map_of r k")
    case None
    with reg_rel_None [OF assms None] show ?thesis unfolding dom by simp
  next
    case (Some s)
    with cs_rel_count [OF conjunct2 [OF reg_rel_Some [OF assms Some]]] show ?thesis unfolding dom by simp
  qed
  show "map_of r k = None \<longleftrightarrow> {sid. member_view (tab k) sid \<noteq> None} = {}"
    using reg_rel_None [OF assms, of k] reg_rel_Some [OF assms, of k] unfolding dom
    by (cases "map_of r k") simp_all
qed

lemma users_of_channel:
  assumes "distinct (map fst l)"
  shows "channel_users l = {uid. \<exists>sid. member_view l sid = Some (Some uid)}"
proof -
  have "uid \<in> channel_users l \<longleftrightarrow> (\<exists>sid. member_view l sid = Some (Some uid))" for uid
  proof -
    have "uid \<in> channel_users l \<longleftrightarrow> (\<exists>(sid, mo)\<in>set l. of_user uid mo)"
      by (simp add: channel_users_def ref_conns_def filter_empty_conv case_prod_unfold)
    also have "\<dots> \<longleftrightarrow> (\<exists>sid mo. map_of l sid = Some mo \<and> of_user uid mo)"
      unfolding map_of_eq_Some_iff [OF assms] by blast
    also have "\<dots> \<longleftrightarrow> (\<exists>sid. member_view l sid = Some (Some uid))"
      by (auto simp: member_view_def of_user_def split: option.splits)
    finally show ?thesis .
  qed
  then show ?thesis by blast
qed


section \<open>Properties\<close>


definition example_app :: app where
  "example_app = \<lparr>app_name = ''demo'', app_id = ''a'', app_key = ''k'', app_secret = ''s'', app_enabled = True,
     client_messages_enabled = True, app_capacity = 0, max_backend_events_per_second = None,
     max_read_requests_per_second = None, subscription_count_enabled = False, app_webhooks = [],
     has_channel_occupied_webhooks = False, has_channel_vacated_webhooks = False,
     has_member_added_webhooks = False, has_member_removed_webhooks = False,
     has_client_event_webhooks = False, has_cache_miss_webhooks = False,
     has_subscription_count_webhooks = False\<rparr>"

definition example_limits :: limits where
  "example_limits = \<lparr>max_presence_members = 100, max_event_payload_bytes = 10240, max_watchlist_size = 100,
     max_channel_name_length = 200, max_event_name_length = 200, max_client_events_per_second = 10,
     max_presence_user_id_length = 128, max_presence_user_info_bytes = 1024,
     max_subscriptions_per_connection = 2\<rparr>"

definition example_context :: "string \<Rightarrow> nat \<Rightarrow> connection_context" where
  "example_context sid q = \<lparr>cx_app = example_app, cx_socket_id = from_raw sid, cx_self_tx = q,
     cx_limits = example_limits, cx_subscribed = [], cx_user = None, cx_presence_membership = [],
     cx_client_event_rate = rate_window_new 10, cx_saturated = True, cx_clustered = False,
     cx_mailbox_notify = Some \<lparr>token = q, dirty = 0\<rparr>, cx_mailbox_dropped = Some 0,
     cx_capabilities = capabilities_v7\<rparr>"

definition example_moka :: "unit moka" where
  "example_moka = \<lparr>mk_insert = (\<lambda>_ _ _ _ _ _. ()), mk_get = (\<lambda>_ _ _. (None, ()))\<rparr>"

definition example_node :: "unit local_adapter node" where
  "example_node = \<lparr>nd_now = 0, nd_mail = example_store,
     nd_fan = \<lparr>fan_workers = [], fan_inbox_full = False, fan_bound = True\<rparr>,
     nd_hooks = \<lparr>wq_events = [], wq_capacity = 16, wq_alive = True, wq_enqueued = 0, wq_dropped = 0\<rparr>,
     nd_state = local_adapter_new () []\<rparr>"

lemma example_fresh [simp]:
  "fresh_context (example_context sid q)" "cx_socket_id (example_context sid q) = from_raw sid"
  "nd_state example_node = local_adapter_new () []"
  by (simp_all add: fresh_context_def example_context_def example_node_def)


text \<open>
  C2. In every reachable state a connection enters a channel only by its own subscribe command
  for it, with a valid name and, unless the channel is public, with a token that verifies for
  this socket and this channel; on a presence channel also with channel data that verifies with
  the token, parses and keeps within the size limits, and it is recorded as the user named
  there. A connection gets a user only by a verified sign-in and keeps it.
\<close>

theorem commands_need_authorization:
  assumes "nd_state n0 = local_adapter_new cache apps" and "local_run sj cr mk n0 ops = (cs, n)"
    and "dispatch sj cr (local_impl sj mk) cmd (cx, n) = (cx', n')"
  shows "(ch \<in> set (cx_subscribed cx') \<and> ch \<notin> set (cx_subscribed cx) \<longrightarrow>
      (\<exists>auth cd member. cmd = Subscribe ch auth cd \<and> authorized sj cr cx ch auth cd member \<and>
         map_of (cx_presence_membership cx') ch =
           (case member of None \<Rightarrow> map_of (cx_presence_membership cx) ch | Some m \<Rightarrow> Some (pm_user_id m))))
    \<and> (cx_user cx' \<noteq> cx_user cx \<longrightarrow>
      (\<exists>auth ud u. cmd = Signin auth ud \<and> cx_user cx = None \<and> cx_user cx' = Some u \<and> parse_user_data sj ud = Inr u \<and>
         user_verify cr (app_key (cx_app cx)) (app_secret (cx_app cx)) (socket_id_as_str (cx_socket_id cx)) ud auth = Inr ()))"
proof -
  from local_run_matches [OF assms(1,2)] obtain tab us where "la_rel sj (nd_state n) tab us" by blast
  from local.dispatch_effect [OF this assms(3)] obtain tab' us' where "effect sj cr cmd cx tab us cx' tab' us'" by blast
  then show ?thesis
  proof cases
    case (join c auth cd member k)
    then show ?thesis by (auto simp: joined_context_def update_conv' split: option.split)
  qed (auto simp: left_context_def hs_remove_def)
qed

lemma example_token_authorized:
  "authorized example_json example_crypto (example_context ''1.1'' 0) ''private-x''
     (Some (''k:'' @ hmac_sha256_hex example_crypto ''s'' ''1.1:private-x'')) cd None"
proof -
  have name: "validate_channel_name ''private-x'' 200"
    by (simp add: validate_channel_name_def channel_char_ok_def is_ascii_alphanumeric_def less_eq_char_def)
  have sid: "socket_id_as_str (from_raw ''1.1'') = ''1.1''"
    by (simp add: socket_id_as_str_def from_raw_def CAPACITY_def Let_def as_bytes_def utf8_valid.simps)
  have "channel_verify example_crypto ''k'' ''s'' ''1.1'' ''private-x'' None
      (''k:'' @ hmac_sha256_hex example_crypto ''s'' ''1.1:private-x'') = Inr ()"
    by (simp add: channel_verify_def channel_signature_def channel_message_def constant_time_eq_def example_crypto_def)
  with name sid show ?thesis
    by (simp add: authorized_def example_context_def example_app_def example_limits_def channel_info_of_def)
qed

theorem commands_need_authorization_witness:
  "let tok = ''k:'' @ hmac_sha256_hex example_crypto ''s'' ''1.1:private-x'';
       cx = example_context ''1.1'' 0;
       (cx', n') = dispatch example_json example_crypto (local_impl example_json example_moka)
         (Subscribe ''private-x'' (Some tok) None) (cx, example_node)
   in cx_subscribed cx' = [''private-x''] \<and>
      (\<exists>member. authorized example_json example_crypto cx ''private-x'' (Some tok) None member)"
proof -
  define tok where "tok = ''k:'' @ hmac_sha256_hex example_crypto ''s'' ''1.1:private-x''"
  let ?cx = "example_context ''1.1'' 0"
  let ?cmd = "Subscribe ''private-x'' (Some tok) None"
  obtain cx' n' where d: "dispatch example_json example_crypto (local_impl example_json example_moka) ?cmd (?cx, example_node) = (cx', n')"
    by fastforce
  have "la_rel example_json (nd_state example_node) (\<lambda>_. []) user_ref_new" by (simp add: la_rel_new)
  moreover have "cx_capabilities ?cx = capabilities_v7" "''private-x'' \<notin> set (cx_subscribed ?cx)"
    "\<not> cx_is_saturated ?cx example_node" "room_for ?cx None []"
    by (simp_all add: example_context_def cx_is_saturated_def is_saturated_def example_node_def room_for_def example_limits_def)
  ultimately have "fst (subscribe example_json example_crypto (local_impl example_json example_moka) ''private-x'' (Some tok) None
      (?cx, example_node)) = joined_context ''private-x'' None ?cx"
    unfolding tok_def by (intro local.subscribe_admitted example_token_authorized)
  with d have "cx' = joined_context ''private-x'' None ?cx" by simp
  then have s: "cx_subscribed cx' = [''private-x'']" "cx_subscribed ?cx = []"
    by (simp_all add: joined_context_def example_context_def)
  have "local_run example_json example_crypto example_moka example_node [] = (Map.empty, example_node)" by simp
  from commands_need_authorization [OF example_fresh(3) this d, of "''private-x''"] s
  have "\<exists>member. authorized example_json example_crypto ?cx ''private-x'' (Some tok) None member" by auto
  with s d show ?thesis unfolding tok_def [symmetric] Let_def by simp
qed

text \<open>
  C3. A subscribe command for a channel the connection is not in is admitted exactly when the
  node is not saturated, the connection and the presence channel are below their caps (a user
  already on the channel counts as present), and the command is authorized. So no legitimate
  subscription is refused and no other is admitted, for a connection of protocol version 7
  outside a cluster.
\<close>

theorem subscribe_admits_exactly:
  assumes "nd_state n0 = local_adapter_new cache apps" and "local_run sj cr mk n0 ops = (cs, n)"
    and "dispatch sj cr (local_impl sj mk) (Subscribe ch auth cd) (cx, n) = (cx', n')"
    and "cx_capabilities cx = capabilities_v7" and "\<not> cx_clustered cx" and "ch \<notin> set (cx_subscribed cx)"
    and "users = pm_user_id ` set (registry_presence_members (app_id (cx_app cx)) ch (la_registry (nd_state n)))"
  shows "ch \<in> set (cx_subscribed cx') \<longleftrightarrow>
      \<not> cx_is_saturated cx n
    \<and> (max_subscriptions_per_connection (cx_limits cx) = 0 \<or>
        length (cx_subscribed cx) < max_subscriptions_per_connection (cx_limits cx))
    \<and> (\<exists>member. authorized sj cr cx ch auth cd member \<and>
        (\<forall>m. member = Some m \<longrightarrow> pm_user_id m \<in> users \<or> card users < max_presence_members (cx_limits cx)))"
proof -
  from local_run_matches [OF assms(1,2)] obtain tab us where rel: "la_rel sj (nd_state n) tab us" by blast
  then have users: "users = channel_users (tab (app_id (cx_app cx), ch))"
    using presence_members_rel [of sj "la_registry (nd_state n)" tab] by (simp add: la_rel_def assms(7))
  have s: "subscribe sj cr (local_impl sj mk) ch auth cd (cx, n) = (cx', n')" using assms(3) by simp
  note dir1 = local.subscribe_outcome [OF rel s refl]
  note dir2 = local.subscribe_admitted [OF rel assms(4,6), where mk = mk and cr = cr and auth = auth and cd = cd]
  show ?thesis
  proof
    assume "ch \<in> set (cx_subscribed cx')"
    with dir1 assms(5,6) show "\<not> cx_is_saturated cx n
      \<and> (max_subscriptions_per_connection (cx_limits cx) = 0 \<or>
          length (cx_subscribed cx) < max_subscriptions_per_connection (cx_limits cx))
      \<and> (\<exists>member. authorized sj cr cx ch auth cd member \<and>
          (\<forall>m. member = Some m \<longrightarrow> pm_user_id m \<in> users \<or> card users < max_presence_members (cx_limits cx)))"
      unfolding users room_for_def by auto
  next
    assume "\<not> cx_is_saturated cx n
      \<and> (max_subscriptions_per_connection (cx_limits cx) = 0 \<or>
          length (cx_subscribed cx) < max_subscriptions_per_connection (cx_limits cx))
      \<and> (\<exists>member. authorized sj cr cx ch auth cd member \<and>
          (\<forall>m. member = Some m \<longrightarrow> pm_user_id m \<in> users \<or> card users < max_presence_members (cx_limits cx)))"
    then obtain member where "\<not> cx_is_saturated cx n" "authorized sj cr cx ch auth cd member"
      "room_for cx member (tab (app_id (cx_app cx), ch))"
      unfolding users room_for_def by auto
    from dir2 [OF this] s show "ch \<in> set (cx_subscribed cx')" by (simp add: joined_context_def)
  qed
qed

theorem subscribe_admits_exactly_witness:
  "let tok = ''k:'' @ hmac_sha256_hex example_crypto ''s'' ''1.1:private-x'';
       (cx', n') = dispatch example_json example_crypto (local_impl example_json example_moka)
         (Subscribe ''private-x'' (Some tok) None) (example_context ''1.1'' 0, example_node)
   in ''private-x'' \<in> set (cx_subscribed cx')"
proof -
  define tok where "tok = ''k:'' @ hmac_sha256_hex example_crypto ''s'' ''1.1:private-x''"
  let ?cx = "example_context ''1.1'' 0"
  obtain cx' n' where d: "dispatch example_json example_crypto (local_impl example_json example_moka)
      (Subscribe ''private-x'' (Some tok) None) (?cx, example_node) = (cx', n')" by fastforce
  have run: "local_run example_json example_crypto example_moka example_node [] = (Map.empty, example_node)" by simp
  have "cx_capabilities ?cx = capabilities_v7" "\<not> cx_clustered ?cx" "''private-x'' \<notin> set (cx_subscribed ?cx)"
    "\<not> cx_is_saturated ?cx example_node" "length (cx_subscribed ?cx) < max_subscriptions_per_connection (cx_limits ?cx)"
    by (simp_all add: example_context_def example_limits_def cx_is_saturated_def is_saturated_def example_node_def)
  with subscribe_admits_exactly [OF example_fresh(3) run d] example_token_authorized [of None]
  have "''private-x'' \<in> set (cx_subscribed cx')" by (auto simp: tok_def)
  with d show ?thesis unfolding tok_def [symmetric] Let_def by simp
qed



end
