(* ===== verification/Webhook_Edges.thy ===== *)
theory Webhook_Edges
  imports Sessions
begin

text \<open>
  The webhooks for occupied and vacated channels, across the handlers, the adapter and the
  registry: each handler raises them exactly on the edges of the channel it acts on.
\<close>


section \<open>What a handler hands to the webhook queue\<close>

definition is_edge :: "webhook_event \<Rightarrow> bool" where
  "is_edge e = (case e of WhChannelOccupied _ _ \<Rightarrow> True | WhChannelVacated _ _ \<Rightarrow> True | _ \<Rightarrow> False)"

text \<open>\<open>emits es n n'\<close>: between \<open>n\<close> and \<open>n'\<close> events were enqueued whose edges are \<open>es\<close>, in order.\<close>

definition emits :: "webhook_event list \<Rightarrow> 's node \<Rightarrow> 's node \<Rightarrow> bool" where
  "emits es n n' \<longleftrightarrow> (\<exists>all. nd_hooks n' = fold enqueue all (nd_hooks n) \<and> filter is_edge all = es)"

lemma emits_none [intro]: "nd_hooks n' = nd_hooks n \<Longrightarrow> emits [] n n'"
  unfolding emits_def by (intro exI [of _ "[]"]) simp

lemma emits_trans:
  assumes "emits a n n1" and "emits b n1 n2"
  shows "emits (a @ b) n n2"
proof -
  from assms obtain xs ys where "nd_hooks n1 = fold enqueue xs (nd_hooks n)" "filter is_edge xs = a"
    "nd_hooks n2 = fold enqueue ys (nd_hooks n1)" "filter is_edge ys = b" unfolding emits_def by blast
  then show ?thesis unfolding emits_def by (intro exI [of _ "xs @ ys"]) simp
qed

lemma emits_one: "emits (if is_edge e then [e] else []) n (emit_webhook e n)"
  unfolding emits_def by (intro exI [of _ "[e]"]) simp

lemma emits_quiet:
  assumes "emits es n n1" and "nd_hooks n2 = nd_hooks n1"
  shows "emits es n n2"
  using emits_trans [OF assms(1) emits_none [OF assms(2)]] by simp

lemma emits_start: "emits es n1 n2 \<Longrightarrow> nd_hooks n = nd_hooks n1 \<Longrightarrow> emits es n n2"
  by (simp add: emits_def)

lemma emits_other:
  assumes "emits es n n1" and "\<not> is_edge e"
  shows "emits es n (emit_webhook e n1)"
  using emits_trans [OF assms(1) emits_one [of e n1]] assms(2) by simp

text \<open>The edges of one channel between two tables, as the events that should announce them.\<close>

definition channel_edges :: "string \<Rightarrow> string \<Rightarrow> bool \<Rightarrow> bool \<Rightarrow> webhook_event list" where
  "channel_edges app ch before after =
     (if before = after then [] else if after then [WhChannelOccupied app ch] else [WhChannelVacated app ch])"

definition edges_of :: "string \<Rightarrow> string \<Rightarrow> webhook_event list \<Rightarrow> webhook_event list" where
  "edges_of app ch es = filter (\<lambda>e. e = WhChannelOccupied app ch \<or> e = WhChannelVacated app ch) es"

definition announces :: "webhook_event list \<Rightarrow> subscription_table \<Rightarrow> subscription_table \<Rightarrow> bool" where
  "announces es tab tab' \<longleftrightarrow>
     (\<forall>app ch. edges_of app ch es = channel_edges app ch (tab (app, ch) \<noteq> []) (tab' (app, ch) \<noteq> []))"

lemma announces_same: "announces [] tab tab"
  by (simp add: announces_def edges_of_def channel_edges_def)

lemma announces_occupied:
  "l \<noteq> [] \<Longrightarrow> announces (if tab (app, ch) = [] then [WhChannelOccupied app ch] else []) tab (tab((app, ch) := l))"
  by (auto simp: announces_def edges_of_def channel_edges_def)

lemma announces_vacated:
  "(tab (app, ch) = [] \<longrightarrow> l = []) \<Longrightarrow>
   announces (if tab (app, ch) \<noteq> [] \<and> l = [] then [WhChannelVacated app ch] else []) tab (tab((app, ch) := l))"
  by (auto simp: announces_def edges_of_def channel_edges_def)

lemma edges_of_vacated:
  assumes "distinct chs"
  shows "edges_of app ch (map (WhChannelVacated a) (filter P chs)) =
    (if a = app \<and> ch \<in> set chs \<and> P ch then [WhChannelVacated app ch] else [])"
  using assms unfolding edges_of_def by (induction chs) auto

definition vacating :: "connection_context \<Rightarrow> subscription_table \<Rightarrow> string \<Rightarrow> bool" where
  "vacating cx tab c \<longleftrightarrow> tab (app_id (cx_app cx), c) \<noteq> [] \<and> ref_remove (cx_socket_id cx) (tab (app_id (cx_app cx), c)) = []"

lemma edges_of_emitted:
  assumes "emits es n n'"
  shows "\<exists>all. nd_hooks n' = fold enqueue all (nd_hooks n) \<and> edges_of app ch all = edges_of app ch es"
proof -
  from assms obtain all where "nd_hooks n' = fold enqueue all (nd_hooks n)" "filter is_edge all = es"
    unfolding emits_def by blast
  moreover have "edges_of app ch all = edges_of app ch (filter is_edge all)"
    unfolding edges_of_def by (induction all) (auto simp: is_edge_def)
  ultimately show ?thesis by blast
qed

context quiet_adapter
begin

lemma broadcast_quiet [simp]: "nd_hooks (note_broadcast_drop (ad_broadcast ad app ch ev ex n)) = nd_hooks n"
  by (simp add: note_broadcast_drop_def quiet)

lemma maybe_emit_count_emits: "emits [] n (maybe_emit_count ad cx ch c n)"
  by (auto simp: maybe_emit_count_def Let_def is_edge_def intro!: emits_other)

lemma announce_leave_emits: "emits [] n (announce_leave ad cx ch p n)"
  by (auto simp: announce_leave_def Let_def is_edge_def intro!: emits_other split: option.split)

lemma announce_join_emits: "emits [] n (announce_join ad cx ch p n)"
  by (auto simp: announce_join_def Let_def is_edge_def intro!: emits_other split: option.split)

lemma notify_watchers_quiet: "nd_hooks (notify_watchers ad cx uid name n) = nd_hooks n"
  using quiet(12) [of "app_id (cx_app cx)" uid n] by (simp add: notify_watchers_def Let_def case_prod_unfold)

lemma resend_quiet: "nd_hooks (resend_subscription_succeeded ad cx ch n) = nd_hooks n"
  by (simp add: resend_subscription_succeeded_def quiet)

lemma replay_cache_emits: "emits [] n (snd (replay_cache ad ch info (cx, n)))"
proof -
  obtain c n1 where g: "ad_cache_get ad (app_id (cx_app cx)) ch n = (c, n1)" by fastforce
  have h: "nd_hooks n1 = nd_hooks n" using quiet(7) [of "app_id (cx_app cx)" ch n] g by simp
  have "emits [] n (emit_webhook (WhCacheMiss (app_id (cx_app cx)) ch) n1)"
    by (rule emits_other [OF emits_none [OF h]]) (simp add: is_edge_def)
  from emits_quiet [OF this, of "send_self cx (CacheMiss ch) (emit_webhook (WhCacheMiss (app_id (cx_app cx)) ch) n1)"]
    emits_none [of "send_self cx (CacheMiss ch) n1" n] emits_none [of n n]
    emits_none [of "send_self cx (ChannelEvent ch ev d None) n1" n for ev d] h g
  show ?thesis by (cases c) (simp_all add: replay_cache_def)
qed

lemma presence_full_quiet: "nd_hooks (snd (presence_full ad cx ch m n)) = nd_hooks n"
  by (simp add: presence_full_def Let_def case_prod_unfold quiet)

lemma emit_occupied_emits:
  assumes "\<not> cx_clustered cx" and "has_channel_occupied_webhooks (cx_app cx)"
  shows "emits (if occ then [WhChannelOccupied (app_id (cx_app cx)) ch] else []) n (emit_occupied_if_edge cx ch occ n)"
  using assms emits_one [of "WhChannelOccupied (app_id (cx_app cx)) ch" n]
  by (auto simp: emit_occupied_if_edge_def is_edge_def)

lemma join_plain_emits:
  assumes rel: "rel (nd_state n) tab us" and j: "join_plain ad ch cx n = (cx', n')"
    and c: "\<not> cx_clustered cx" "has_channel_occupied_webhooks (cx_app cx)" and k: "k = (app_id (cx_app cx), ch)"
  shows "emits (if tab k = [] then [WhChannelOccupied (app_id (cx_app cx)) ch] else []) n n'"
proof -
  obtain out n1 where o: "ad_subscribe ad (app_id (cx_app cx)) ch (cx_handle cx) None n = (out, n1)" by fastforce
  have h: "nd_hooks n1 = nd_hooks n" using quiet(1) [of "app_id (cx_app cx)" ch "cx_handle cx" None n] o by simp
  define cx1 where "cx1 = cx\<lparr>cx_subscribed := hs_insert ch (cx_subscribed cx)\<rparr>"
  have cx1: "\<not> cx_clustered cx1" "has_channel_occupied_webhooks (cx_app cx1)" "cx_app cx1 = cx_app cx"
    using c by (simp_all add: cx1_def)
  have occ: "so_occupied out = (tab k = [])" using subscribe_law [OF rel o] k by simp
  let ?n2 = "send_self cx1 (SubscriptionSucceeded ch None) n1"
  have "emits [] n (maybe_emit_count ad cx1 ch (so_subscription_count out) ?n2)"
    by (rule emits_start [OF maybe_emit_count_emits]) (simp add: h)
  from emits_trans [OF this emit_occupied_emits [OF cx1(1,2)], of "so_occupied out" ch] j o occ cx1(3) show ?thesis
    by (auto simp: join_plain_def cx1_def Let_def)
qed

lemma join_presence_emits:
  assumes rel: "rel (nd_state n) tab us" and j: "join_presence ad ch m cx n = (cx', n')"
    and c: "\<not> cx_clustered cx" "has_channel_occupied_webhooks (cx_app cx)" and k: "k = (app_id (cx_app cx), ch)"
  shows "emits (if tab k = [] then [WhChannelOccupied (app_id (cx_app cx)) ch] else []) n n'"
proof -
  obtain out n1 where o: "ad_subscribe ad (app_id (cx_app cx)) ch (cx_handle cx) (Some m) n = (out, n1)" by fastforce
  have h: "nd_hooks n1 = nd_hooks n" using quiet(1) [of "app_id (cx_app cx)" ch "cx_handle cx" "Some m" n] o by simp
  define cx1 where "cx1 = cx\<lparr>cx_subscribed := hs_insert ch (cx_subscribed cx),
    cx_presence_membership := AList.update ch (pm_user_id m) (cx_presence_membership cx)\<rparr>"
  have cx1: "\<not> cx_clustered cx1" "has_channel_occupied_webhooks (cx_app cx1)" "cx_app cx1 = cx_app cx"
    using c by (simp_all add: cx1_def)
  have occ: "so_occupied out = (tab k = [])" using subscribe_law [OF rel o] k by simp
  have "emits [] n (announce_join ad cx1 ch (so_presence out) n1)"
    by (rule emits_start [OF announce_join_emits]) (simp add: h)
  from emits_trans [OF this maybe_emit_count_emits]
  have "emits [] n (maybe_emit_count ad cx1 ch (so_subscription_count out) (announce_join ad cx1 ch (so_presence out) n1))"
    by simp
  from emits_trans [OF this emit_occupied_emits [OF cx1(1,2)], of "so_occupied out" ch] j o occ cx1(3) show ?thesis
    by (auto simp: join_presence_def cx1_def Let_def)
qed

lemma join_channel_emits:
  assumes rel: "rel (nd_state n) tab us" and c: "\<not> cx_clustered cx" "has_channel_occupied_webhooks (cx_app cx)"
    and k: "k = (app_id (cx_app cx), ch)"
  shows "case join_channel sj cr ad ch auth cd cx n of
      Inl (e, n') \<Rightarrow> emits [] n n'
    | Inr (cx', n') \<Rightarrow> emits (if tab k = [] then [WhChannelOccupied (app_id (cx_app cx)) ch] else []) n n'"
proof -
  obtain pcx pn where p: "join_plain ad ch cx n = (pcx, pn)" by fastforce
  note plain = join_plain_emits [OF rel p c k]
  have priv: ?thesis if "ci_auth (channel_info_of ch) = kind" and "kind = Private \<or> kind = PrivateEncrypted" for kind
    using that p plain by (cases "check_private cr cx kind ch auth") (auto simp: join_channel_def)
  show ?thesis
  proof (cases "ci_auth (channel_info_of ch)")
    case Public
    with p plain show ?thesis by (simp add: join_channel_def)
  next
    case Presence
    show ?thesis
    proof (cases "check_presence sj cr cx ch auth cd")
      case (Inl e)
      with Presence show ?thesis by (auto simp: join_channel_def)
    next
      case (Inr m)
      obtain full n1 where f: "presence_full ad cx ch m n = (full, n1)" by fastforce
      have h: "nd_hooks n1 = nd_hooks n" using presence_full_quiet [of cx ch m n] f by simp
      obtain jcx jn where q: "join_presence ad ch m cx n1 = (jcx, jn)" by fastforce
      note join_presence_emits [OF conjunct1 [OF presence_full_rel [OF rel f refl]] q c k]
      from emits_start [OF this h [symmetric]] Inr Presence f q h show ?thesis
        by (auto simp: join_channel_def)
    qed
  qed (use priv in simp_all)
qed

lemma subscribe_emits:
  assumes rel: "rel (nd_state n) tab us" and s: "subscribe sj cr ad ch auth cd (cx, n) = (cx', n')"
    and c: "\<not> cx_clustered cx" "has_channel_occupied_webhooks (cx_app cx)" and k: "k = (app_id (cx_app cx), ch)"
  shows "emits (if ch \<in> set (cx_subscribed cx') - set (cx_subscribed cx) \<and> tab k = []
      then [WhChannelOccupied (app_id (cx_app cx)) ch] else []) n n'"
proof -
  define joins where "joins = join_channel sj cr ad ch auth cd cx n"
  consider (quiet) "nd_hooks n' = nd_hooks n" "cx' = cx"
    | (joins) "ch \<notin> set (cx_subscribed cx)" "validate_channel_name ch (max_channel_name_length (cx_limits cx))"
      "(case joins of Inl ((ty, e, st), n1) \<Rightarrow> (cx, send_subscription_error cx ch ty e st n1)
        | Inr (cx1, n1) \<Rightarrow> replay_cache ad ch (channel_info_of ch) (cx1, n1)) = (cx', n')"
    using s by (auto simp: subscribe_def joins_def Let_def resend_quiet split: if_splits option.splits)
  then show ?thesis
  proof cases
    case quiet
    then show ?thesis by auto
  next
    case joins
    note em = join_channel_emits [OF rel c k, of sj cr auth cd, folded joins_def]
    note jr = join_channel_rel [OF rel joins_def [symmetric] joins(2,1) k]
    show ?thesis
    proof (cases joins)
      case (Inl x)
      obtain ty e st n1 where x: "x = ((ty, e, st), n1)" by (metis prod.collapse)
      with Inl joins(1,3) em emits_quiet [of "[]" n n1 n'] show ?thesis by auto
    next
      case (Inr x)
      obtain cx1 n1 where x: "x = (cx1, n1)" by fastforce
      with Inr joins(3) have r: "replay_cache ad ch (channel_info_of ch) (cx1, n1) = (cx', n')" by simp
      from jr Inr x obtain member where j: "cx1 = joined_context ch member cx"
        and rel1: "rel (nd_state n1) (tab(k := ref_add (cx_socket_id cx) member (tab k))) us" by auto
      have "ch \<in> set (cx_subscribed cx') - set (cx_subscribed cx)"
        using replay_cache_keeps [OF rel1 r] j joins(1) by (simp add: joined_context_def)
      with emits_trans [OF _ replay_cache_emits, of _ n n1 ch "channel_info_of ch" cx1] em Inr x r show ?thesis
        by simp
    qed
  qed
qed

lemma unsubscribe_emits:
  assumes rel: "rel (nd_state n) tab us" and u: "unsubscribe ad ch (cx, n) = (cx', n')"
    and c: "\<not> cx_clustered cx" "has_channel_vacated_webhooks (cx_app cx)" and k: "k = (app_id (cx_app cx), ch)"
  shows "emits (if ch \<in> set (cx_subscribed cx) \<and> tab k \<noteq> [] \<and> ref_remove (cx_socket_id cx) (tab k) = []
      then [WhChannelVacated (app_id (cx_app cx)) ch] else []) n n'"
proof (cases "ch \<in> set (cx_subscribed cx)")
  case True
  obtain out n1 where o: "ad_unsubscribe ad (app_id (cx_app cx)) ch (cx_socket_id cx) n = (out, n1)" by fastforce
  have h: "nd_hooks n1 = nd_hooks n" using quiet(2) [of "app_id (cx_app cx)" ch "cx_socket_id cx" n] o by simp
  have vac: "uo_vacated out = (tab k \<noteq> [] \<and> ref_remove (cx_socket_id cx) (tab k) = [])"
    using unsubscribe_law [OF rel o] k by simp
  define cx1 where "cx1 = left_context ch cx"
  have cx1: "cx_app cx1 = cx_app cx" "cx_clustered cx1 = cx_clustered cx" "cx_socket_id cx1 = cx_socket_id cx"
    by (simp_all add: cx1_def left_context_def)
  define n3 where "n3 = (let n2 = announce_leave ad cx1 ch (uo_presence out) n1
    in if uo_vacated out then emit_webhook (WhChannelVacated (app_id (cx_app cx)) ch) n2 else n2)"
  have "emits [] n (announce_leave ad cx1 ch (uo_presence out) n1)"
    by (rule emits_start [OF announce_leave_emits]) (simp add: h)
  from emits_trans [OF this emits_one [of "WhChannelVacated (app_id (cx_app cx)) ch"]] this
  have n3: "emits (if uo_vacated out then [WhChannelVacated (app_id (cx_app cx)) ch] else []) n n3"
    by (simp add: n3_def Let_def is_edge_def)
  have "n' = maybe_emit_count ad cx1 ch (uo_subscription_count out) n3"
    using u True o c cx1 by (auto simp: unsubscribe_def Let_def n3_def simp flip: left_context_def cx1_def)
  with emits_trans [OF n3 maybe_emit_count_emits] True vac show ?thesis by simp
next
  case False
  with u show ?thesis by (auto simp: unsubscribe_def)
qed

lemma fold_unsubscribe_emits:
  assumes "rel (nd_state n) tab us" and "fold (unsubscribe ad) chs (cx, n) = (cx', n')"
    and "set chs \<subseteq> set (cx_subscribed cx)" and "distinct chs"
    and "\<not> cx_clustered cx" and "has_channel_vacated_webhooks (cx_app cx)"
  shows "emits (map (WhChannelVacated (app_id (cx_app cx))) (filter (vacating cx tab) chs)) n n'"
  using assms
proof (induction chs arbitrary: cx n tab)
  case Nil
  then show ?case by (auto)
next
  case (Cons c chs)
  obtain cx1 n1 where u: "unsubscribe ad c (cx, n) = (cx1, n1)" by fastforce
  have c: "c \<in> set (cx_subscribed cx)" using Cons.prems(3) by simp
  define tab1 where "tab1 = tab((app_id (cx_app cx), c) := ref_remove (cx_socket_id cx) (tab (app_id (cx_app cx), c)))"
  have cx1: "cx1 = left_context c cx" and r1: "rel (nd_state n1) tab1 us"
    using unsubscribe_rel [OF Cons.prems(1) u] c by (simp_all add: tab1_def)
  have "fold (unsubscribe ad) chs (cx1, n1) = (cx', n')" using Cons.prems(2) u by simp
  moreover have "set chs \<subseteq> set (cx_subscribed cx1)"
    using Cons.prems(3,4) by (auto simp: cx1 left_context_def hs_remove_def)
  moreover have same: "cx_app cx1 = cx_app cx" "\<not> cx_clustered cx1" "distinct chs"
    using Cons.prems(4,5) by (simp_all add: cx1 left_context_def)
  ultimately have IH: "emits (map (WhChannelVacated (app_id (cx_app cx))) (filter (vacating cx1 tab1) chs)) n1 n'"
    using Cons.IH [OF r1, of cx1] Cons.prems(6) by (simp only: same)
  have "filter (vacating cx1 tab1) chs = filter (vacating cx tab) chs"
    using Cons.prems(4) by (intro filter_cong) (auto simp: vacating_def tab1_def cx1 left_context_def)
  with emits_trans [OF unsubscribe_emits [OF Cons.prems(1) u Cons.prems(5,6) refl] IH] c show ?case
    by (auto simp: vacating_def [of cx tab c] split: if_splits)
qed

lemma on_close_emits:
  assumes rel: "rel (nd_state n) tab us" and c: "on_close ad (cx, n) = (cx', n')" and d: "distinct (cx_subscribed cx)"
    and f: "\<not> cx_clustered cx" "has_channel_vacated_webhooks (cx_app cx)"
  shows "emits (map (WhChannelVacated (app_id (cx_app cx))) (filter (vacating cx tab) (cx_subscribed cx))) n n'"
proof -
  obtain cx1 n1 where u: "fold (unsubscribe ad) (cx_subscribed cx) (cx, n) = (cx1, n1)" by fastforce
  note em = fold_unsubscribe_emits [OF rel u subset_refl d f]
  have "nd_hooks n' = nd_hooks n1"
  proof (cases "cx_user cx1")
    case None
    with c u show ?thesis by (auto simp: on_close_def Let_def quiet)
  next
    case (Some user)
    obtain l n2 where o: "ad_signout_user ad (app_id (cx_app cx)) (au_id user) (cx_socket_id cx1) n1 = (l, n2)" by fastforce
    have "nd_hooks n2 = nd_hooks n1"
      using quiet(9) [of "app_id (cx_app cx)" "au_id user" "cx_socket_id cx1" n1] o by simp
    with Some c u o show ?thesis
      by (auto simp: on_close_def Let_def quiet(11) notify_watchers_quiet split: if_splits)
  qed
  with em show ?thesis by (rule emits_quiet)
qed

lemma signin_quiet:
  assumes "signin sj cr ad auth ud (cx, n) = (cx', n')"
  shows "nd_hooks n' = nd_hooks n"
proof -
  have cw: "nd_hooks (snd (capped_watchlist cx ws m)) = nd_hooks m" for ws and m :: "'s node"
    using capped_watchlist_result(3) [of cx ws m] by (cases "capped_watchlist cx ws m") simp
  show ?thesis
    using assms
    by (auto simp: signin_def Let_def case_prod_unfold quiet(8) quiet(10) notify_watchers_quiet cw
        split: if_splits option.splits sum.splits)
qed

lemma client_event_emits:
  assumes "client_event sj ad ev ch d (cx, n) = (cx', n')"
  shows "emits [] n n'"
  using assms
  by (auto simp: client_event_def Let_def case_prod_unfold is_edge_def intro!: emits_other split: if_splits)

text \<open>One step of a connection announces exactly the edges between the tables.\<close>

lemma dispatch_announces:
  assumes rel: "rel (nd_state n) tab us" and d: "dispatch sj cr ad cmd (cx, n) = (cx', n')"
    and c: "\<not> cx_clustered cx" "has_channel_occupied_webhooks (cx_app cx)" "has_channel_vacated_webhooks (cx_app cx)"
  shows "\<exists>tab' us' es. rel (nd_state n') tab' us' \<and> emits es n n' \<and> announces es tab tab'"
proof -
  have intro: ?thesis if "rel (nd_state n') tab' us'" and "emits es n n'" and "announces es tab tab'" for tab' us' es
    using that by blast
  note keep = intro [OF _ _ announces_same]
  show ?thesis
  proof (cases cmd)
    case CmdPing
    with d rel show ?thesis by (intro keep) auto
  next
    case (Subscribe ch auth cd)
    let ?k = "(app_id (cx_app cx), ch)"
    from Subscribe d have s: "subscribe sj cr ad ch auth cd (cx, n) = (cx', n')" by simp
    note em = subscribe_emits [OF rel s c(1,2) refl]
    from subscribe_rel [OF rel s refl] show ?thesis
    proof (elim disjE exE conjE)
      assume "cx' = cx" and "rel (nd_state n') tab us"
      with em show ?thesis by (intro keep) simp_all
    next
      fix member
      assume "ch \<notin> set (cx_subscribed cx)" and "cx' = joined_context ch member cx"
        and r: "rel (nd_state n') (tab(?k := ref_add (cx_socket_id cx) member (tab ?k))) us"
      with em have "emits (if tab ?k = [] then [WhChannelOccupied (app_id (cx_app cx)) ch] else []) n n'"
        by (simp add: joined_context_def)
      from intro [OF r this announces_occupied] show ?thesis by (simp add: ref_add_def)
    qed
  next
    case (Unsubscribe ch)
    let ?k = "(app_id (cx_app cx), ch)" and ?l = "ref_remove (cx_socket_id cx) (tab (app_id (cx_app cx), ch))"
    from Unsubscribe d have u: "unsubscribe ad ch (cx, n) = (cx', n')" by simp
    note em = unsubscribe_emits [OF rel u c(1,3) refl] and r = unsubscribe_rel [OF rel u]
    show ?thesis
    proof (cases "ch \<in> set (cx_subscribed cx)")
      case True
      with r have r': "rel (nd_state n') (tab(?k := ?l)) us" by simp
      from True em have "emits (if tab ?k \<noteq> [] \<and> ?l = [] then [WhChannelVacated (app_id (cx_app cx)) ch] else []) n n'" by simp
      from intro [OF r' this announces_vacated] show ?thesis by (simp add: ref_remove_def)
    next
      case False
      with r have "rel (nd_state n') tab us" by simp
      from keep [OF this] em False show ?thesis by simp
    qed
  next
    case (ClientEvent ev ch data)
    with d have u: "client_event sj ad ev ch data (cx, n) = (cx', n')" by simp
    from keep [OF conjunct2 [OF client_event_rel [OF rel u]] client_event_emits [OF u]] show ?thesis .
  next
    case (Signin auth ud)
    with d have u: "signin sj cr ad auth ud (cx, n) = (cx', n')" by simp
    note em = emits_none [OF signin_quiet [OF u]]
    from signin_rel [OF rel u] show ?thesis
      by (elim disjE exE conjE) (rule keep [OF _ em], assumption)+
  next
    case (Unknown x)
    with d rel show ?thesis by (intro keep) auto
  qed
qed

lemma on_close_announces:
  assumes rel: "rel (nd_state n) tab us" and c: "on_close ad (cx, n) = (cx', n')" and d: "distinct (cx_subscribed cx)"
    and f: "\<not> cx_clustered cx" "has_channel_vacated_webhooks (cx_app cx)"
  shows "\<exists>tab' us' es. rel (nd_state n') tab' us' \<and> emits es n n' \<and> announces es tab tab'"
proof -
  let ?es = "map (WhChannelVacated (app_id (cx_app cx))) (filter (vacating cx tab) (cx_subscribed cx))"
  have "announces ?es tab (closed_table cx (cx_subscribed cx) tab)"
    unfolding announces_def edges_of_vacated [OF d]
    by (auto simp: channel_edges_def closed_table_def vacating_def ref_remove_def)
  with on_close_rel [OF rel c d] on_close_emits [OF rel c d f] show ?thesis by blast
qed

end


section \<open>Properties\<close>

text \<open>
  C4. In every reachable state of a node, a command or the hang-up of a connection outside a
  cluster, whose application asks for both webhooks, hands to the webhook queue for every channel
  of every application exactly the edges it caused: one \<open>channel_occupied\<close> when the channel
  went from no subscriber to some, one \<open>channel_vacated\<close> when it lost its last one, and neither
  otherwise.
\<close>

theorem occupancy_webhooks_exact:
  assumes "nd_state n0 = local_adapter_new cache apps" and "local_run sj cr mk n0 ops = (cs, n)"
    and "cs sid = Some cx" and "x = Hangup sid \<or> x = Command sid cmd"
    and "\<not> cx_clustered cx" and "has_channel_occupied_webhooks (cx_app cx)" and "has_channel_vacated_webhooks (cx_app cx)"
    and "session_step sj cr (local_impl sj mk) (cs, n) x = (cs', n')"
  shows "\<exists>events. nd_hooks n' = fold enqueue events (nd_hooks n) \<and>
    edges_of app ch events = channel_edges app ch
      (map_of (la_registry (nd_state n)) (app, ch) \<noteq> None) (map_of (la_registry (nd_state n')) (app, ch) \<noteq> None)"
proof -
  from local_run_matches [OF assms(1,2)] obtain tab us where rel: "la_rel sj (nd_state n) tab us" and m: "matches cs tab us"
    by blast
  have d: "distinct (cx_subscribed cx)" using matches_cx_ok [OF m assms(3)] by (simp add: cx_ok_def)
  have "\<exists>tab' us' es. la_rel sj (nd_state n') tab' us' \<and> emits es n n' \<and> announces es tab tab'"
    using assms(4)
  proof
    assume x: "x = Hangup sid"
    obtain cx1 n1 where "on_close (local_impl sj mk) (cx, n) = (cx1, n1)" by fastforce
    from local.on_close_announces [OF rel this d assms(5,7)] this x assms(3,8) show ?thesis by simp
  next
    assume x: "x = Command sid cmd"
    obtain cx1 n1 where "dispatch sj cr (local_impl sj mk) cmd (cx, n) = (cx1, n1)" by fastforce
    from local.dispatch_announces [OF rel this assms(5-7)] this x assms(3,8) show ?thesis by simp
  qed
  then obtain tab' us' es where rel': "la_rel sj (nd_state n') tab' us'" and em: "emits es n n'" and an: "announces es tab tab'"
    by blast
  have stored: "map_of (la_registry (nd_state m)) (app, ch) \<noteq> None \<longleftrightarrow> t (app, ch) \<noteq> []"
    if "la_rel sj (nd_state m) t u" for m :: "'a local_adapter node" and t u
    using that reg_rel_None [of sj _ t "(app, ch)"] reg_rel_Some [of sj _ t "(app, ch)"] by (auto simp: la_rel_def)
  from edges_of_emitted [OF em, of app ch] an show ?thesis
    unfolding stored [OF rel] stored [OF rel'] announces_def by auto
qed

definition hooked_context :: "string \<Rightarrow> nat \<Rightarrow> connection_context" where
  "hooked_context sid q = (example_context sid q)\<lparr>cx_app :=
     example_app\<lparr>has_channel_occupied_webhooks := True, has_channel_vacated_webhooks := True\<rparr>\<rparr>"

theorem occupancy_webhooks_exact_witness:
  "let sid = from_raw ''1.1'';
       (cs, n) = local_run example_json example_crypto example_moka example_node [Open (hooked_context ''1.1'' 0)];
       (cs', n') = session_step example_json example_crypto (local_impl example_json example_moka) (cs, n)
         (Command sid (Subscribe ''c'' None None))
   in \<exists>events. nd_hooks n' = fold enqueue events (nd_hooks n) \<and>
        edges_of ''a'' ''c'' events = channel_edges ''a'' ''c'' False (map_of (la_registry (nd_state n')) (''a'', ''c'') \<noteq> None)"
proof -
  let ?cx = "hooked_context ''1.1'' 0" and ?sid = "from_raw ''1.1''"
  have fresh: "fresh_context ?cx" "cx_socket_id ?cx = ?sid"
    by (simp_all add: hooked_context_def fresh_context_def example_context_def)
  have run: "local_run example_json example_crypto example_moka example_node [Open ?cx] = ([?sid \<mapsto> ?cx], example_node)"
    using fresh by simp
  obtain cs' n' where s: "session_step example_json example_crypto (local_impl example_json example_moka)
      ([?sid \<mapsto> ?cx], example_node) (Command ?sid (Subscribe ''c'' None None)) = (cs', n')" by fastforce
  have "map_of (la_registry (nd_state example_node)) (''a'', ''c'') = None" by (simp add: local_adapter_new_def)
  with occupancy_webhooks_exact [OF example_fresh(3) run _ _ _ _ _ s, of ?sid ?cx "Subscribe ''c'' None None" "''a''" "''c''"]
  have "\<exists>events. nd_hooks n' = fold enqueue events (nd_hooks example_node) \<and>
      edges_of ''a'' ''c'' events = channel_edges ''a'' ''c'' False (map_of (la_registry (nd_state n')) (''a'', ''c'') \<noteq> None)"
    by (simp add: hooked_context_def example_context_def)
  then show ?thesis unfolding Let_def run prod.case s .
qed

end
