(* ===== verification/Handshake.thy ===== *)
theory Handshake
  imports App
begin

text \<open>
  The opening handshake, from \<^verbatim>\<open>src/transport/handshake.rs\<close>, with the path parsing of
  \<^verbatim>\<open>src/transport/worker.rs\<close> and the error body of \<^verbatim>\<open>src/http/error.rs\<close>. Parsing the HTTP head
  is the \<open>httparse\<close> crate's, and SHA-1 with Base64 are two further crates'; they are parameters.
\<close>


section \<open>Text helpers\<close>

text \<open>
  \<open>str::trim\<close> on UTF-8 text: the width of a white-space character at the start, and at the end,
  of the text.
\<close>

fun white_prefix :: "string \<Rightarrow> nat" where
  "white_prefix [] = 0"
| "white_prefix (a # s) =
     (if ascii_white a then 1
      else case s of
        [] \<Rightarrow> 0
      | b # s2 \<Rightarrow>
        if white2 (of_char a) (of_char b) then 2
        else (case s2 of [] \<Rightarrow> 0 | c # _ \<Rightarrow> if white3 (of_char a) (of_char b) (of_char c) then 3 else 0))"

fun white_suffix :: "string \<Rightarrow> nat" where
  "white_suffix [] = 0"
| "white_suffix (a # s) =
     (if ascii_white a then 1
      else case s of
        [] \<Rightarrow> 0
      | b # s2 \<Rightarrow>
        if white2 (of_char b) (of_char a) then 2
        else (case s2 of [] \<Rightarrow> 0 | c # _ \<Rightarrow> if white3 (of_char c) (of_char b) (of_char a) then 3 else 0))"

function trim_start :: "string \<Rightarrow> string" where
  "trim_start s = (if white_prefix s = 0 then s else trim_start (drop (white_prefix s) s))"
  by pat_completeness auto
termination
proof (relation "measure length")
  fix s :: string
  assume "white_prefix s \<noteq> 0"
  then have "s \<noteq> []" by auto
  with \<open>white_prefix s \<noteq> 0\<close> show "(drop (white_prefix s) s, s) \<in> measure length" by (cases s) auto
qed simp

declare trim_start.simps [simp del]

text \<open>The end is trimmed on the reversed text.\<close>

function trim_back :: "string \<Rightarrow> string" where
  "trim_back s = (if white_suffix s = 0 then s else trim_back (drop (white_suffix s) s))"
  by pat_completeness auto
termination
proof (relation "measure length")
  fix s :: string
  assume "white_suffix s \<noteq> 0"
  then have "s \<noteq> []" by auto
  with \<open>white_suffix s \<noteq> 0\<close> show "(drop (white_suffix s) s, s) \<in> measure length" by (cases s) auto
qed simp

declare trim_back.simps [simp del]

definition trim_str :: "string \<Rightarrow> string" where
  "trim_str s = rev (trim_back (rev (trim_start s)))"

definition ascii_lower :: "byte \<Rightarrow> byte" where
  "ascii_lower b = (if 0x41 \<le> b \<and> b \<le> 0x5A then b + 0x20 else b)"

definition eq_ignore_ascii_case :: "byte list \<Rightarrow> byte list \<Rightarrow> bool" where
  "eq_ignore_ascii_case xs ys = (map ascii_lower xs = map ascii_lower ys)"

text \<open>\<open>u8::is_ascii_whitespace\<close>: space, tab, line feed, form feed and carriage return.\<close>

definition is_ascii_whitespace :: "byte \<Rightarrow> bool" where
  "is_ascii_whitespace b = (b \<in> {0x20, 0x09, 0x0A, 0x0C, 0x0D})"

definition trim_ascii :: "byte list \<Rightarrow> byte list" where
  "trim_ascii v = rev (dropWhile is_ascii_whitespace (rev (dropWhile is_ascii_whitespace v)))"

definition header_value_eq_ignore_ascii_case :: "byte list \<Rightarrow> byte list \<Rightarrow> bool" where
  "header_value_eq_ignore_ascii_case value expected = eq_ignore_ascii_case (trim_ascii value) expected"

definition connection_contains_upgrade :: "byte list \<Rightarrow> bool" where
  "connection_contains_upgrade value =
     (case from_utf8 value of
        None \<Rightarrow> False
      | Some s \<Rightarrow> list_ex (\<lambda>tok. eq_ignore_ascii_case (as_bytes (trim_str tok)) (as_bytes ''upgrade''))
                   (split_on (CHR '','') s))"


section \<open>The request head\<close>

definition MAX_HEADERS :: nat where "MAX_HEADERS = 128"

datatype head_result =
    WsUpgrade (ws_key: string) (ws_path: string)
  | Rest nat
  | NeedMore
  | TooManyHeaders
  | Bad string

text \<open>
  What \<open>httparse\<close> reports: the size of a complete head with its method, path and headers, that
  the head is incomplete, or an error.
\<close>

record http_request =
  rq_method :: "string option"
  rq_path :: "string option"
  rq_headers :: "(string \<times> byte list) list"

datatype parse_status = Complete nat http_request | Partial | ErrTooManyHeaders | ErrOther

record crates =
  hp_parse :: "nat \<Rightarrow> byte list \<Rightarrow> parse_status"
  sha1_digest :: "byte list \<Rightarrow> byte list"
  base64_encode :: "byte list \<Rightarrow> string"

text \<open>What the loop over the headers collects.\<close>

record upgrade_headers =
  uh_upgrade :: bool
  uh_connection :: bool
  uh_version :: bool
  uh_key :: "string option"

definition note_header :: "string \<times> byte list \<Rightarrow> upgrade_headers \<Rightarrow> upgrade_headers" where
  "note_header h u =
     (let name = as_bytes (fst h); value = snd h
      in if eq_ignore_ascii_case name (as_bytes ''upgrade'') then
           (if header_value_eq_ignore_ascii_case value (as_bytes ''websocket'') then u\<lparr>uh_upgrade := True\<rparr> else u)
         else if eq_ignore_ascii_case name (as_bytes ''connection'') then
           (if connection_contains_upgrade value then u\<lparr>uh_connection := True\<rparr> else u)
         else if eq_ignore_ascii_case name (as_bytes ''sec-websocket-version'') then
           (if header_value_eq_ignore_ascii_case value (as_bytes ''13'') then u\<lparr>uh_version := True\<rparr> else u)
         else if eq_ignore_ascii_case name (as_bytes ''sec-websocket-key'') then
           (case from_utf8 value of
              None \<Rightarrow> u
            | Some v \<Rightarrow> if trim_str v = [] then u else u\<lparr>uh_key := Some (trim_str v)\<rparr>)
         else u)"

text \<open>\<open>buf[..n].windows(4).any(|w| w == b"\r\n\r\n")\<close>\<close>

fun has_terminator :: "byte list \<Rightarrow> bool" where
  "has_terminator [] = False"
| "has_terminator (b # bs) = (take 4 (b # bs) = [0x0D, 0x0A, 0x0D, 0x0A] \<or> has_terminator bs)"

definition read_head :: "crates \<Rightarrow> byte list \<Rightarrow> nat \<Rightarrow> head_result" where
  "read_head lib buf max_head_bytes =
     (if max_head_bytes \<noteq> 0 \<and> max_head_bytes < length buf \<and> \<not> has_terminator (take max_head_bytes buf)
      then Bad ''request head too large''
      else case hp_parse lib MAX_HEADERS buf of
        Partial \<Rightarrow> NeedMore
      | ErrTooManyHeaders \<Rightarrow> TooManyHeaders
      | ErrOther \<Rightarrow> Bad ''malformed http request''
      | Complete consumed req \<Rightarrow>
        (let method = (case rq_method req of Some m \<Rightarrow> m | None \<Rightarrow> '''');
             path = (case rq_path req of Some p \<Rightarrow> p | None \<Rightarrow> '''')
         in if method \<noteq> ''GET'' then Rest consumed
            else (let u = fold note_header (rq_headers req)
                        \<lparr>uh_upgrade = False, uh_connection = False, uh_version = False, uh_key = None\<rparr>
                  in case uh_key u of
                       Some key \<Rightarrow>
                         if uh_upgrade u \<and> uh_connection u \<and> uh_version u then WsUpgrade key path
                         else if starts_with ''/app/'' path then Bad ''invalid websocket upgrade''
                         else Rest consumed
                     | None \<Rightarrow>
                         if starts_with ''/app/'' path then Bad ''invalid websocket upgrade'' else Rest consumed)))"


section \<open>Responses\<close>

definition crlf :: string where "crlf = [CHR 0x0D, CHR 0x0A]"

definition WS_GUID :: string where "WS_GUID = ''258EAFA5-E914-47DA-95CA-C5AB0DC85B11''"

definition accept_response :: "crates \<Rightarrow> string \<Rightarrow> byte list" where
  "accept_response lib key =
     (let accept = base64_encode lib (sha1_digest lib (as_bytes key @ as_bytes WS_GUID))
      in as_bytes (''HTTP/1.1 101 Switching Protocols'' @ crlf
           @ ''Upgrade: websocket'' @ crlf
           @ ''Connection: Upgrade'' @ crlf
           @ ''Sec-WebSocket-Accept: '' @ accept @ crlf
           @ crlf))"

definition error_body :: "serde_json \<Rightarrow> string \<Rightarrow> nat \<Rightarrow> string" where
  "error_body sj message status =
     to_string sj (Object [(''error'', String message), (''status'', json_nat status)])"

definition header_fields_too_large_response :: "serde_json \<Rightarrow> byte list" where
  "header_fields_too_large_response sj =
     (let body = error_body sj ''Request header fields too large'' 431
      in as_bytes (''HTTP/1.1 431 Request Header Fields Too Large'' @ crlf
           @ ''Content-Type: application/json'' @ crlf
           @ ''Content-Length: '' @ show_nat (length body) @ crlf
           @ ''Connection: close'' @ crlf
           @ crlf @ body))"


section \<open>The application path\<close>

definition query_param :: "string option \<Rightarrow> string \<Rightarrow> string option" where
  "query_param query name =
     (case query of
        None \<Rightarrow> None
      | Some q \<Rightarrow>
        List.find (\<lambda>_. True) (List.map_filter (\<lambda>pair.
          case split_once (CHR ''='') pair of
            Some (k, v) \<Rightarrow> if k = name then Some v else None
          | None \<Rightarrow> None) (split_on (CHR ''&'') q)))"

definition parse_app_path :: "string \<Rightarrow> string option \<times> string option \<times> string option" where
  "parse_app_path path =
     (let (raw_path, query) = (case split_once (CHR ''?'') path of Some (p, q) \<Rightarrow> (p, Some q) | None \<Rightarrow> (path, None));
          key = (case strip_prefix ''/app/'' raw_path of
                   Some k \<Rightarrow> if k \<noteq> [] \<and> CHR ''/'' \<notin> set k then Some k else None
                 | None \<Rightarrow> None)
      in (key, query_param query ''protocol'', query_param query ''version''))"


section \<open>Which requests are upgrades\<close>

text \<open>Some header of this name, whatever its case, has a value that passes the test.\<close>

definition header_with :: "string \<Rightarrow> (byte list \<Rightarrow> bool) \<Rightarrow> (string \<times> byte list) list \<Rightarrow> bool" where
  "header_with name ok hs =
     list_ex (\<lambda>(k, v). eq_ignore_ascii_case (as_bytes k) (as_bytes name) \<and> ok v) hs"

definition key_of_value :: "byte list \<Rightarrow> string option" where
  "key_of_value v = Option.bind (from_utf8 v) (\<lambda>s. if trim_str s = [] then None else Some (trim_str s))"

lemma header_names_differ:
  "\<not> (eq_ignore_ascii_case n (as_bytes ''upgrade'') \<and> eq_ignore_ascii_case n (as_bytes ''connection''))"
  "\<not> (eq_ignore_ascii_case n (as_bytes ''upgrade'') \<and> eq_ignore_ascii_case n (as_bytes ''sec-websocket-version''))"
  "\<not> (eq_ignore_ascii_case n (as_bytes ''upgrade'') \<and> eq_ignore_ascii_case n (as_bytes ''sec-websocket-key''))"
  "\<not> (eq_ignore_ascii_case n (as_bytes ''connection'') \<and> eq_ignore_ascii_case n (as_bytes ''sec-websocket-version''))"
  "\<not> (eq_ignore_ascii_case n (as_bytes ''connection'') \<and> eq_ignore_ascii_case n (as_bytes ''sec-websocket-key''))"
  "\<not> (eq_ignore_ascii_case n (as_bytes ''sec-websocket-version'') \<and> eq_ignore_ascii_case n (as_bytes ''sec-websocket-key''))"
  by (auto simp: eq_ignore_ascii_case_def dest: arg_cong [where f = length])

lemma note_header_fields:
  "uh_upgrade (note_header h u) = (uh_upgrade u \<or>
     header_with ''upgrade'' (\<lambda>v. header_value_eq_ignore_ascii_case v (as_bytes ''websocket'')) [h])"
  "uh_connection (note_header h u) = (uh_connection u \<or> header_with ''connection'' connection_contains_upgrade [h])"
  "uh_version (note_header h u) = (uh_version u \<or>
     header_with ''sec-websocket-version'' (\<lambda>v. header_value_eq_ignore_ascii_case v (as_bytes ''13'')) [h])"
  "(uh_key (note_header h u) \<noteq> None) = (uh_key u \<noteq> None \<or> header_with ''sec-websocket-key'' (\<lambda>v. key_of_value v \<noteq> None) [h])"
  using header_names_differ [of "as_bytes (fst h)"]
  by (auto simp: note_header_def header_with_def Let_def key_of_value_def case_prod_unfold split: option.split)

lemma header_with_Cons: "header_with name ok (h # hs) = (header_with name ok [h] \<or> header_with name ok hs)"
  by (simp add: header_with_def)

lemma fold_note_header:
  "uh_upgrade (fold note_header hs u) = (uh_upgrade u \<or>
     header_with ''upgrade'' (\<lambda>v. header_value_eq_ignore_ascii_case v (as_bytes ''websocket'')) hs) \<and>
   uh_connection (fold note_header hs u) = (uh_connection u \<or> header_with ''connection'' connection_contains_upgrade hs) \<and>
   uh_version (fold note_header hs u) = (uh_version u \<or>
     header_with ''sec-websocket-version'' (\<lambda>v. header_value_eq_ignore_ascii_case v (as_bytes ''13'')) hs) \<and>
   (uh_key (fold note_header hs u) \<noteq> None) = (uh_key u \<noteq> None \<or> header_with ''sec-websocket-key'' (\<lambda>v. key_of_value v \<noteq> None) hs)"
proof (induction hs arbitrary: u)
  case (Cons h hs)
  show ?case
    using Cons.IH [of "note_header h u"]
    by (simp only: fold_Cons comp_apply header_with_Cons [of _ _ h hs] note_header_fields) blast
qed (simp add: header_with_def)

lemma fold_note_key:
  "uh_key (fold note_header hs u) = Some key \<Longrightarrow> uh_key u \<noteq> Some key \<Longrightarrow>
     header_with ''sec-websocket-key'' (\<lambda>v. key_of_value v = Some key) hs"
proof (induction hs arbitrary: u)
  case (Cons h hs)
  show ?case
  proof (cases "uh_key (note_header h u) = Some key")
    case True
    with Cons.prems(2) have "header_with ''sec-websocket-key'' (\<lambda>v. key_of_value v = Some key) [h]"
      by (auto simp: note_header_def header_with_def Let_def key_of_value_def case_prod_unfold
          split: if_splits option.splits)
    then show ?thesis by (simp add: header_with_Cons [of _ _ h hs])
  qed (use Cons in \<open>simp add: header_with_Cons [of _ _ h hs]\<close>)
qed simp



definition example_crates :: crates where
  "example_crates = \<lparr>hp_parse = (\<lambda>_ buf. Complete (length buf) \<lparr>rq_method = Some ''GET'', rq_path = Some ''/app/k'',
       rq_headers = [(''Sec-WebSocket-Key'', as_bytes '' dGhl ''), (''Host'', []), (''upgrade'', as_bytes ''WebSocket''),
         (''Connection'', as_bytes ''keep-alive, Upgrade''), (''Sec-WebSocket-Version'', as_bytes ''13'')]\<rparr>),
     sha1_digest = id, base64_encode = (\<lambda>_. [])\<rparr>"


end
