(* ===== verification/Worker_Session.thy ===== *)
theory Worker_Session
  imports Sessions Connection
begin

text \<open>
  One connection on its worker, from \<^verbatim>\<open>src/transport/worker.rs\<close>: the entry of the
  connection table, flushing with the poll registration, the reassembly of fragmented messages,
  the dispatch of a batch of frames and the drain of the connection's mailbox. What the socket
  and the poll registration will answer is a script of the entry; a flush without an answer
  left finds the socket blocked.
\<close>


section \<open>State\<close>

datatype action = Keep | CloseConn | Handoff "byte list"

datatype fragment = FragText "byte list" | FragBinary | FragOversize

text \<open>
  The answers to one flush: the socket's for a plain connection, the TLS library's for an
  encrypted one, and whether the poll registration succeeds.
\<close>

record flush_io =
  io_plain :: "io_result list"
  io_before :: "io_result list"
  io_batches :: "tls_replies list"
  io_after :: "io_result list"
  io_registered :: bool

definition blocked_io :: flush_io where
  "blocked_io = \<lparr>io_plain = [], io_before = [EWouldBlock], io_batches = [], io_after = [], io_registered = True\<rparr>"

text \<open>
  \<open>se_conn_count\<close> is the address of the application's counter. The receiving end of the mailbox is
  the queue at \<open>cx_self_tx\<close>; \<open>se_subs\<close> is a hash set kept as a list.
\<close>

record session =
  se_ctx :: connection_context
  se_codec :: codec
  se_conn_count :: nat
  se_subs :: "string list"
  se_cluster_admitted :: bool

record pending_establish =
  pe_key :: string
  pe_codec :: codec
  pe_notify :: mailbox_notify
  pe_mailbox_dropped :: "nat option"
  pe_gen :: u64

record entry =
  en_conn :: conn
  en_inbuf :: "byte list"
  en_token :: nat
  en_session :: "session option"
  en_fragment :: "fragment option"
  en_pending_establish :: "pending_establish option"
  en_frames :: token_bucket
  en_tls :: bool
  en_io :: "flush_io list"
  en_wire :: "byte list"

record drain_result =
  dr_action :: action
  dr_wrote :: bool
  dr_subs_changed :: bool

text \<open>The frame bytes held for reassembly.\<close>

fun fragment_bytes :: "fragment option \<Rightarrow> nat" where
  "fragment_bytes (Some (FragText buf)) = length buf"
| "fragment_bytes _ = 0"

definition set_fragment :: "fragment option \<Rightarrow> entry \<Rightarrow> entry" where
  "set_fragment fragment e =
     e\<lparr>en_conn := set_reassembly_bytes (fragment_bytes fragment) (en_conn e), en_fragment := fragment\<rparr>"

definition take_fragment :: "entry \<Rightarrow> fragment option \<times> entry" where
  "take_fragment e = (en_fragment e, e\<lparr>en_conn := set_reassembly_bytes 0 (en_conn e), en_fragment := None\<rparr>)"

definition codec_encode_into :: "serde_json \<Rightarrow> codec \<Rightarrow> server_event \<Rightarrow> string \<Rightarrow> string" where
  "codec_encode_into sj c event out = (case c of V7Codec \<Rightarrow> frames_encode_into sj event out)"

definition codec_decode :: "serde_json \<Rightarrow> codec \<Rightarrow> string \<Rightarrow> decode_error + client_command" where
  "codec_decode sj c text = (case c of V7Codec \<Rightarrow> decode sj text)"


section \<open>Flushing and closing\<close>

definition conn_flush :: "bool \<Rightarrow> flush_io \<Rightarrow> u64 \<Rightarrow> conn \<Rightarrow> write_status \<times> byte list \<times> conn" where
  "conn_flush tls io now c =
     (let (st, wire, c') = (if tls then flush_tls now (io_before io) (io_batches io) (io_after io) c
                            else flush_plain now (io_plain io) c)
      in (case st of Some s \<Rightarrow> s | None \<Rightarrow> WouldBlock, wire, c'))"

definition next_io :: "entry \<Rightarrow> flush_io" where
  "next_io e = (case en_io e of [] \<Rightarrow> blocked_io | io # _ \<Rightarrow> io)"

definition flush_and_arm :: "u64 \<Rightarrow> entry \<Rightarrow> action \<times> entry" where
  "flush_and_arm now e =
     (let io = next_io e;
          (st, wire, c) = conn_flush (en_tls e) io now (en_conn e);
          e1 = e\<lparr>en_conn := c, en_io := tl (en_io e), en_wire := en_wire e @ wire\<rparr>
      in case st of
           Drained \<Rightarrow>
             if io_registered io then (Keep, e1\<lparr>en_conn := set_writable_armed False c\<rparr>) else (CloseConn, e1)
         | WouldBlock \<Rightarrow>
             if io_registered io then (Keep, e1\<lparr>en_conn := set_writable_armed True c\<rparr>) else (CloseConn, e1)
         | ClosedStatus \<Rightarrow> (CloseConn, e1))"

definition entry_queue :: "byte list \<Rightarrow> u64 \<Rightarrow> entry \<Rightarrow> entry" where
  "entry_queue frame now e = e\<lparr>en_conn := snd (conn_queue frame now (en_conn e))\<rparr>"

definition close_frame :: "nat \<Rightarrow> string \<Rightarrow> byte list" where
  "close_frame code reason = encode [] True OpClose (to_be 2 code @ as_bytes reason)"

definition queue_close_frame :: "nat \<Rightarrow> string \<Rightarrow> u64 \<Rightarrow> entry \<Rightarrow> entry" where
  "queue_close_frame code reason now e = entry_queue (close_frame code reason) now e"

definition close_fragment_violation :: "u64 \<Rightarrow> string \<Rightarrow> entry \<Rightarrow> action \<times> entry" where
  "close_fragment_violation now reason e =
     (CloseConn, snd (flush_and_arm now (queue_close_frame 1002 reason now (set_fragment None e))))"

definition close_invalid_utf8 :: "u64 \<Rightarrow> entry \<Rightarrow> action \<times> entry" where
  "close_invalid_utf8 now e =
     (CloseConn, snd (flush_and_arm now
        (queue_close_frame 1007 ''invalid UTF-8 in a text message'' now (set_fragment None e))))"

definition close_frame_flood :: "u64 \<Rightarrow> entry \<Rightarrow> action \<times> entry" where
  "close_frame_flood now e =
     (CloseConn, snd (flush_and_arm now
        (queue_close_frame 4100 ''Inbound frame rate limit exceeded'' now (set_fragment None e))))"

definition echo_close_code :: "byte list \<Rightarrow> nat" where
  "echo_close_code payload =
     (if 2 \<le> length payload
      then (let code = from_be (take 2 payload)
            in if 1000 \<le> code \<and> code \<le> 4999 \<and> code \<notin> {1005, 1006, 1015} then code else 1000)
      else 1000)"

definition close_handshake_reply :: "u64 \<Rightarrow> byte list \<Rightarrow> entry \<Rightarrow> action \<times> entry" where
  "close_handshake_reply now payload e =
     (CloseConn, snd (flush_and_arm now (queue_close_frame (echo_close_code payload) '''' now e)))"

text \<open>The ping of an idle connection and the closes that the worker starts itself.\<close>

definition text_frame :: "string \<Rightarrow> byte list" where
  "text_frame text = encode_text [] (as_bytes text)"

definition error_json :: "serde_json \<Rightarrow> pusher_error \<Rightarrow> string" where
  "error_json sj error =
     to_string sj (Object [(''event'', String ''pusher:error''),
       (''data'', Object [(''code'', json_nat (err_code error)), (''message'', String (err_message error))])])"


definition entry_ping :: "serde_json \<Rightarrow> u64 \<Rightarrow> entry \<Rightarrow> (action \<times> entry) option" where
  "entry_ping sj now e =
     (case en_session e of
        None \<Rightarrow> None
      | Some session \<Rightarrow>
        if c_state (en_conn e) \<noteq> conn_state.Open then None
        else Some (flush_and_arm now (entry_queue (text_frame (codec_encode_into sj (se_codec session) Ping [])) now e)))"

definition error_text :: "serde_json \<Rightarrow> codec option \<Rightarrow> pusher_error \<Rightarrow> string" where
  "error_text sj c error =
     (case c of Some c \<Rightarrow> codec_encode_into sj c (ErrorEvent error) [] | None \<Rightarrow> error_json sj error)"

definition entry_error :: "serde_json \<Rightarrow> pusher_error \<Rightarrow> u64 \<Rightarrow> entry \<Rightarrow> entry" where
  "entry_error sj error now e =
     entry_queue (text_frame (error_text sj (map_option se_codec (en_session e)) error)) now e"

definition entry_close_reply :: "nat \<Rightarrow> string \<Rightarrow> u64 \<Rightarrow> entry \<Rightarrow> action \<times> entry" where
  "entry_close_reply code reason now e = flush_and_arm now (queue_close_frame code reason now e)"


section \<open>Draining the mailbox\<close>

text \<open>
  The loop over the queued events: it stops behind a close and returns what is left in the
  queue. A subscription error takes the channel out of the connection's context.
\<close>

definition forget_channel :: "string \<Rightarrow> session \<Rightarrow> session" where
  "forget_channel channel s =
     s\<lparr>se_ctx := (se_ctx s)\<lparr>cx_subscribed := hs_remove channel (cx_subscribed (se_ctx s)),
        cx_presence_membership := AList.delete channel (cx_presence_membership (se_ctx s))\<rparr>\<rparr>"

record drain_state =
  ds_session :: session
  ds_entry :: entry
  ds_close_after :: bool
  ds_wrote :: bool
  ds_subs_changed :: bool

definition drain_event :: "serde_json \<Rightarrow> u64 \<Rightarrow> server_event \<Rightarrow> drain_state \<Rightarrow> drain_state" where
  "drain_event sj now ev d =
     (let d1 = (case ev of
            SubscriptionError channel _ _ _ \<Rightarrow>
              d\<lparr>ds_subs_changed := (ds_subs_changed d \<or> channel \<in> set (cx_subscribed (se_ctx (ds_session d)))),
                ds_session := forget_channel channel (ds_session d)\<rparr>
          | _ \<Rightarrow> d);
          text = codec_encode_into sj (se_codec (ds_session d1)) ev []
      in d1\<lparr>ds_entry := entry_queue (text_frame text) now (ds_entry d1), ds_wrote := True\<rparr>)"

fun drain_loop :: "serde_json \<Rightarrow> u64 \<Rightarrow> server_event list \<Rightarrow> drain_state \<Rightarrow> server_event list \<times> drain_state" where
  "drain_loop sj now [] d = ([], d)"
| "drain_loop sj now (ev # evs) d =
     (case ev of
        Close code reason \<Rightarrow>
          (evs, d\<lparr>ds_entry := entry_queue (close_frame code reason) now (ds_entry d),
                  ds_wrote := True, ds_close_after := True\<rparr>)
      | _ \<Rightarrow> drain_loop sj now evs (drain_event sj now ev d))"

definition mailbox_of :: "session \<Rightarrow> 's node \<Rightarrow> server_event list" where
  "mailbox_of s n = queue (chans (nd_mail n) (cx_self_tx (se_ctx s)))"

definition set_mailbox :: "session \<Rightarrow> server_event list \<Rightarrow> 's node \<Rightarrow> 's node" where
  "set_mailbox s evs n =
     (let w = nd_mail n; a = cx_self_tx (se_ctx s)
      in n\<lparr>nd_mail := w\<lparr>chans := (chans w)(a := (chans w a)\<lparr>queue := evs\<rparr>)\<rparr>\<rparr>)"

definition drain_session :: "serde_json \<Rightarrow> u64 \<Rightarrow> entry \<times> 's node \<Rightarrow> drain_result \<times> entry \<times> 's node" where
  "drain_session sj now en =
     (case en of (e, n) \<Rightarrow>
       (case en_session e of
          None \<Rightarrow> (\<lparr>dr_action = Keep, dr_wrote = False, dr_subs_changed = False\<rparr>, e, n)
        | Some session \<Rightarrow>
          (let (rest, d) = drain_loop sj now (mailbox_of session n)
                 \<lparr>ds_session = session, ds_entry = e, ds_close_after = False, ds_wrote = False, ds_subs_changed = False\<rparr>;
               n1 = set_mailbox session rest n;
               e1 = (ds_entry d)\<lparr>en_session := Some (ds_session d)\<rparr>;
               (act, e2) = (if ds_wrote d then flush_and_arm now e1 else (Keep, e1))
           in (\<lparr>dr_action = (if act = CloseConn \<or> ds_close_after d then CloseConn else Keep),
                dr_wrote = ds_wrote d, dr_subs_changed = ds_subs_changed d\<rparr>, e2, n1))))"


section \<open>Dispatching frames\<close>

definition open_text_fragment :: "byte list \<Rightarrow> nat \<Rightarrow> fragment" where
  "open_text_fragment payload max_message_bytes =
     (if max_message_bytes < length payload then FragOversize else FragText payload)"

definition dispatch_command ::
  "serde_json \<Rightarrow> crypto \<Rightarrow> 's adapter \<Rightarrow> client_command \<Rightarrow> session \<times> 's node \<Rightarrow> session \<times> 's node" where
  "dispatch_command sj cr ad cmd sn =
     (case sn of (s, n) \<Rightarrow> (let (cx, n') = dispatch sj cr ad cmd (se_ctx s, n) in (s\<lparr>se_ctx := cx\<rparr>, n')))"

definition dispatch_text_message ::
  "serde_json \<Rightarrow> crypto \<Rightarrow> 's adapter \<Rightarrow> u64 \<Rightarrow> byte list \<Rightarrow> entry \<times> 's node \<Rightarrow> action \<times> entry \<times> 's node" where
  "dispatch_text_message sj cr ad now payload en =
     (case en of (e, n) \<Rightarrow>
       (case from_utf8 payload of
          None \<Rightarrow> (let (act, e') = close_invalid_utf8 now e in (act, e', n))
        | Some text \<Rightarrow>
          (case en_session e of
             None \<Rightarrow> (CloseConn, e, n)
           | Some session \<Rightarrow>
             (case codec_decode sj (se_codec session) text of
                Inr cmd \<Rightarrow>
                  (let (s', n') = dispatch_command sj cr ad cmd (session, n)
                   in (Keep, e\<lparr>en_session := Some s'\<rparr>, n'))
              | Inl _ \<Rightarrow> (Keep, e, n)))))"

definition interleaved :: string where
  "interleaved = ''data frame interleaved with a fragmented message''"

definition stray :: string where
  "stray = ''continuation frame without a fragmented message''"

text \<open>One frame; the action \<open>CloseConn\<close> leaves the loop over the batch.\<close>

definition continuation_frame ::
  "serde_json \<Rightarrow> crypto \<Rightarrow> 's adapter \<Rightarrow> nat \<Rightarrow> u64 \<Rightarrow> frame \<Rightarrow> entry \<times> 's node \<Rightarrow> action \<times> entry \<times> 's node" where
  "continuation_frame sj cr ad max_message_bytes now f en =
     (case en of (e, n) \<Rightarrow>
       (case take_fragment e of
          (None, e1) \<Rightarrow> (let (act, e') = close_fragment_violation now stray e1 in (act, e', n))
        | (Some (FragText buf), e1) \<Rightarrow>
            if max_message_bytes < length buf + length (fr_payload f)
            then (Keep, if fr_fin f then e1 else set_fragment (Some FragOversize) e1, n)
            else if fr_fin f then dispatch_text_message sj cr ad now (buf @ fr_payload f) (e1, n)
            else (Keep, set_fragment (Some (FragText (buf @ fr_payload f))) e1, n)
        | (Some ignored, e1) \<Rightarrow> (Keep, if fr_fin f then e1 else set_fragment (Some ignored) e1, n)))"

definition frame_step ::
  "serde_json \<Rightarrow> crypto \<Rightarrow> 's adapter \<Rightarrow> nat \<Rightarrow> u64 \<Rightarrow> frame \<Rightarrow> entry \<times> 's node \<Rightarrow> action \<times> entry \<times> 's node" where
  "frame_step sj cr ad max_message_bytes now f en =
     (case en of (e, n) \<Rightarrow>
       (case fr_opcode f of
          OpText \<Rightarrow>
            if en_fragment e \<noteq> None
            then (let (act, e') = close_fragment_violation now interleaved e in (act, e', n))
            else if \<not> fr_fin f
            then (Keep, set_fragment (Some (open_text_fragment (fr_payload f) max_message_bytes)) e, n)
            else dispatch_text_message sj cr ad now (fr_payload f) (e, n)
        | OpBinary \<Rightarrow>
            (case en_fragment e of
               Some FragBinary \<Rightarrow> (Keep, e, n)
             | Some _ \<Rightarrow> (let (act, e') = close_fragment_violation now interleaved e in (act, e', n))
             | None \<Rightarrow> (Keep, if fr_fin f then e else set_fragment (Some FragBinary) e, n))
        | OpContinuation \<Rightarrow> continuation_frame sj cr ad max_message_bytes now f (e, n)
        | OpPing \<Rightarrow>
            (let (act, e') = flush_and_arm now (entry_queue (encode [] True OpPong (fr_payload f)) now e)
             in (act, e', n))
        | OpPong \<Rightarrow> (Keep, e, n)
        | OpClose \<Rightarrow> (let (act, e') = close_handshake_reply now (fr_payload f) e in (act, e', n))))"

fun dispatch_frames ::
  "serde_json \<Rightarrow> crypto \<Rightarrow> 's adapter \<Rightarrow> nat \<Rightarrow> u64 \<Rightarrow> frame list \<Rightarrow> entry \<times> 's node \<Rightarrow> action \<times> entry \<times> 's node" where
  "dispatch_frames sj cr ad max_message_bytes now [] en =
     (let (r, e, n) = drain_session sj now en in (dr_action r, e, n))"
| "dispatch_frames sj cr ad max_message_bytes now (f # fs) en =
     (let (act, en') = frame_step sj cr ad max_message_bytes now f en
      in if act = CloseConn then (CloseConn, en') else dispatch_frames sj cr ad max_message_bytes now fs en')"

text \<open>The echo mode of a worker.\<close>

fun echo_loop :: "u64 \<Rightarrow> frame list \<Rightarrow> bool \<Rightarrow> entry \<Rightarrow> action \<times> bool \<times> entry" where
  "echo_loop now [] wrote e = (Keep, wrote, e)"
| "echo_loop now (f # fs) wrote e =
     (case fr_opcode f of
        OpPing \<Rightarrow> echo_loop now fs True (entry_queue (encode [] True OpPong (fr_payload f)) now e)
      | OpPong \<Rightarrow> echo_loop now fs wrote e
      | OpClose \<Rightarrow> (CloseConn, wrote, e)
      | _ \<Rightarrow> echo_loop now fs True (entry_queue (encode [] (fr_fin f) (fr_opcode f) (fr_payload f)) now e))"

definition echo_frames :: "u64 \<Rightarrow> frame list \<Rightarrow> entry \<Rightarrow> action \<times> entry" where
  "echo_frames now frames e =
     (let (act, wrote, e') = echo_loop now frames False e
      in if act = CloseConn then (CloseConn, e') else if wrote then flush_and_arm now e' else (Keep, e'))"


section \<open>A readable connection\<close>

datatype worker_mode = Echo | Dispatch

record worker_config =
  cf_max_payload :: nat
  cf_max_message_bytes :: nat
  cf_max_head_bytes :: nat
  cf_handshake_timeout_ms :: u64
  cf_high_water :: nat
  cf_mode :: worker_mode
  cf_rest_handoff :: bool
  cf_per_worker_budget :: u64
  cf_mailbox_dropped_slot :: "nat option"
  cf_max_frames_per_second :: nat
  cf_max_frames_burst :: nat
  cf_max_accepts_per_second :: nat
  cf_codel :: codel_params
  cf_budget_factor :: "u32 option"
  cf_shutdown_grace_ms :: nat

text \<open>
  \<open>Connection::read_frames\<close> in place: the socket's result and the buffer it has filled give the
  frames or the error, and what stays in the buffer.
\<close>

function unparsed :: "byte list \<Rightarrow> nat \<Rightarrow> byte list" where
  "unparsed buf max_payload =
     (case parse buf max_payload of Inr (_, rest) \<Rightarrow> unparsed rest max_payload | Inl _ \<Rightarrow> buf)"
  by pat_completeness auto
termination by (relation "measure (length \<circ> fst)") (use parse_consumes in auto)

declare unparsed.simps [simp del]

definition read_into :: "(conn_error + bool) \<times> byte list \<Rightarrow> nat \<Rightarrow> (conn_error + frame list) \<times> byte list" where
  "read_into pulled max_payload =
     (case pulled of
        (Inl err, buf) \<Rightarrow> (Inl err, buf)
      | (Inr hit_eof, buf) \<Rightarrow>
        (case drain_frames buf max_payload of
           Inl err \<Rightarrow> (Inl err, unparsed buf max_payload)
         | Inr (frames, rest) \<Rightarrow> (if hit_eof \<and> frames = [] then Inl ConnClosed else Inr frames, rest)))"

definition frame_budget :: "u64 \<Rightarrow> nat \<Rightarrow> token_bucket \<Rightarrow> bool \<times> token_bucket" where
  "frame_budget now cnt bucket = (if 0 < cnt then take_at_ns now cnt bucket else (True, bucket))"

text \<open>The last component counts the batches refused by the frame rate limit.\<close>

definition handle_frames ::
  "serde_json \<Rightarrow> crypto \<Rightarrow> 's adapter \<Rightarrow> worker_config \<Rightarrow> u64 \<Rightarrow> (conn_error + bool) \<times> byte list
     \<Rightarrow> entry \<times> 's node \<times> u64 \<Rightarrow> action \<times> entry \<times> 's node \<times> u64" where
  "handle_frames sj cr ad cfg now pulled en =
     (case en of (e, n, limited) \<Rightarrow>
       (let (result, inbuf) = read_into pulled (cf_max_payload cfg);
            e1 = e\<lparr>en_inbuf := inbuf, en_conn := set_frame_buffer_bytes (length inbuf) (en_conn e)\<rparr>
        in case result of
             Inl _ \<Rightarrow> (CloseConn, e1, n, limited)
           | Inr frames \<Rightarrow>
             (let cnt = length frames mod 2 ^ 32;
                  (ok, bucket) = frame_budget now cnt (en_frames e1);
                  e2 = e1\<lparr>en_frames := bucket\<rparr>
              in if \<not> ok then (let (act, e3) = close_frame_flood now e2 in (act, e3, n, limited + 1))
                 else case cf_mode cfg of
                        Echo \<Rightarrow> (let (act, e3) = echo_frames now frames e2 in (act, e3, n, limited))
                      | Dispatch \<Rightarrow>
                        (let (act, e3, n') = dispatch_frames sj cr ad (cf_max_message_bytes cfg) now frames (e2, n)
                         in (act, e3, n', limited)))))"

lemma read_into_read_frames:
  "read_frames (Some (Inr (eof, buf))) max_payload =
     Some (case read_into (Inr eof, buf) max_payload of (Inl err, _) \<Rightarrow> Inl err | (Inr fs, rest) \<Rightarrow> Inr (fs, rest))"
  by (auto simp: read_frames_def read_into_def split: sum.splits)


section \<open>The books of an entry\<close>

text \<open>
  What the worker's totals hold for a connection: what it accounts for less the change it has
  not folded yet. Only folding moves it; queueing, flushing, reassembly and reading do not.
\<close>

definition on_record :: "conn \<Rightarrow> int \<times> int" where
  "on_record c = (int (accounted_bytes c) - c_inflight_delta c, int (outbound_bytes c) - c_outbound_delta c)"

definition conn_ok :: "conn \<Rightarrow> bool" where
  "conn_ok c \<longleftrightarrow> c_out_bytes c = sum_len (c_out c) \<and> cursor_ok c"

lemma conn_ok_books:
  "conn_ok c \<longleftrightarrow> books 0 (fst (on_record c) - int (c_tls_unflushed c)) (snd (on_record c) - int (c_tls_unflushed c)) c \<and> cursor_ok c"
  by (auto simp: conn_ok_def books_def on_record_def accounted_bytes_def outbound_bytes_def)

text \<open>\<open>moves c c'\<close>: a step of the connection that keeps its books and its inbound holdings.\<close>

definition moves :: "conn \<Rightarrow> conn \<Rightarrow> bool" where
  "moves c c' \<longleftrightarrow> (conn_ok c \<longrightarrow> conn_ok c' \<and> on_record c' = on_record c \<and> kept c c')"

lemma moves_refl [simp]: "moves c c"
  by (simp add: moves_def)

lemma moves_trans [trans]: "moves a b \<Longrightarrow> moves b c \<Longrightarrow> moves a c"
  using kept_trans by (auto simp: moves_def)

lemma moves_armed [simp]: "moves c (set_writable_armed b c)"
  by (simp add: moves_def conn_ok_def on_record_def kept_def set_writable_armed_def cursor_ok_def accounted_bytes_def
      outbound_bytes_def)

lemma books_on_record:
  assumes "books 0 g og c" and "cursor_ok c"
  shows "conn_ok c" and "on_record c = (g + int (c_tls_unflushed c), og + int (c_tls_unflushed c))"
  using assms by (auto simp: conn_ok_def books_def on_record_def accounted_bytes_def outbound_bytes_def)

lemma moves_queue:
  "moves c (snd (conn_queue f now c)) \<and> (conn_ok c \<longrightarrow> c_tls_unflushed (snd (conn_queue f now c)) = c_tls_unflushed c)"
proof -
  obtain k c' where q: "conn_queue f now c = (k, c')" by fastforce
  show ?thesis
  proof (cases "conn_ok c")
    case True
    then have b: "books 0 (fst (on_record c) - int (c_tls_unflushed c)) (snd (on_record c) - int (c_tls_unflushed c)) c"
        and k: "cursor_ok c"
      by (simp_all add: conn_ok_books)
    from queue_correct [OF q b k refl] books_on_record show ?thesis by (fastforce simp: moves_def q)
  qed (simp add: moves_def)
qed

lemma tls_drained:
  "flush_tls now before script after c = (Some Drained, wire, c') \<Longrightarrow> c_tls_unflushed c' = 0"
  by (auto simp: flush_tls_def flush_tls_phases_def drain_ciphertext_def Let_def
      split: prod.splits sum.splits bool.splits option.splits if_splits)

lemma moves_flush:
  assumes f: "conn_flush tls io now c = (st, wire, c')" and "conn_ok c"
  shows "moves c c'"
    and "st = Drained \<Longrightarrow> \<not> tls \<longrightarrow> c_tls_unflushed c = 0 \<Longrightarrow> c_out c' = [] \<and> c_tls_unflushed c' = 0"
    and "\<not> tls \<Longrightarrow> c_tls_unflushed c' = c_tls_unflushed c"
proof -
  have b: "books 0 (fst (on_record c) - int (c_tls_unflushed c)) (snd (on_record c) - int (c_tls_unflushed c)) c"
      and k: "cursor_ok c"
    using assms(2) by (simp_all add: conn_ok_books)
  have "moves c c' \<and> (st = Drained \<longrightarrow> (\<not> tls \<longrightarrow> c_tls_unflushed c = 0) \<longrightarrow> c_out c' = [] \<and> c_tls_unflushed c' = 0) \<and>
      (\<not> tls \<longrightarrow> c_tls_unflushed c' = c_tls_unflushed c)"
  proof (cases tls)
    case True
    with f obtain so where fl: "flush_tls now (io_before io) (io_batches io) (io_after io) c = (so, wire, c')"
        and st: "st = Drained \<longrightarrow> so = Some Drained"
      by (auto simp: conn_flush_def Let_def split: prod.splits option.splits)
    note r = flush_tls_correct [OF b k fl refl refl]
    from r have c: "conn_ok c'" "on_record c' = on_record c" using books_on_record by (fastforce simp: prod_eq_iff)+
    from r st tls_drained fl have "st = Drained \<longrightarrow> c_out c' = [] \<and> c_tls_unflushed c' = 0" by blast
    with r c True show ?thesis by (simp add: moves_def)
  next
    case False
    with f obtain so where fl: "flush_plain now (io_plain io) c = (so, wire, c')" and st: "st = Drained \<longrightarrow> so = Some Drained"
      by (auto simp: conn_flush_def Let_def split: prod.splits option.splits)
    note r = flush_plain_correct [OF b k fl]
    from r have c: "conn_ok c'" "on_record c' = on_record c" using books_on_record by (fastforce simp: prod_eq_iff)+
    with r st False show ?thesis by (simp add: moves_def)
  qed
  then show "moves c c'"
    and "st = Drained \<Longrightarrow> \<not> tls \<longrightarrow> c_tls_unflushed c = 0 \<Longrightarrow> c_out c' = [] \<and> c_tls_unflushed c' = 0"
    and "\<not> tls \<Longrightarrow> c_tls_unflushed c' = c_tls_unflushed c"
    by simp_all
qed


section \<open>Invariant of an entry\<close>

text \<open>
  The connection's books are in order; a plain connection holds no ciphertext; the bytes held
  for reassembly are billed; owed bytes come with writable interest.
\<close>

definition link_ok :: "entry \<Rightarrow> bool" where
  "link_ok e \<longleftrightarrow> conn_ok (en_conn e) \<and> (\<not> en_tls e \<longrightarrow> c_tls_unflushed (en_conn e) = 0)"

definition billed :: "entry \<Rightarrow> bool" where
  "billed e \<longleftrightarrow> c_reassembly_bytes (en_conn e) = fragment_bytes (en_fragment e)"

definition armed_ok :: "entry \<Rightarrow> bool" where
  "armed_ok e \<longleftrightarrow> (0 < outbound_bytes (en_conn e) \<longrightarrow> c_writable_armed (en_conn e))"

text \<open>What every step of an entry keeps: the books, and the fields it does not own.\<close>

definition steps :: "entry \<Rightarrow> entry \<Rightarrow> bool" where
  "steps e e' \<longleftrightarrow> (link_ok e \<longrightarrow> link_ok e' \<and> on_record (en_conn e') = on_record (en_conn e) \<and>
     c_state (en_conn e') = c_state (en_conn e) \<and> c_high_water (en_conn e') = c_high_water (en_conn e) \<and>
     c_frame_buffer_bytes (en_conn e') = c_frame_buffer_bytes (en_conn e)) \<and>
     en_token e' = en_token e \<and> en_tls e' = en_tls e \<and> en_inbuf e' = en_inbuf e \<and>
     en_pending_establish e' = en_pending_establish e"

lemma steps_refl [simp]: "steps e e"
  by (simp add: steps_def)

lemma steps_trans [trans]: "steps a b \<Longrightarrow> steps b c \<Longrightarrow> steps a c"
  unfolding steps_def by metis

lemma steps_queue: "steps e (entry_queue f now e)"
  using moves_queue [of "en_conn e" f now] by (auto simp: steps_def entry_queue_def link_ok_def moves_def kept_def)

lemma queue_fields [simp]:
  "en_session (entry_queue f now e) = en_session e" "en_fragment (entry_queue f now e) = en_fragment e"
  "en_frames (entry_queue f now e) = en_frames e"
  by (simp_all add: entry_queue_def)

lemma steps_set_fragment: "steps e (set_fragment fr e)"
  by (auto simp: steps_def set_fragment_def link_ok_def conn_ok_def on_record_def set_reassembly_bytes_def cursor_ok_def
      accounted_bytes_def outbound_bytes_def)

lemma steps_take_fragment: "take_fragment e = (fr, e') \<Longrightarrow> steps e e'"
  by (auto simp: steps_def take_fragment_def link_ok_def conn_ok_def on_record_def set_reassembly_bytes_def cursor_ok_def
      accounted_bytes_def outbound_bytes_def)

lemma flush_steps:
  assumes "flush_and_arm now e = (act, e')"
  shows "steps e e'" and "en_session e' = en_session e" and "en_fragment e' = en_fragment e"
    and "en_frames e' = en_frames e" and "act = Keep \<or> act = CloseConn"
    and "link_ok e \<Longrightarrow> act = Keep \<Longrightarrow> armed_ok e'" and "link_ok e \<Longrightarrow> billed e \<Longrightarrow> billed e'"
proof -
  obtain st wire c where f: "conn_flush (en_tls e) (next_io e) now (en_conn e) = (st, wire, c)" by (metis prod_cases3)
  note m = moves_flush [OF f]
  have conn: "en_conn e' = c \<or> (\<exists>b. en_conn e' = set_writable_armed b c)"
    and fields: "en_session e' = en_session e" "en_fragment e' = en_fragment e" "en_frames e' = en_frames e"
      "en_token e' = en_token e" "en_tls e' = en_tls e" "en_inbuf e' = en_inbuf e"
      "en_pending_establish e' = en_pending_establish e"
    using assms f by (cases st; auto simp: flush_and_arm_def Let_def split: if_splits)+
  have mv: "moves (en_conn e) (en_conn e')" and un: "c_tls_unflushed (en_conn e') = c_tls_unflushed c" if "conn_ok (en_conn e)"
    using conn m(1) [OF that] moves_trans moves_armed by (auto simp: set_writable_armed_def)
  show "steps e e'"
    using mv un m(3) fields by (auto simp: steps_def link_ok_def moves_def kept_def)
  show "en_session e' = en_session e" "en_fragment e' = en_fragment e" "en_frames e' = en_frames e" by (fact fields)+
  show "act = Keep \<or> act = CloseConn"
    using assms f by (cases st) (auto simp: flush_and_arm_def Let_def split: if_splits)
  show "armed_ok e'" if "link_ok e" "act = Keep"
    using assms f that m(1,2) by (cases st)
      (auto simp: flush_and_arm_def Let_def armed_ok_def set_writable_armed_def outbound_bytes_def link_ok_def moves_def
        conn_ok_def split: if_splits)
  show "billed e'" if "link_ok e" "billed e"
    using mv that fields by (auto simp: billed_def link_ok_def moves_def kept_def)
qed


text \<open>An entry between two events, with the cap on a reassembled message.\<close>

definition entry_ok :: "nat \<Rightarrow> entry \<Rightarrow> bool" where
  "entry_ok m e \<longleftrightarrow> link_ok e \<and> billed e \<and> armed_ok e \<and> fragment_bytes (en_fragment e) \<le> m"

text \<open>The outcome of one operation: it keeps the books, and leaves a good entry unless it closes.\<close>

definition outcome_ok :: "nat \<Rightarrow> entry \<Rightarrow> action \<Rightarrow> entry \<Rightarrow> bool" where
  "outcome_ok m e act e' \<longleftrightarrow> steps e e' \<and> (act = Keep \<or> act = CloseConn) \<and> (act = Keep \<longrightarrow> entry_ok m e \<longrightarrow> entry_ok m e')"

lemma outcome_keep [simp]: "outcome_ok m e Keep e"
  by (simp add: outcome_ok_def)

lemma outcome_trans:
  "outcome_ok m e Keep e' \<Longrightarrow> outcome_ok m e' act e'' \<Longrightarrow> outcome_ok m e act e''"
  using steps_trans by (auto simp: outcome_ok_def)

lemma outcome_close: "steps e e' \<Longrightarrow> outcome_ok m e CloseConn e'"
  by (simp add: outcome_ok_def)

lemma outcome_set_fragment:
  "fragment_bytes fr \<le> m \<Longrightarrow> outcome_ok m e Keep (set_fragment fr e)"
  using steps_set_fragment [of e fr]
  by (auto simp: outcome_ok_def entry_ok_def steps_def billed_def armed_ok_def set_fragment_def set_reassembly_bytes_def
      outbound_bytes_def)

lemma outcome_take_fragment:
  "take_fragment e = (fr, e') \<Longrightarrow> outcome_ok m e Keep e' \<and> fr = en_fragment e \<and> en_session e' = en_session e"
  using outcome_set_fragment [of None m e] by (auto simp: take_fragment_def set_fragment_def)

lemma outcome_flush:
  assumes "flush_and_arm now e = (act, e')" and "steps e0 e" and "en_fragment e = en_fragment e0"
    and "c_reassembly_bytes (en_conn e) = c_reassembly_bytes (en_conn e0) \<or> \<not> link_ok e0"
  shows "outcome_ok m e0 act e'"
  using flush_steps [OF assms(1)] assms(2-4) steps_trans [OF assms(2)]
  by (auto simp: outcome_ok_def entry_ok_def steps_def billed_def)

lemma queue_reassembly:
  "link_ok e \<Longrightarrow> c_reassembly_bytes (en_conn (entry_queue f now e)) = c_reassembly_bytes (en_conn e)"
  using moves_queue [of "en_conn e" f now] by (simp add: entry_queue_def link_ok_def moves_def kept_def)

lemma outcome_send:
  "flush_and_arm now (entry_queue f now e) = (act, e') \<Longrightarrow> outcome_ok m e act e'"
  by (erule outcome_flush) (auto intro: steps_queue queue_reassembly)

lemma steps_flush_snd: "steps e (snd (flush_and_arm now e))"
  by (metis flush_steps(1) surjective_pairing)

lemmas steps_close = steps_trans [OF steps_trans [OF steps_set_fragment steps_queue] steps_flush_snd]

lemma outcome_closes:
  "close_fragment_violation now reason e = (act, e') \<Longrightarrow> outcome_ok m e act e' \<and> act = CloseConn"
  "close_invalid_utf8 now e = (act, e') \<Longrightarrow> outcome_ok m e act e' \<and> act = CloseConn"
  "close_frame_flood now e = (act, e') \<Longrightarrow> outcome_ok m e act e' \<and> act = CloseConn"
  "close_handshake_reply now payload e = (act, e') \<Longrightarrow> outcome_ok m e act e' \<and> act = CloseConn"
  by (auto simp: close_fragment_violation_def close_invalid_utf8_def close_frame_flood_def close_handshake_reply_def
      queue_close_frame_def intro: outcome_close steps_close steps_trans [OF steps_queue steps_flush_snd])

lemma outcome_session [simp]:
  "outcome_ok m e act (e'\<lparr>en_session := s\<rparr>) = outcome_ok m e act e'"
  by (auto simp: outcome_ok_def entry_ok_def steps_def billed_def armed_ok_def link_ok_def)

lemma outcome_text:
  "dispatch_text_message sj cr ad now payload (e, n) = (act, e', n') \<Longrightarrow> outcome_ok m e act e'"
  by (auto simp: dispatch_text_message_def Let_def outcome_closes(2) intro: outcome_close
      split: option.splits sum.splits prod.splits)

lemma outcome_continuation:
  assumes "continuation_frame sj cr ad m now f (e, n) = (act, e', n')"
  shows "outcome_ok m e act e'"
proof -
  obtain fr e1 where t: "take_fragment e = (fr, e1)" by fastforce
  from outcome_take_fragment [OF t] have k: "outcome_ok m e Keep e1" by blast
  show ?thesis
  proof (rule outcome_trans [OF k])
    show "outcome_ok m e1 act e'"
      using assms by (auto simp: continuation_frame_def t Let_def outcome_closes(1) outcome_text outcome_set_fragment
          split: option.splits fragment.splits if_splits prod.splits)
  qed
qed

lemma outcome_frame:
  assumes "frame_step sj cr ad m now f (e, n) = (act, e', n')"
  shows "outcome_ok m e act e'"
  using assms
  by (cases "fr_opcode f")
    (auto simp: frame_step_def Let_def outcome_closes outcome_text outcome_continuation open_text_fragment_def
      split: option.splits fragment.splits if_splits prod.splits intro: outcome_send outcome_set_fragment)


lemma drain_loop_event:
  "\<not> (\<exists>code reason. ev = Close code reason) \<Longrightarrow> drain_loop sj now (ev # evs) d = drain_loop sj now evs (drain_event sj now ev d)"
  by (cases ev) auto

lemma drain_event_entry:
  "\<exists>f. ds_entry (drain_event sj now ev d) = entry_queue f now (ds_entry d)" "ds_wrote (drain_event sj now ev d)"
  by (auto simp: drain_event_def Let_def split: server_event.split)

lemma drain_loop_steps:
  assumes "drain_loop sj now evs d = (rest, d')"
  shows "steps (ds_entry d) (ds_entry d') \<and> en_fragment (ds_entry d') = en_fragment (ds_entry d) \<and>
    (link_ok (ds_entry d) \<longrightarrow> c_reassembly_bytes (en_conn (ds_entry d')) = c_reassembly_bytes (en_conn (ds_entry d))) \<and>
    (\<not> ds_wrote d' \<longrightarrow> ds_entry d' = ds_entry d) \<and> (ds_wrote d \<longrightarrow> ds_wrote d')"
  using assms
proof (induction evs arbitrary: d)
  case (Cons ev evs)
  let ?q = "\<lambda>f. entry_queue f now (ds_entry d)"
  have q: "steps (ds_entry d) (?q f)" "link_ok (ds_entry d) \<longrightarrow> link_ok (?q f)" for f
    using steps_queue by (auto simp: steps_def)
  show ?case
  proof (cases "\<exists>code reason. ev = Close code reason")
    case True
    with Cons.prems q show ?thesis by (auto simp: queue_reassembly)
  next
    case False
    with Cons.prems obtain d1 f where d1: "ds_entry d1 = ?q f" "ds_wrote d1" and r: "drain_loop sj now evs d1 = (rest, d')"
      using drain_event_entry [where d = d and ev = ev] by (metis drain_loop_event)
    from Cons.IH [OF r] d1 q [of f] queue_reassembly show ?thesis
      by (auto intro: steps_trans)
  qed
qed simp

lemma outcome_drain:
  assumes "drain_session sj now (e, n) = (r, e', n')"
  shows "outcome_ok m e (dr_action r) e'"
proof (cases "en_session e")
  case (Some s)
  obtain rest d where l: "drain_loop sj now (mailbox_of s n)
      \<lparr>ds_session = s, ds_entry = e, ds_close_after = False, ds_wrote = False, ds_subs_changed = False\<rparr> = (rest, d)"
    by fastforce
  note k = drain_loop_steps [OF l, simplified]
  let ?e1 = "(ds_entry d)\<lparr>en_session := Some (ds_session d)\<rparr>"
  show ?thesis
  proof (cases "ds_wrote d")
    case True
    obtain act e2 where f: "flush_and_arm now ?e1 = (act, e2)" by fastforce
    have "steps e ?e1" using k by (simp add: steps_def link_ok_def)
    moreover from this have "outcome_ok m e act e2"
      using outcome_flush [OF f, of e] k by auto
    ultimately show ?thesis
      using assms Some l f True by (auto simp: drain_session_def Let_def outcome_ok_def split: if_splits)
  next
    case False
    then have e: "ds_entry d = e" using k by simp
    have "outcome_ok m e act e" if "act = Keep \<or> act = CloseConn" for act using that by (auto simp: outcome_ok_def)
    then show ?thesis using assms Some l False e by (auto simp: drain_session_def Let_def)
  qed
qed (use assms in \<open>auto simp: drain_session_def\<close>)

lemma outcome_frames:
  assumes "dispatch_frames sj cr ad m now fs (e, n) = (act, e', n')"
  shows "outcome_ok m e act e'"
  using assms
proof (induction fs arbitrary: e n)
  case (Cons f fs)
  obtain a e1 n1 where s: "frame_step sj cr ad m now f (e, n) = (a, e1, n1)" by (metis prod_cases3)
  from outcome_frame [OF s] have o: "outcome_ok m e a e1" .
  show ?case
  proof (cases "a = CloseConn")
    case False
    with o have "a = Keep" by (auto simp: outcome_ok_def)
    with Cons.prems s have "dispatch_frames sj cr ad m now fs (e1, n1) = (act, e', n')" by simp
    from Cons.IH [OF this] o \<open>a = Keep\<close> show ?thesis by (auto intro: outcome_trans)
  qed (use Cons.prems s o in auto)
qed (auto simp: Let_def split: prod.splits intro: outcome_drain)

lemma echo_loop_steps:
  assumes "echo_loop now fs w e = (act, w', e')"
  shows "steps e e' \<and> en_fragment e' = en_fragment e \<and> (act = Keep \<or> act = CloseConn) \<and> (w \<longrightarrow> w') \<and>
    (link_ok e \<longrightarrow> c_reassembly_bytes (en_conn e') = c_reassembly_bytes (en_conn e)) \<and> (\<not> w' \<longrightarrow> e' = e)"
  using assms
proof (induction fs arbitrary: w e)
  case (Cons f fs)
  have q: "steps e (entry_queue g now e)" "link_ok e \<longrightarrow> link_ok (entry_queue g now e)" for g
    using steps_queue by (auto simp: steps_def)
  have k: "?case" if "echo_loop now fs True (entry_queue g now e) = (act, w', e')" for g
    using Cons.IH [OF that] q [of g] queue_reassembly by (auto intro: steps_trans)
  from Cons.prems Cons.IH [of w e] k [of "encode [] True OpPong (fr_payload f)"]
    k [of "encode [] (fr_fin f) (fr_opcode f) (fr_payload f)"]
  show ?case by (cases "fr_opcode f") simp_all
qed simp

lemma outcome_echo:
  assumes "echo_frames now fs e = (act, e')"
  shows "outcome_ok m e act e'"
proof -
  obtain a w e1 where l: "echo_loop now fs False e = (a, w, e1)" by (metis prod_cases3)
  note k = echo_loop_steps [OF l]
  have f: "outcome_ok m e b e2" if "flush_and_arm now e1 = (b, e2)" for b e2
    using outcome_flush [OF that, of e] k by auto
  show ?thesis using assms l k by (auto simp: echo_frames_def f intro: outcome_close split: if_splits)
qed

text \<open>Reading bills the buffered remainder; a batch leaves a good entry unless it closes.\<close>

lemma handle_frames_ok:
  assumes "handle_frames sj cr ad cfg now pulled (e, n, limited) = (act, e', n', limited')"
  shows "(link_ok e \<longrightarrow> link_ok e' \<and> on_record (en_conn e') = on_record (en_conn e) \<and> c_state (en_conn e') = c_state (en_conn e) \<and>
      c_high_water (en_conn e') = c_high_water (en_conn e) \<and> c_frame_buffer_bytes (en_conn e') = length (en_inbuf e'))
    \<and> (act = Keep \<or> act = CloseConn) \<and> en_token e' = en_token e \<and> en_tls e' = en_tls e \<and>
      en_pending_establish e' = en_pending_establish e
    \<and> (act = Keep \<longrightarrow> entry_ok (cf_max_message_bytes cfg) e \<longrightarrow> entry_ok (cf_max_message_bytes cfg) e')"
proof -
  obtain res buf where r: "read_into pulled (cf_max_payload cfg) = (res, buf)" by fastforce
  define e1 where "e1 = e\<lparr>en_inbuf := buf, en_conn := set_frame_buffer_bytes (length buf) (en_conn e)\<rparr>"
  have e1: "link_ok e \<longrightarrow> link_ok e1 \<and> on_record (en_conn e1) = on_record (en_conn e)" "c_state (en_conn e1) = c_state (en_conn e)"
    "c_high_water (en_conn e1) = c_high_water (en_conn e)" "c_frame_buffer_bytes (en_conn e1) = length (en_inbuf e1)"
    "en_token e1 = en_token e" "en_tls e1 = en_tls e" "en_pending_establish e1 = en_pending_establish e"
    "entry_ok m e \<longrightarrow> entry_ok m e1" for m
    by (auto simp: e1_def set_frame_buffer_bytes_def link_ok_def conn_ok_def on_record_def cursor_ok_def accounted_bytes_def
        outbound_bytes_def entry_ok_def billed_def armed_ok_def)
  have "\<exists>b. outcome_ok (cf_max_message_bytes cfg) (e1\<lparr>en_frames := b\<rparr>) act e'"
  proof (cases res)
    case (Inr frames)
    obtain ok b where b: "frame_budget now (length frames mod 2 ^ 32) (en_frames e) = (ok, b)" by fastforce
    let ?e2 = "e1\<lparr>en_frames := b\<rparr>"
    have eq: "handle_frames sj cr ad cfg now pulled (e, n, limited) =
        (if \<not> ok then (let (act, e3) = close_frame_flood now ?e2 in (act, e3, n, limited + 1))
         else case cf_mode cfg of
                Echo \<Rightarrow> (let (act, e3) = echo_frames now frames ?e2 in (act, e3, n, limited))
              | Dispatch \<Rightarrow>
                (let (act, e3, n') = dispatch_frames sj cr ad (cf_max_message_bytes cfg) now frames (?e2, n)
                 in (act, e3, n', limited)))"
      unfolding handle_frames_def e1_def using b r Inr by (simp add: Let_def)
    have "outcome_ok (cf_max_message_bytes cfg) ?e2 act e'"
      using assms unfolding eq
      by (auto simp: Let_def split: prod.splits if_splits worker_mode.splits
          intro: outcome_echo outcome_frames dest: outcome_closes(3))
    then show ?thesis by blast
  next
    case (Inl err)
    with assms r have "act = CloseConn" "e' = e1\<lparr>en_frames := en_frames e1\<rparr>"
      by (simp_all add: handle_frames_def e1_def)
    then show ?thesis by (metis outcome_close steps_refl)
  qed
  then obtain b where o: "outcome_ok (cf_max_message_bytes cfg) (e1\<lparr>en_frames := b\<rparr>) act e'" by blast
  moreover have "entry_ok m (e1\<lparr>en_frames := b\<rparr>) = entry_ok m e1" "link_ok (e1\<lparr>en_frames := b\<rparr>) = link_ok e1" for m
    by (simp_all add: entry_ok_def link_ok_def billed_def armed_ok_def)
  ultimately show ?thesis using e1 by (auto simp: outcome_ok_def steps_def)
qed


section \<open>Properties\<close>

text \<open>A text message cut into a first fragment, further ones and a last one.\<close>

definition text_message :: "byte list \<Rightarrow> frame" where
  "text_message p = \<lparr>fr_fin = True, fr_opcode = OpText, fr_payload = p\<rparr>"

definition fragments :: "byte list \<Rightarrow> byte list list \<Rightarrow> byte list \<Rightarrow> frame list" where
  "fragments p ps q = \<lparr>fr_fin = False, fr_opcode = OpText, fr_payload = p\<rparr>
     # map (\<lambda>p. \<lparr>fr_fin = False, fr_opcode = OpContinuation, fr_payload = p\<rparr>) ps
     @ [\<lparr>fr_fin = True, fr_opcode = OpContinuation, fr_payload = q\<rparr>]"

lemma set_fragment_twice: "set_fragment a (set_fragment b e) = set_fragment a e"
  by (simp add: set_fragment_def set_reassembly_bytes_def)

lemma set_fragment_same: "billed e \<Longrightarrow> en_fragment e = fr \<Longrightarrow> set_fragment fr e = e"
  by (auto simp: set_fragment_def set_reassembly_bytes_def billed_def)

lemma take_set_fragment: "take_fragment (set_fragment fr e) = (fr, set_fragment None e)"
  by (simp add: take_fragment_def set_fragment_def set_reassembly_bytes_def)

lemma fragment_tail:
  assumes "billed e" and "en_fragment e = None"
  shows "dispatch_frames sj cr ad m now
      (map (\<lambda>p. \<lparr>fr_fin = False, fr_opcode = OpContinuation, fr_payload = p\<rparr>) ps
        @ [\<lparr>fr_fin = True, fr_opcode = OpContinuation, fr_payload = q\<rparr>] @ rest)
      (set_fragment (Some (if m < length buf then FragOversize else FragText buf)) e, n) =
    (if length (buf @ concat ps @ q) \<le> m
     then dispatch_frames sj cr ad m now (text_message (buf @ concat ps @ q) # rest) (e, n)
     else dispatch_frames sj cr ad m now rest (e, n))"
proof (induction ps arbitrary: buf)
  case Nil
  show ?case using assms
    by (simp add: frame_step_def continuation_frame_def take_set_fragment set_fragment_same text_message_def)
next
  case (Cons p ps)
  have "frame_step sj cr ad m now \<lparr>fr_fin = False, fr_opcode = OpContinuation, fr_payload = p\<rparr>
      (set_fragment (Some (if m < length buf then FragOversize else FragText buf)) e, n) =
      (Keep, set_fragment (Some (if m < length (buf @ p) then FragOversize else FragText (buf @ p))) e, n)"
    by (simp add: frame_step_def continuation_frame_def take_set_fragment set_fragment_twice)
  with Cons.IH [of "buf @ p"] show ?case by simp
qed


definition ghost_json :: serde_json where
  "ghost_json = example_json\<lparr>from_str := (\<lambda>text.
     if text = ''bad'' then Some (client_frame (Subscribe ''private-x'' None None))
     else if text = ''good'' then Some (client_frame (Subscribe ''private-x''
       (Some (''k:'' @ hmac_sha256_hex example_crypto ''s'' ''1.1:private-x'')) None))
     else None)\<rparr>"

definition example_entry :: entry where
  "example_entry = \<lparr>en_conn = (conn_new 65536)\<lparr>c_state := conn_state.Open\<rparr>, en_inbuf = [], en_token = 0,
     en_session = Some \<lparr>se_ctx = example_context ''1.1'' 0, se_codec = V7Codec, se_conn_count = 0, se_subs = [],
       se_cluster_admitted = False\<rparr>,
     en_fragment = None, en_pending_establish = None, en_frames = token_bucket_new 0 0, en_tls = False,
     en_io = [], en_wire = []\<rparr>"

lemma example_entry_ok: "entry_ok m example_entry"
  by (simp add: entry_ok_def example_entry_def link_ok_def billed_def armed_ok_def conn_ok_def cursor_ok_def
      conn_new_def outbound_bytes_def)


text \<open>The two subscribes, evaluated: the refusal goes to the mailbox, the admission to the registry.\<close>

lemma example_name: "validate_channel_name ''private-x'' 200"
  by (simp add: validate_channel_name_def channel_char_ok_def is_ascii_alphanumeric_def less_eq_char_def)

lemma example_sid: "socket_id_as_str (from_raw ''1.1'') = ''1.1''"
  by (simp add: socket_id_as_str_def from_raw_def CAPACITY_def Let_def as_bytes_def utf8_valid.simps)

lemmas example_defs = example_context_def example_app_def example_limits_def example_node_def example_store_def
  local_adapter_new_def local_impl_def

definition refused_node :: "unit local_adapter node" where
  "refused_node = send_self (example_context ''1.1'' 0)
     (SubscriptionError ''private-x'' ''AuthError'' ''Auth signature required'' 401) example_node"

lemma ghost_refused:
  "dispatch ghost_json example_crypto (local_impl ghost_json example_moka) (Subscribe ''private-x'' None None)
     (example_context ''1.1'' 0, example_node) = (example_context ''1.1'' 0, refused_node)"
  using example_name
  by (simp add: refused_node_def subscribe_def Let_def cx_is_saturated_def is_saturated_def SERVER_TO_USER_PREFIX_def
      starts_with_def channel_info_of_def join_channel_def check_private_def send_subscription_error_def example_defs)


definition ghost_token :: string where
  "ghost_token = ''k:'' @ hmac_sha256_hex example_crypto ''s'' ''1.1:private-x''"

definition ghost_registry :: registry where
  "ghost_registry = snd (registry_subscribe ghost_json ''a'' ''private-x'' (cx_handle (example_context ''1.1'' 0)) None [])"

definition admitted_node :: "unit local_adapter node" where
  "admitted_node = send_self (example_context ''1.1'' 0) (SubscriptionSucceeded ''private-x'' None)
     (refused_node\<lparr>nd_state := (nd_state refused_node)\<lparr>la_registry := ghost_registry\<rparr>\<rparr>)"

lemma ghost_admitted:
  "dispatch ghost_json example_crypto (local_impl ghost_json example_moka) (Subscribe ''private-x'' (Some ghost_token) None)
     (example_context ''1.1'' 0, refused_node) =
   ((example_context ''1.1'' 0)\<lparr>cx_subscribed := [''private-x'']\<rparr>, admitted_node)"
proof -
  have tok: "channel_verify example_crypto ''k'' ''s'' ''1.1'' ''private-x'' None ghost_token = Inr ()"
    by (simp add: ghost_token_def channel_verify_def channel_signature_def channel_message_def constant_time_eq_def
        example_crypto_def)
  have n: "nd_state refused_node = local_adapter_new () []" "\<not> is_saturated (nd_fan refused_node)"
    by (simp_all add: refused_node_def send_self_def try_send_cases example_node_def is_saturated_def split: option.split)
  have "la_registry (nd_state refused_node) = []" by (simp add: n local_adapter_new_def)
  with n tok example_name example_sid show ?thesis
    by (simp add: admitted_node_def ghost_registry_def subscribe_def Let_def cx_is_saturated_def
        SERVER_TO_USER_PREFIX_def starts_with_def channel_info_of_def join_channel_def check_private_def join_plain_def
        la_subscribe_def maybe_emit_count_def emit_occupied_if_edge_def replay_cache_def hs_insert_def send_self_def
        example_context_def example_app_def example_limits_def local_impl_def cx_handle_def case_prod_unfold
        split: option.split try_send_result.split)
qed


lemma ghost_decode:
  "from_utf8 (as_bytes ''bad'') = Some ''bad''" "from_utf8 (as_bytes ''good'') = Some ''good''"
  "codec_decode ghost_json V7Codec ''bad'' = Inr (Subscribe ''private-x'' None None)"
  "codec_decode ghost_json V7Codec ''good'' = Inr (Subscribe ''private-x'' (Some ghost_token) None)"
  by (rule from_utf8_as_bytes, simp add: as_bytes_def utf8_valid.simps)+
    (simp_all add: codec_decode_def ghost_json_def decode_def field_str_def ghost_token_def)

lemma ghost_mailbox:
  "mailbox_of \<lparr>se_ctx = cx, se_codec = c, se_conn_count = k, se_subs = s, se_cluster_admitted = b\<rparr> admitted_node =
     [SubscriptionError ''private-x'' ''AuthError'' ''Auth signature required'' 401, SubscriptionSucceeded ''private-x'' None]"
  if "cx_self_tx cx = 0"
  using that
  by (simp add: mailbox_of_def admitted_node_def refused_node_def send_self_def try_send_cases accepts_def example_defs)

lemma ghost_registry_ids:
  "la_registry (nd_state admitted_node) = ghost_registry"
  "map_option socket_ids (map_of ghost_registry (''a'', ''private-x'')) = Some [from_raw ''1.1'']"
  by (simp add: admitted_node_def refused_node_def send_self_def try_send_cases accepts_def example_defs)
    (simp add: ghost_registry_def registry_subscribe_def Let_def cs_add_def cs_remove_def channel_state_default_def
      example_defs cx_handle_def socket_ids_def)

lemma blocked_flush_keeps: "en_io e = [] \<Longrightarrow> \<not> en_tls e \<Longrightarrow> \<exists>e'. flush_and_arm now e = (Keep, e')"
  by (auto simp: flush_and_arm_def next_io_def blocked_io_def conn_flush_def flush_plain_def Let_def)

text \<open>
  C10. Two subscribes to one channel read in one batch, the first refused for its token and the
  second admitted: the refusal queued for the first is drained after the second has joined and
  takes the channel out of the connection's context, although the registry keeps the socket as
  a subscriber. When the connection then closes, the registry still lists it.
\<close>

theorem queued_refusal_leaves_ghost:
  "let ad = local_impl ghost_json example_moka;
       (act, e, n) = dispatch_frames ghost_json example_crypto ad 10240 0
         [text_message (as_bytes ''bad''), text_message (as_bytes ''good'')] (example_entry, example_node);
       cx = se_ctx (the (en_session e));
       (cx', n') = on_close ad (cx, n)
   in act = Keep \<and> cx_subscribed cx = [] \<and>
      map_option socket_ids (map_of (la_registry (nd_state n)) (''a'', ''private-x'')) = Some [from_raw ''1.1''] \<and>
      map_option socket_ids (map_of (la_registry (nd_state n')) (''a'', ''private-x'')) = Some [from_raw ''1.1'']"
proof -
  let ?s = "\<lparr>se_ctx = example_context ''1.1'' 0, se_codec = V7Codec, se_conn_count = 0, se_subs = [], se_cluster_admitted = False\<rparr>"
  let ?s1 = "?s\<lparr>se_ctx := (example_context ''1.1'' 0)\<lparr>cx_subscribed := [''private-x'']\<rparr>\<rparr>"
  let ?f = "\<lambda>fs. dispatch_frames ghost_json example_crypto (local_impl ghost_json example_moka) 10240 0 fs"
  have e: "en_session example_entry = Some ?s" "en_fragment example_entry = None" by (simp_all add: example_entry_def)
  have run: "?f [text_message (as_bytes ''bad''), text_message (as_bytes ''good'')] (example_entry, example_node) =
      ?f [] (example_entry\<lparr>en_session := Some ?s1\<rparr>, admitted_node)"
    by (simp add: text_message_def frame_step_def dispatch_text_message_def ghost_decode e dispatch_command_def
        ghost_refused [unfolded dispatch.simps] ghost_admitted [unfolded dispatch.simps])
  obtain d where l: "drain_loop ghost_json 0 (mailbox_of ?s1 admitted_node)
      \<lparr>ds_session = ?s1, ds_entry = example_entry\<lparr>en_session := Some ?s1\<rparr>, ds_close_after = False, ds_wrote = False,
       ds_subs_changed = False\<rparr> = ([], d)"
    and d: "ds_wrote d" "\<not> ds_close_after d" "en_io (ds_entry d) = []" "\<not> en_tls (ds_entry d)"
      "ds_session d = forget_channel ''private-x'' ?s1"
    by (simp add: ghost_mailbox example_context_def drain_event_def Let_def entry_queue_def example_entry_def)
  obtain e2 where f: "flush_and_arm 0 ((ds_entry d)\<lparr>en_session := Some (ds_session d)\<rparr>) = (Keep, e2)"
    using blocked_flush_keeps d(3,4) by fastforce
  have s2: "en_session e2 = Some (ds_session d)" using flush_steps(2) [OF f] by simp
  let ?cx = "se_ctx (ds_session d)"
  have cx: "cx_subscribed ?cx = []" "cx_user ?cx = None"
    by (simp_all add: d forget_channel_def hs_remove_def example_context_def)
  have n: "la_registry (nd_state (set_mailbox ?s1 [] admitted_node)) = ghost_registry"
    by (simp add: set_mailbox_def Let_def ghost_registry_ids)
  have "?f [] (example_entry\<lparr>en_session := Some ?s1\<rparr>, admitted_node) = (Keep, e2, set_mailbox ?s1 [] admitted_node)"
    using l d f by (simp add: drain_session_def)
  with run have r: "?f [text_message (as_bytes ''bad''), text_message (as_bytes ''good'')] (example_entry, example_node) =
      (Keep, e2, set_mailbox ?s1 [] admitted_node)" by (rule trans)
  have oc: "la_registry (nd_state (snd (on_close (local_impl ghost_json example_moka) (?cx, set_mailbox ?s1 [] admitted_node)))) =
      ghost_registry"
    using n by (simp add: on_close_def cx local_impl_def la_unwatch_def unwatch_edges_def case_prod_unfold Let_def)
  show ?thesis unfolding Let_def r using n oc ghost_registry_ids(2) by (simp add: s2 cx case_prod_unfold)
qed

end
