(* ===== verification/Worker_Index.thy ===== *)
theory Worker_Index
  imports Worker_Session
begin

text \<open>
  The worker's own subscription index and the fan-out of broadcasts over it, from
  \<^verbatim>\<open>src/transport/worker.rs\<close>: the index names, for every channel, the connections of this worker
  that are in it; a broadcast drained from the worker's inbox is queued onto each of them,
  unless the memory budget makes the worker shed it.
\<close>


section \<open>The subscription index\<close>

text \<open>A channel's subscribers with their slab token and protocol version.\<close>

type_synonym local_subs = "(string \<times> string, nat \<times> nat) socket_table"

definition session_app :: "session \<Rightarrow> string" where
  "session_app s = app_id (cx_app (se_ctx s))"

definition deindex_connection :: "session \<Rightarrow> local_subs \<Rightarrow> local_subs" where
  "deindex_connection s ls =
     (let live = cx_subscribed (se_ctx s);
          union = live @ filter (\<lambda>ch. ch \<notin> set live) (se_subs s)
      in fold (\<lambda>ch. group_remove (session_app s, ch) (cx_socket_id (se_ctx s))) union ls)"

definition reconcile_membership :: "nat \<Rightarrow> session \<times> local_subs \<Rightarrow> session \<times> local_subs" where
  "reconcile_membership tok sl =
     (case sl of (s, ls) \<Rightarrow>
       (let live = cx_subscribed (se_ctx s); sid = cx_socket_id (se_ctx s); app = session_app s
        in if set (se_subs s) = set live then (s, ls)
           else (let item = (tok, codec_version (se_codec s));
                     added = filter (\<lambda>ch. ch \<notin> set (se_subs s)) live;
                     ls1 = fold (\<lambda>ch. group_put (app, ch) sid item) added ls;
                     subs1 = fold hs_insert added (se_subs s);
                     ls2 = fold (\<lambda>ch. group_remove (app, ch) sid) (filter (\<lambda>ch. ch \<notin> set live) subs1) ls1
                 in (s\<lparr>se_subs := filter (\<lambda>ch. ch \<in> set live) subs1\<rparr>, ls2))))"

text \<open>What the index holds for one session.\<close>

definition index_item :: "session \<Rightarrow> nat \<Rightarrow> string \<times> string \<Rightarrow> (nat \<times> nat) option" where
  "index_item s tok k =
     (if fst k = session_app s \<and> snd k \<in> set (se_subs s) then Some (tok, codec_version (se_codec s)) else None)"

lemma fold_group_remove:
  assumes "groups_ok g"
  shows "groups_ok (fold (\<lambda>ch. group_remove (app, ch) sid) chs g) \<and>
    gview (fold (\<lambda>ch. group_remove (app, ch) sid) chs g) =
      (\<lambda>k s. if s = sid \<and> fst k = app \<and> snd k \<in> set chs then None else gview g k s)"
  using assms
proof (induction chs arbitrary: g)
  case (Cons ch chs)
  have g: "groups_ok (group_remove (app, ch) sid g)" using Cons.prems by (rule group_remove_correct)
  from Cons.IH [OF g] group_remove_correct(2) [OF Cons.prems, of "(app, ch)" sid] show ?case
    by (auto simp: fun_eq_iff)
qed auto

lemma fold_group_put:
  assumes "groups_ok g"
  shows "groups_ok (fold (\<lambda>ch. group_put (app, ch) sid v) chs g) \<and>
    gview (fold (\<lambda>ch. group_put (app, ch) sid v) chs g) =
      (\<lambda>k s. if s = sid \<and> fst k = app \<and> snd k \<in> set chs then Some v else gview g k s)"
  using assms
proof (induction chs arbitrary: g)
  case (Cons ch chs)
  have g: "groups_ok (group_put (app, ch) sid v g)" using Cons.prems by (rule group_put_correct)
  from Cons.IH [OF g] group_put_correct(2) [OF Cons.prems, of "(app, ch)" sid v] show ?case
    by (auto simp: fun_eq_iff)
qed auto

lemma set_fold_hs_insert: "set (fold hs_insert xs s) = set xs \<union> set s"
  by (induction xs arbitrary: s) (auto simp: hs_insert_def)

lemma deindex_correct:
  assumes "groups_ok ls" and "\<And>k. gview ls k (cx_socket_id (se_ctx s)) = index_item s tok k"
  shows "groups_ok (deindex_connection s ls) \<and>
    gview (deindex_connection s ls) = (\<lambda>k sid. if sid = cx_socket_id (se_ctx s) then None else gview ls k sid)"
proof -
  define union where "union = cx_subscribed (se_ctx s) @ filter (\<lambda>ch. ch \<notin> set (cx_subscribed (se_ctx s))) (se_subs s)"
  have u: "set union = set (cx_subscribed (se_ctx s)) \<union> set (se_subs s)" by (auto simp: union_def)
  show ?thesis
    using fold_group_remove [OF assms(1), of "session_app s" "cx_socket_id (se_ctx s)" union] assms(2) u
    unfolding deindex_connection_def Let_def union_def [symmetric] by (auto simp: fun_eq_iff index_item_def)
qed

lemma reconcile_correct:
  assumes "groups_ok ls" and "\<And>k. gview ls k (cx_socket_id (se_ctx s)) = index_item s tok k"
    and "reconcile_membership tok (s, ls) = (s', ls')"
  shows "groups_ok ls' \<and> se_ctx s' = se_ctx s \<and> se_codec s' = se_codec s \<and> se_conn_count s' = se_conn_count s \<and>
    se_cluster_admitted s' = se_cluster_admitted s \<and> set (se_subs s') = set (cx_subscribed (se_ctx s)) \<and>
    gview ls' = (\<lambda>k sid. if sid = cx_socket_id (se_ctx s) then index_item s' tok k else gview ls k sid)"
proof (cases "set (se_subs s) = set (cx_subscribed (se_ctx s))")
  case True
  with assms show ?thesis by (auto simp: reconcile_membership_def Let_def fun_eq_iff)
next
  case False
  let ?live = "cx_subscribed (se_ctx s)" and ?sid = "cx_socket_id (se_ctx s)"
  let ?added = "filter (\<lambda>ch. ch \<notin> set (se_subs s)) ?live"
  let ?v = "(tok, codec_version (se_codec s))"
  define ls1 where "ls1 = fold (\<lambda>ch. group_put (session_app s, ch) ?sid ?v) ?added ls"
  define subs1 where "subs1 = fold hs_insert ?added (se_subs s)"
  have s1: "set subs1 = set (se_subs s) \<union> set ?live" by (auto simp: subs1_def set_fold_hs_insert)
  have out: "s' = s\<lparr>se_subs := filter (\<lambda>ch. ch \<in> set ?live) subs1\<rparr>"
    "ls' = fold (\<lambda>ch. group_remove (session_app s, ch) ?sid) (filter (\<lambda>ch. ch \<notin> set ?live) subs1) ls1"
    using assms(3) False by (auto simp: reconcile_membership_def Let_def ls1_def subs1_def)
  have p: "groups_ok ls1" "gview ls1 =
      (\<lambda>k s'. if s' = ?sid \<and> fst k = session_app s \<and> snd k \<in> set ?added then Some ?v else gview ls k s')"
    using fold_group_put [OF assms(1)] by (auto simp: ls1_def)
  show ?thesis
    using fold_group_remove [OF p(1), of "session_app s" ?sid "filter (\<lambda>ch. ch \<notin> set ?live) subs1"] p(2) s1 assms(2)
    by (auto simp: out fun_eq_iff index_item_def session_app_def)
qed

section \<open>Shedding\<close>

datatype shed_band = Normal | Pressure | Severe | Saturated

definition shed_band_of :: "u64 \<Rightarrow> u64 \<Rightarrow> shed_band" where
  "shed_band_of inflight budget =
     (if budget = 0 then Normal
      else (let scaled = sat_mul inflight 100
            in if scaled < sat_mul budget 80 then Normal
               else if scaled < sat_mul budget 95 then Pressure
               else if scaled < sat_mul budget 100 then Severe
               else Saturated))"

definition BUDGET_PRESSURE_RELEASE_BAND :: shed_band where
  "BUDGET_PRESSURE_RELEASE_BAND = Normal"

definition update_budget_pressure :: "bool \<Rightarrow> u64 \<Rightarrow> u64 \<Rightarrow> bool" where
  "update_budget_pressure raised inflight budget =
     (let band = shed_band_of inflight budget
      in if band = Saturated then True else if band = BUDGET_PRESSURE_RELEASE_BAND then False else raised)"

fun should_skip :: "shed_band \<Rightarrow> nat \<Rightarrow> nat \<Rightarrow> bool" where
  "should_skip Normal out_bytes high_water = False"
| "should_skip Pressure out_bytes high_water = (high_water < out_bytes * 2)"
| "should_skip Severe out_bytes high_water = (high_water < out_bytes * 16)"
| "should_skip Saturated out_bytes high_water = True"


section \<open>The inbox pump\<close>

text \<open>The slab of connections, by token.\<close>

type_synonym slab = "(nat \<times> entry) list"

definition open_conn :: "slab \<Rightarrow> nat \<Rightarrow> entry option" where
  "open_conn conns tok =
     (case map_of conns tok of
        None \<Rightarrow> None
      | Some e \<Rightarrow> if en_session e = None \<or> c_state (en_conn e) \<noteq> conn_state.Open then None else Some e)"

record pump =
  pu_conns :: slab
  pu_inflight :: u64
  pu_outbound :: u64
  pu_drophead :: u64
  pu_saturated :: bool
  pu_touched :: "nat list"

text \<open>The connection after a frame is queued and its counters are taken, with what was taken.\<close>

definition queue_and_take :: "byte list \<Rightarrow> u64 \<Rightarrow> conn \<Rightarrow> int \<times> int \<times> u64 \<times> conn" where
  "queue_and_take frame now c =
     (let (_, c1) = conn_queue frame now c;
          (delta, c2) = take_inflight_delta c1;
          (out_delta, c3) = take_outbound_delta c2;
          (dh, c4) = take_drophead_dropped c3
      in (delta, out_delta, dh, c4))"

definition frame_for :: "(nat \<times> byte list) list \<Rightarrow> nat \<Rightarrow> byte list" where
  "frame_for frames version =
     (if length frames = 1 then snd (hd frames)
      else (case map_of frames version of Some b \<Rightarrow> b | None \<Rightarrow> snd (hd frames)))"

definition deliver_one ::
  "u64 \<Rightarrow> u64 \<Rightarrow> nat set \<Rightarrow> (nat \<times> byte list) list \<Rightarrow> socket_id option \<Rightarrow> socket_id \<times> nat \<times> nat \<Rightarrow> pump \<Rightarrow> pump" where
  "deliver_one budget now to_close frames except item p =
     (case item of (sid, tok, version) \<Rightarrow>
       (let band = shed_band_of (pu_inflight p) budget
        in if band = Saturated then p\<lparr>pu_saturated := True\<rparr>
           else if except = Some sid then p
           else if tok \<in> to_close then p
           else case open_conn (pu_conns p) tok of
             None \<Rightarrow> p
           | Some e \<Rightarrow>
             if should_skip band (c_out_bytes (en_conn e)) (c_high_water (en_conn e)) then p
             else (let (delta, out_delta, dh, c) = queue_and_take (frame_for frames version) now (en_conn e)
                   in p\<lparr>pu_conns := AList.update tok (e\<lparr>en_conn := c\<rparr>) (pu_conns p),
                        pu_inflight := pu_inflight p + word_of_int delta,
                        pu_outbound := pu_outbound p + word_of_int out_delta,
                        pu_drophead := pu_drophead p + dh,
                        pu_touched := hs_insert tok (pu_touched p)\<rparr>)))"

definition pump_message :: "u64 \<Rightarrow> u64 \<Rightarrow> nat set \<Rightarrow> local_subs \<Rightarrow> broadcast_msg \<Rightarrow> pump \<Rightarrow> pump" where
  "pump_message budget now to_close ls msg p =
     (case map_of ls (bm_app msg, bm_channel msg) of
        None \<Rightarrow> p
      | Some subs \<Rightarrow>
        if bm_frames msg = [] then p
        else fold (deliver_one budget now to_close (bm_frames msg) (bm_except msg)) subs p)"

definition drain_broadcast_inbox :: "u64 \<Rightarrow> u64 \<Rightarrow> nat set \<Rightarrow> local_subs \<Rightarrow> broadcast_msg list \<Rightarrow> pump \<Rightarrow> pump" where
  "drain_broadcast_inbox budget now to_close ls msgs p = fold (pump_message budget now to_close ls) msgs p"

section \<open>Delivery\<close>

text \<open>
  The index is exact for the connections of the slab: a channel lists a socket with its token and
  version exactly when the connection at that token has reconciled the channel.
\<close>

definition session_at :: "slab \<Rightarrow> nat \<Rightarrow> session option" where
  "session_at conns t = Option.bind (map_of conns t) en_session"

definition indexed :: "slab \<Rightarrow> local_subs \<Rightarrow> bool" where
  "indexed conns ls \<longleftrightarrow> hm_ok conns \<and> groups_ok ls \<and>
     (\<forall>k sid tok v. gview ls k sid = Some (tok, v) \<longleftrightarrow>
        (\<exists>s. session_at conns tok = Some s \<and> cx_socket_id (se_ctx s) = sid \<and> index_item s tok k = Some (tok, v)))"

definition put :: "u64 \<Rightarrow> byte list \<Rightarrow> conn \<Rightarrow> conn" where
  "put now frame c = snd (snd (snd (queue_and_take frame now c)))"

definition is_open :: "entry \<Rightarrow> bool" where
  "is_open e \<longleftrightarrow> en_session e \<noteq> None \<and> c_state (en_conn e) = conn_state.Open"

lemma put_state: "conn_ok c \<Longrightarrow> conn_ok (put now f c) \<and> c_state (put now f c) = c_state c"
  using moves_queue [of c f now]
  by (auto simp: put_def queue_and_take_def Let_def take_inflight_delta_def take_outbound_delta_def
      take_drophead_dropped_def moves_def kept_def conn_ok_def cursor_ok_def split: prod.splits)

text \<open>Without a budget no frame is shed: what one subscriber of a message gets.\<close>

definition delivered ::
  "u64 \<Rightarrow> (nat \<times> byte list) list \<Rightarrow> socket_id option \<Rightarrow> socket_id \<times> nat \<times> nat \<Rightarrow> entry \<Rightarrow> entry" where
  "delivered now frames except item e =
     (if except \<noteq> Some (fst item) \<and> is_open e
      then e\<lparr>en_conn := put now (frame_for frames (snd (snd item))) (en_conn e)\<rparr> else e)"

lemma deliver_one_conns:
  assumes "hm_ok (pu_conns p)"
  shows "hm_ok (pu_conns (deliver_one 0 now {} frames except item p))"
    and "map_of (pu_conns (deliver_one 0 now {} frames except item p)) t =
      (if t = fst (snd item) then map_option (delivered now frames except item) (map_of (pu_conns p) t)
       else map_of (pu_conns p) t)"
  using assms
  by (auto simp: deliver_one_def shed_band_of_def open_conn_def is_open_def put_def case_prod_unfold hm_simps Let_def
      delivered_def split: option.splits)

definition delivered_among ::
  "u64 \<Rightarrow> (nat \<times> byte list) list \<Rightarrow> socket_id option \<Rightarrow> (socket_id \<times> nat \<times> nat) list \<Rightarrow> nat \<Rightarrow> entry \<Rightarrow> entry" where
  "delivered_among now frames except subs t e =
     (case find (\<lambda>item. fst (snd item) = t) subs of Some item \<Rightarrow> delivered now frames except item e | None \<Rightarrow> e)"

lemma fold_deliver_conns:
  assumes "hm_ok (pu_conns p)" and "distinct (map (\<lambda>item. fst (snd item)) subs)"
  shows "hm_ok (pu_conns (fold (deliver_one 0 now {} frames except) subs p)) \<and>
    map_of (pu_conns (fold (deliver_one 0 now {} frames except) subs p)) t =
      map_option (delivered_among now frames except subs t) (map_of (pu_conns p) t)"
  using assms
proof (induction subs arbitrary: p)
  case Nil
  then show ?case by (simp add: delivered_among_def option.map_ident_strong)
next
  case (Cons item subs)
  note one = deliver_one_conns [OF Cons.prems(1), of now frames except item]
  have rest: "distinct (map (\<lambda>item. fst (snd item)) subs)" "fst (snd item) \<notin> (\<lambda>item. fst (snd item)) ` set subs"
    using Cons.prems(2) by auto
  then have "find (\<lambda>i. fst (snd i) = fst (snd item)) subs = None"
    unfolding find_None_iff by (metis (no_types, lifting) image_eqI)
  then have "delivered_among now frames except (item # subs) t =
      (if t = fst (snd item) then delivered now frames except item else delivered_among now frames except subs t)"
    "t = fst (snd item) \<Longrightarrow> delivered_among now frames except subs t = (\<lambda>e. e)"
    by (auto simp: fun_eq_iff delivered_among_def)
  with Cons.IH [OF one(1) rest(1)] one(2) [of t] show ?case
    by (auto simp: option.map_comp comp_def option.map_ident)
qed

text \<open>The messages a connection is to get: those of its channels that do not exclude it.\<close>

definition wanted :: "session \<Rightarrow> broadcast_msg \<Rightarrow> bool" where
  "wanted s msg \<longleftrightarrow> bm_frames msg \<noteq> [] \<and> bm_app msg = session_app s \<and> bm_channel msg \<in> set (se_subs s) \<and>
     bm_except msg \<noteq> Some (cx_socket_id (se_ctx s))"

lemma indexed_sessions:
  assumes "indexed conns ls" and "hm_ok conns'" and "\<And>t. session_at conns' t = session_at conns t"
  shows "indexed conns' ls"
  using assms unfolding indexed_def by auto

lemma indexed_item:
  assumes "indexed conns ls" and "map_of ls k = Some subs"
  shows "hm_ok subs" and "(sid, t, v) \<in> set subs \<longleftrightarrow>
    (\<exists>s. session_at conns t = Some s \<and> cx_socket_id (se_ctx s) = sid \<and> index_item s t k = Some (t, v))"
proof -
  show ok: "hm_ok subs" using assms unfolding indexed_def groups_ok_def by blast
  have "gview ls k sid = Some (t, v) \<longleftrightarrow> (sid, t, v) \<in> set subs"
    using assms(2) ok by (simp add: gview_def group_of_def hm_ok_def)
  with assms(1) show "(sid, t, v) \<in> set subs \<longleftrightarrow>
    (\<exists>s. session_at conns t = Some s \<and> cx_socket_id (se_ctx s) = sid \<and> index_item s t k = Some (t, v))"
    unfolding indexed_def by blast
qed

lemma indexed_tokens_distinct:
  assumes "indexed conns ls" and "map_of ls k = Some subs"
  shows "distinct (map (\<lambda>item. fst (snd item)) subs)"
proof -
  have "inj_on (\<lambda>item. fst (snd item)) (set subs)"
    by (rule inj_onI) (auto simp: indexed_item(2) [OF assms] index_item_def)
  moreover have "distinct subs" using indexed_item(1) [OF assms] by (auto simp: hm_ok_def distinct_map)
  ultimately show ?thesis by (simp add: distinct_map)
qed

text \<open>What a message does to the connection at a token.\<close>

definition receive :: "u64 \<Rightarrow> broadcast_msg \<Rightarrow> entry \<Rightarrow> entry" where
  "receive now msg e =
     (case en_session e of
        Some s \<Rightarrow>
          if c_state (en_conn e) = conn_state.Open \<and> wanted s msg
          then e\<lparr>en_conn := put now (frame_for (bm_frames msg) (codec_version (se_codec s))) (en_conn e)\<rparr> else e
      | None \<Rightarrow> e)"

lemma delivered_among_receive:
  assumes idx: "indexed conns ls" and k: "map_of ls (bm_app msg, bm_channel msg) = Some subs"
    and e: "map_of conns t = Some e" and "bm_frames msg \<noteq> []"
  shows "delivered_among now (bm_frames msg) (bm_except msg) subs t e = receive now msg e"
proof (cases "find (\<lambda>item. fst (snd item) = t) subs")
  case None
  have "\<not> wanted s msg" if "en_session e = Some s" for s
  proof
    assume "wanted s msg"
    then have "(cx_socket_id (se_ctx s), t, codec_version (se_codec s)) \<in> set subs"
      using that e by (auto simp: indexed_item(2) [OF idx k] session_at_def index_item_def wanted_def)
    with None show False by (auto simp: find_None_iff)
  qed
  with None show ?thesis by (simp add: delivered_among_def receive_def split: option.split)
next
  case (Some item)
  then have "item \<in> set subs" "fst (snd item) = t" by (auto simp: find_Some_iff)
  then obtain s where "session_at conns t = Some s" "cx_socket_id (se_ctx s) = fst item"
      "index_item s t (bm_app msg, bm_channel msg) = Some (t, snd (snd item))"
    using indexed_item(2) [OF idx k, of "fst item" t "snd (snd item)"] by auto
  with Some e assms(4) show ?thesis
    by (auto simp: delivered_among_def receive_def delivered_def is_open_def wanted_def index_item_def session_at_def
        split: if_splits)
qed

lemma receive_session: "en_session (receive now msg e) = en_session e"
  by (simp add: receive_def split: option.split)

lemma pump_message_conns:
  assumes idx: "indexed (pu_conns p) ls"
  shows "indexed (pu_conns (pump_message 0 now {} ls msg p)) ls \<and>
    map_of (pu_conns (pump_message 0 now {} ls msg p)) t = map_option (receive now msg) (map_of (pu_conns p) t)"
proof -
  have ok: "hm_ok (pu_conns p)" using idx by (simp add: indexed_def)
  have *: "hm_ok (pu_conns (pump_message 0 now {} ls msg p)) \<and>
    map_of (pu_conns (pump_message 0 now {} ls msg p)) t = map_option (receive now msg) (map_of (pu_conns p) t)" for t
  proof (cases "map_of ls (bm_app msg, bm_channel msg)")
    case None
    have "\<not> wanted s msg" if "session_at (pu_conns p) t = Some s" for s
    proof
      assume "wanted s msg"
      then have "gview ls (bm_app msg, bm_channel msg) (cx_socket_id (se_ctx s)) = Some (t, codec_version (se_codec s))"
        using that idx unfolding indexed_def by (auto simp: index_item_def wanted_def)
      with None show False by (simp add: gview_def group_of_def)
    qed
    then have "receive now msg e = e" if "map_of (pu_conns p) t = Some e" for e
      using that by (simp add: receive_def session_at_def split: option.split)
    with None ok show ?thesis by (cases "map_of (pu_conns p) t") (simp_all add: pump_message_def)
  next
    case (Some subs)
    note fold_deliver_conns [OF ok indexed_tokens_distinct [OF idx Some], of now "bm_frames msg" "bm_except msg" t]
    moreover have "receive now msg e = e" if "bm_frames msg = []" for e
      using that by (simp add: receive_def wanted_def split: option.split)
    ultimately show ?thesis
      using ok delivered_among_receive [OF idx Some]
      by (cases "map_of (pu_conns p) t") (auto simp: pump_message_def Some)
  qed
  then have "session_at (pu_conns (pump_message 0 now {} ls msg p)) t = session_at (pu_conns p) t" for t
    by (cases "map_of (pu_conns p) t") (simp_all add: session_at_def receive_session)
  with * idx show ?thesis by (blast intro: indexed_sessions)
qed

lemma put_room:
  assumes "c_out_bytes c + length f \<le> c_high_water c"
  shows "c_out (put now f c) = c_out c @ [(f, now)] \<and> c_out_bytes (put now f c) = c_out_bytes c + length f \<and>
    c_high_water (put now f c) = c_high_water c \<and> c_state (put now f c) = c_state c"
  using assms
  by (simp add: put_def queue_and_take_def conn_queue_def drop_head.simps [of _ _ c] take_inflight_delta_def
      take_outbound_delta_def take_drophead_dropped_def Let_def)

lemma drain_broadcast_conns:
  assumes "indexed (pu_conns p) ls"
  shows "indexed (pu_conns (drain_broadcast_inbox 0 now {} ls msgs p)) ls \<and>
    map_of (pu_conns (drain_broadcast_inbox 0 now {} ls msgs p)) t = map_option (fold (receive now) msgs) (map_of (pu_conns p) t)"
  using assms
proof (induction msgs arbitrary: p)
  case Nil
  then show ?case by (simp add: drain_broadcast_inbox_def option.map_ident id_def)
next
  case (Cons msg msgs)
  note one = pump_message_conns [OF Cons.prems, of now msg]
  from Cons.IH [OF conjunct1 [OF one]] one show ?case
    by (simp add: drain_broadcast_inbox_def option.map_comp comp_def)
qed

lemma fold_receive_room:
  assumes "en_session e = Some s" and "c_state (en_conn e) = conn_state.Open"
    and "c_out_bytes (en_conn e) +
      (\<Sum>m\<leftarrow>filter (wanted s) msgs. length (frame_for (bm_frames m) (codec_version (se_codec s)))) \<le> c_high_water (en_conn e)"
  shows "\<exists>c. fold (receive now) msgs e = e\<lparr>en_conn := c\<rparr> \<and>
    c_out c = c_out (en_conn e) @ map (\<lambda>m. (frame_for (bm_frames m) (codec_version (se_codec s)), now)) (filter (wanted s) msgs)"
  using assms
proof (induction msgs arbitrary: e)
  case Nil
  then show ?case by (intro exI [of _ "en_conn e"]) simp
next
  case (Cons msg msgs)
  show ?case
  proof (cases "wanted s msg")
    case True
    let ?f = "frame_for (bm_frames msg) (codec_version (se_codec s))"
    let ?e = "e\<lparr>en_conn := put now ?f (en_conn e)\<rparr>"
    have room: "c_out_bytes (en_conn e) + length ?f \<le> c_high_water (en_conn e)" using Cons.prems(3) True by simp
    have "receive now msg e = ?e" using Cons.prems True by (simp add: receive_def)
    moreover have "\<exists>c. fold (receive now) msgs ?e = ?e\<lparr>en_conn := c\<rparr> \<and>
        c_out c = c_out (en_conn ?e) @ map (\<lambda>m. (frame_for (bm_frames m) (codec_version (se_codec s)), now)) (filter (wanted s) msgs)"
      using Cons.prems True put_room [OF room, of now] by (intro Cons.IH) simp_all
    ultimately show ?thesis using put_room [OF room, of now] True by auto
  next
    case False
    then have "receive now msg e = e" using Cons.prems by (simp add: receive_def)
    with Cons False show ?thesis by simp
  qed
qed


definition room_session :: "string \<Rightarrow> session" where
  "room_session sid = \<lparr>se_ctx = example_context sid 0, se_codec = V7Codec, se_conn_count = 0, se_subs = [''room''],
     se_cluster_admitted = False\<rparr>"

definition room_pump :: pump where
  "room_pump = \<lparr>pu_conns = [(0, example_entry\<lparr>en_session := Some (room_session ''1.1'')\<rparr>),
       (1, example_entry\<lparr>en_session := Some (room_session ''2.2'')\<rparr>)],
     pu_inflight = 0, pu_outbound = 0, pu_drophead = 0, pu_saturated = False, pu_touched = []\<rparr>"

definition room_subs :: local_subs where
  "room_subs = [((session_app (room_session ''1.1''), ''room''), [(from_raw ''1.1'', (0, 7)), (from_raw ''2.2'', (1, 7))])]"

definition room_msgs :: "broadcast_msg list" where
  "room_msgs = map (\<lambda>(ch, b, except). \<lparr>bm_app = session_app (room_session ''1.1''), bm_channel = ch, bm_frames = [(7, [b])], bm_except = except\<rparr>)
     [(''room'', 1, Some (from_raw ''1.1'')), (''room'', 2, None), (''hall'', 3, None), (''room'', 4, Some (from_raw ''2.2''))]"

lemma room_sockets: "from_raw ''1.1'' \<noteq> from_raw ''2.2''"
  by (simp add: from_raw_def CAPACITY_def)

lemma room_indexed: "indexed (pu_conns room_pump) room_subs"
  unfolding indexed_def
  by (auto simp: room_pump_def room_subs_def hm_ok_def groups_ok_def gview_def group_of_def session_at_def
      index_item_def room_session_def session_app_def example_context_def codec_version_def room_sockets
      room_sockets [symmetric] split: if_splits)



section \<open>The memory budget\<close>

text \<open>The totals the worker keeps are the sums of what its connections have on record.\<close>

definition tally :: "(entry \<Rightarrow> int) \<Rightarrow> slab \<Rightarrow> int" where
  "tally f conns = (\<Sum>(tok, e)\<leftarrow>conns. f e)"

lemma tally_update:
  "map_of conns tok = Some e \<Longrightarrow> tally f (AList.update tok e' conns) = tally f conns - f e + f e'"
  by (induction conns) (auto simp: tally_def)

lemma tally_update_new:
  "map_of conns tok = None \<Longrightarrow> tally f (AList.update tok e' conns) = tally f conns + f e'"
  by (induction conns) (auto simp: tally_def)

lemma tally_delete:
  "hm_ok conns \<Longrightarrow> map_of conns tok = Some e \<Longrightarrow> tally f (AList.delete tok conns) = tally f conns - f e"
proof (induction conns)
  case (Cons x conns)
  have "AList.delete tok conns = conns" if "tok \<notin> fst ` set conns"
    using that by (simp add: delete_id)
  with Cons show ?case by (cases x) (auto simp: tally_def hm_ok_def AList.delete_eq)
qed simp

definition held :: "entry \<Rightarrow> int" where
  "held e = int (accounted_bytes (en_conn e))"

definition owed :: "entry \<Rightarrow> int" where
  "owed e = int (outbound_bytes (en_conn e))"

lemma tally_held_nonneg: "0 \<le> tally held conns"
  by (auto simp: tally_def held_def intro!: sum_list_nonneg)

definition settled :: "conn \<Rightarrow> bool" where
  "settled c \<longleftrightarrow> conn_ok c \<and> c_inflight_delta c = 0 \<and> c_outbound_delta c = 0"

definition totals_ok :: "pump \<Rightarrow> bool" where
  "totals_ok p \<longleftrightarrow> hm_ok (pu_conns p) \<and> (\<forall>tok e. map_of (pu_conns p) tok = Some e \<longrightarrow> settled (en_conn e)) \<and>
     pu_inflight p = word_of_int (tally held (pu_conns p)) \<and> pu_outbound p = word_of_int (tally owed (pu_conns p))"

lemma queue_and_take_settled:
  assumes "conn_ok c" and "queue_and_take frame now c = (d, od, dh, c')"
  shows "settled c' \<and> on_record c' = (fst (on_record c) + d, snd (on_record c) + od) \<and> kept c c'"
  using moves_queue [of c frame now] assms
  by (auto simp: queue_and_take_def take_inflight_delta_def take_outbound_delta_def take_drophead_dropped_def settled_def
      moves_def on_record_def conn_ok_def cursor_ok_def accounted_bytes_def outbound_bytes_def kept_def Let_def split: prod.splits)

lemma drop_head_shrinks: "c_out_bytes (snd (drop_head locked flen c)) \<le> c_out_bytes c"
proof (induction locked flen c rule: drop_head.induct)
  case (1 locked flen c)
  let ?c = "release (length (fst (c_out c ! locked)))
    (c\<lparr>c_out := take locked (c_out c) @ drop (Suc locked) (c_out c), c_drophead_dropped := c_drophead_dropped c + 1\<rparr>)"
  have "c_out_bytes ?c \<le> c_out_bytes c" by (simp add: release_def)
  with 1 [OF _ refl refl] show ?case
    by (subst drop_head.simps) (auto simp: Let_def case_prod_unfold dest: order_trans)
qed

lemma queue_and_take_grows:
  assumes "conn_ok c" and "queue_and_take frame now c = (d, od, dh, c')"
  shows "accounted_bytes c' \<le> accounted_bytes c + length frame"
proof -
  have "c_out_bytes c' \<le> c_out_bytes c + length frame"
    using assms(2) drop_head_shrinks [of "if 0 < c_cursor c then 1 else 0" "length frame" c]
    by (auto simp: queue_and_take_def take_inflight_delta_def take_outbound_delta_def take_drophead_dropped_def
        conn_queue_def Let_def case_prod_unfold split: if_splits)
  moreover have "c_tls_unflushed c' = c_tls_unflushed c"
    using assms moves_queue [of c frame now]
    by (auto simp: queue_and_take_def take_inflight_delta_def take_outbound_delta_def take_drophead_dropped_def Let_def
        split: prod.splits)
  moreover have "kept c c'" using queue_and_take_settled [OF assms] by blast
  ultimately show ?thesis by (simp add: accounted_bytes_def kept_def)
qed

lemma shed_band_below:
  assumes "shed_band_of inflight budget \<noteq> Saturated" and "budget \<noteq> 0"
  shows "inflight < budget"
proof (rule ccontr)
  assume "\<not> inflight < budget"
  then have "\<not> unat inflight < unat budget" by (simp add: word_less_nat_alt)
  then have "unat (sat_mul budget b) \<le> unat (sat_mul inflight 100)" if "unat b \<le> 100" for b
    using that by (simp add: unat_sat_mul) (metis (no_types) linorder_not_less min.coboundedI2 min.mono mult_le_mono order_refl)
  from this [of 80] this [of 95] this [of 100] assms show False
    by (simp add: shed_band_of_def Let_def word_less_nat_alt linorder_not_less [symmetric])
qed

lemma deliver_one_cases [consumes 1, case_names same queued]:
  assumes p'_def: "deliver_one budget now close frames except (sid, tok, v) p = p'"
  obtains (same) "pu_conns p' = pu_conns p" "pu_inflight p' = pu_inflight p" "pu_outbound p' = pu_outbound p"
  | (queued) e d od dh c where "map_of (pu_conns p) tok = Some e" "shed_band_of (pu_inflight p) budget \<noteq> Saturated"
      "queue_and_take (frame_for frames v) now (en_conn e) = (d, od, dh, c)"
      "pu_conns p' = AList.update tok (e\<lparr>en_conn := c\<rparr>) (pu_conns p)" "pu_inflight p' = pu_inflight p + word_of_int d"
      "pu_outbound p' = pu_outbound p + word_of_int od"
proof (cases "shed_band_of (pu_inflight p) budget = Saturated \<or> except = Some sid \<or> tok \<in> close \<or> open_conn (pu_conns p) tok = None")
  case True
  then show ?thesis by (intro same) (auto simp: p'_def [symmetric] deliver_one_def Let_def)
next
  case False
  then obtain e where e: "open_conn (pu_conns p) tok = Some e" by auto
  then have at: "map_of (pu_conns p) tok = Some e" by (auto simp: open_conn_def split: option.splits if_splits)
  obtain d od dh c where q: "queue_and_take (frame_for frames v) now (en_conn e) = (d, od, dh, c)" by (metis prod_cases4)
  show ?thesis
  proof (cases "should_skip (shed_band_of (pu_inflight p) budget) (c_out_bytes (en_conn e)) (c_high_water (en_conn e))")
    case True
    with False e show ?thesis by (intro same) (auto simp: p'_def [symmetric] deliver_one_def Let_def)
  next
    case skip: False
    with False e q show ?thesis by (intro queued [OF at _ q]) (auto simp: p'_def [symmetric] deliver_one_def Let_def)
  qed
qed

text \<open>One delivery: the totals stay the sums, and only a worker below its budget takes on bytes.\<close>

lemma deliver_one_totals:
  assumes "totals_ok p"
  shows "totals_ok (deliver_one budget now close frames except item p)"
    and "budget \<noteq> 0 \<Longrightarrow> tally held (pu_conns p) < 2 ^ 64 \<Longrightarrow> \<forall>(v, f) \<in> set frames. length f \<le> m \<Longrightarrow> frames \<noteq> [] \<Longrightarrow>
      tally held (pu_conns (deliver_one budget now close frames except item p)) \<le>
        max (tally held (pu_conns p)) (uint budget + int m)"
proof -
  obtain sid tok v where item: "item = (sid, tok, v)" by (metis prod_cases3)
  let ?p = "deliver_one budget now close frames except item p"
  have ok: "hm_ok (pu_conns p)" using assms by (simp add: totals_ok_def)
  have r: "deliver_one budget now close frames except (sid, tok, v) p = ?p" by (simp add: item)
  from r show "totals_ok ?p"
  proof (cases rule: deliver_one_cases)
    case same
    with assms show ?thesis by (simp add: totals_ok_def)
  next
    case (queued e d od dh c)
    have c: "settled (en_conn e)" using assms queued(1) by (simp add: totals_ok_def)
    then have c': "settled c" "held (e\<lparr>en_conn := c\<rparr>) = held e + d" "owed (e\<lparr>en_conn := c\<rparr>) = owed e + od"
      using queue_and_take_settled [OF _ queued(3)] by (auto simp: settled_def on_record_def held_def owed_def)
    then have "\<forall>tok e. map_of (pu_conns ?p) tok = Some e \<longrightarrow> settled (en_conn e)"
      using assms queued(4) by (auto simp: totals_ok_def hm_simps)
    moreover have "hm_ok (pu_conns ?p)" using ok queued(4) by (simp add: hm_simps)
    ultimately show ?thesis
      using assms by (simp add: totals_ok_def queued(4-6) tally_update [OF queued(1)] c' wi_hom_syms algebra_simps)
  qed
  show "tally held (pu_conns ?p) \<le> max (tally held (pu_conns p)) (uint budget + int m)"
    if "budget \<noteq> 0" "tally held (pu_conns p) < 2 ^ 64" "\<forall>(v, f) \<in> set frames. length f \<le> m" "frames \<noteq> []"
    using r
  proof (cases rule: deliver_one_cases)
    case (queued e d od dh c)
    have "conn_ok (en_conn e)" using assms queued(1) by (simp add: totals_ok_def settled_def)
    then have "held (e\<lparr>en_conn := c\<rparr>) \<le> held e + int (length (frame_for frames v))"
      using queue_and_take_grows [OF _ queued(3)] by (simp add: held_def)
    moreover have "length (frame_for frames v) \<le> m"
      using that(3,4) by (cases frames) (auto simp: frame_for_def split: option.split dest: map_of_SomeD)
    moreover have "uint (pu_inflight p) = tally held (pu_conns p)"
      using assms that(2) tally_held_nonneg by (simp add: totals_ok_def unsigned_of_int take_bit_int_eq_self)
    ultimately show ?thesis
      using shed_band_below [OF queued(2) that(1)] by (simp add: word_less_def queued(4) tally_update [OF queued(1)])
  qed simp
qed

definition held_within :: "int \<Rightarrow> pump \<Rightarrow> bool" where
  "held_within b p \<longleftrightarrow> totals_ok p \<and> tally held (pu_conns p) \<le> b"

lemma pump_message_held_within:
  assumes "held_within b p" and "budget \<noteq> 0" and "b < 2 ^ 64" and "uint budget + int m \<le> b"
    and "\<forall>(v, f) \<in> set (bm_frames msg). length f \<le> m"
  shows "held_within b (pump_message budget now close ls msg p)"
proof -
  have "held_within b (deliver_one budget now close (bm_frames msg) (bm_except msg) item q)"
    if "held_within b q" "bm_frames msg \<noteq> []" for item q
  proof -
    have "totals_ok q" "tally held (pu_conns q) < 2 ^ 64" using that(1) assms(3) by (auto simp: held_within_def)
    from deliver_one_totals(1) [OF this(1)] deliver_one_totals(2) [OF this(1) assms(2) this(2) assms(5) that(2)]
    show ?thesis using that(1) assms(4) unfolding held_within_def by (meson dual_order.trans max.boundedI)
  qed
  then have "held_within b (fold (deliver_one budget now close (bm_frames msg) (bm_except msg)) subs p)" if "bm_frames msg \<noteq> []" for subs
    using assms(1) that by (auto intro: fold_invariant [where Q = "\<lambda>_. True"])
  with assms(1) show ?thesis by (simp add: pump_message_def split: option.split)
qed

text \<open>
  C17. The memory budget holds. Whatever the worker drains from its broadcast inbox, the bytes its
  connections hold in memory afterwards exceed the configured budget by at most one frame (unless
  they already did before, and then they have not grown), and the worker's running totals of held
  and owed bytes are still exactly the sums over its connections.
\<close>

theorem fanout_respects_budget:
  assumes "totals_ok p" and "budget \<noteq> 0"
    and "\<forall>msg \<in> set msgs. \<forall>(v, f) \<in> set (bm_frames msg). length f \<le> m"
    and "tally held (pu_conns p) < 2 ^ 64" and "uint budget + int m < 2 ^ 64"
    and "p' = drain_broadcast_inbox budget now close ls msgs p"
  shows "tally held (pu_conns p') \<le> max (tally held (pu_conns p)) (uint budget + int m) \<and>
    pu_inflight p' = word_of_int (tally held (pu_conns p')) \<and> pu_outbound p' = word_of_int (tally owed (pu_conns p'))"
proof -
  let ?b = "max (tally held (pu_conns p)) (uint budget + int m)"
  have "held_within ?b (fold (pump_message budget now close ls) msgs p)"
  proof (rule fold_invariant [where Q = "\<lambda>msg. \<forall>(v, f) \<in> set (bm_frames msg). length f \<le> m"])
    show "held_within ?b (pump_message budget now close ls msg q)"
      if "\<forall>(v, f) \<in> set (bm_frames msg). length f \<le> m" "held_within ?b q" for msg q
      using that assms(2,4,5) by (intro pump_message_held_within [where m = m]) auto
  qed (use assms(1,3) in \<open>auto simp: held_within_def\<close>)
  then show ?thesis by (simp add: assms(6) drain_broadcast_inbox_def held_within_def totals_ok_def)
qed

theorem fanout_respects_budget_witness:
  "tally held (pu_conns (drain_broadcast_inbox 1 9 {} room_subs room_msgs room_pump)) \<le> 2"
proof -
  have z: "tally held (pu_conns room_pump) = 0" "tally owed (pu_conns room_pump) = 0"
    by (simp_all add: room_pump_def tally_def held_def owed_def example_entry_def conn_new_def accounted_bytes_def
        outbound_bytes_def)
  have t: "totals_ok room_pump"
    unfolding totals_ok_def z
    by (auto simp: room_pump_def hm_ok_def settled_def conn_ok_def cursor_ok_def example_entry_def conn_new_def split: if_splits)
  have m: "\<forall>msg \<in> set room_msgs. \<forall>(v, f) \<in> set (bm_frames msg). length f \<le> 1" by (simp add: room_msgs_def)
  from fanout_respects_budget [OF t _ m _ _ refl, of 1 9 "{}" room_subs] z show ?thesis by simp
qed

end
