(* ===== verification/Admission.thy ===== *)
theory Admission
  imports Worker_Index
begin

text \<open>
  Admission of a connection and its release, from \<open>finish_establish\<close>, \<open>queue_reject\<close> and the
  counters part of \<open>remove\<close> in \<^verbatim>\<open>src/transport/worker.rs\<close>. The counters are shared by all the
  workers of the node. An establish or a release is several atomic operations on them; both are
  composed here from those operations, so that they can be run as a whole and interleaved.
\<close>


section \<open>The environment and the counters\<close>

text \<open>
  \<open>ev_saturated\<close> and \<open>ev_cluster\<close> say that the saturation flag and the cluster bridge are wired.
\<close>

record dispatch_env =
  ev_limits :: limits
  ev_activity_timeout :: nat
  ev_pong_timeout :: nat
  ev_max_conn_lifetime_secs :: u64
  ev_strict_protocol :: bool
  ev_saturated :: bool
  ev_clustered :: bool
  ev_cluster :: bool
  ev_max_connections :: nat
  ev_mailbox_capacity :: nat

text \<open>
  The per-application counters live at addresses, since a session keeps its counter after the
  map has dropped it. They count connections, and are kept as integers to see that none goes
  below zero. \<open>sh_chans\<close> is the next unused mailbox address.
\<close>

record shared =
  sh_node_conns :: int
  sh_conn_counts :: "(string \<times> nat) list"
  sh_counters :: "nat \<Rightarrow> int"
  sh_fresh :: nat
  sh_chans :: nat

definition node_add :: "int \<Rightarrow> shared \<Rightarrow> shared" where
  "node_add d sh = sh\<lparr>sh_node_conns := sh_node_conns sh + d\<rparr>"

definition counter_add :: "nat \<Rightarrow> int \<Rightarrow> shared \<Rightarrow> shared" where
  "counter_add a d sh = sh\<lparr>sh_counters := (sh_counters sh)(a := sh_counters sh a + d)\<rparr>"

definition counter_of :: "string \<Rightarrow> shared \<Rightarrow> nat \<times> shared" where
  "counter_of app sh =
     (case map_of (sh_conn_counts sh) app of
        Some a \<Rightarrow> (a, sh)
      | None \<Rightarrow>
        (let a = sh_fresh sh
         in (a, sh\<lparr>sh_conn_counts := AList.update app a (sh_conn_counts sh),
                   sh_counters := (sh_counters sh)(a := 0), sh_fresh := Suc a\<rparr>)))"

definition drop_idle_counter :: "string \<Rightarrow> shared \<Rightarrow> shared" where
  "drop_idle_counter app sh =
     (case map_of (sh_conn_counts sh) app of
        Some a \<Rightarrow> if sh_counters sh a = 0 then sh\<lparr>sh_conn_counts := AList.delete app (sh_conn_counts sh)\<rparr> else sh
      | None \<Rightarrow> sh)"


section \<open>Establishing a session\<close>

record reject =
  rj_error :: pusher_error
  rj_codec :: "codec option"

text \<open>
  The answer of the cluster bridge is the parameter \<open>admit\<close>, and \<open>draws\<close> are the two random
  numbers of the socket id.
\<close>

definition open_mailbox :: "nat \<Rightarrow> nat \<Rightarrow> mailboxes \<Rightarrow> mailboxes" where
  "open_mailbox a cap w =
     w\<lparr>chans := (chans w)(a := \<lparr>queue = [], capacity = max cap 1, receiver_alive = True\<rparr>)\<rparr>"

definition new_context ::
  "dispatch_env \<Rightarrow> app \<Rightarrow> socket_id \<Rightarrow> nat \<Rightarrow> codec \<Rightarrow> mailbox_notify \<Rightarrow> nat option \<Rightarrow> connection_context" where
  "new_context env app sid tx c note dropped_slot =
     \<lparr>cx_app = app, cx_socket_id = sid, cx_self_tx = tx, cx_limits = ev_limits env, cx_subscribed = [],
      cx_user = None, cx_presence_membership = [],
      cx_client_event_rate = rate_window_new (max_client_events_per_second (ev_limits env)),
      cx_saturated = ev_saturated env, cx_clustered = ev_clustered env, cx_mailbox_notify = Some note,
      cx_mailbox_dropped = dropped_slot, cx_capabilities = codec_capabilities c\<rparr>"

definition register_session ::
  "dispatch_env \<Rightarrow> app \<Rightarrow> nat \<times> nat \<Rightarrow> codec \<Rightarrow> mailbox_notify \<Rightarrow> nat option \<Rightarrow> nat \<Rightarrow> bool
     \<Rightarrow> shared \<times> 'c local_adapter node \<Rightarrow> session \<times> shared \<times> 'c local_adapter node" where
  "register_session env app draws c note dropped_slot counter admitted shn =
     (case shn of (sh, n) \<Rightarrow>
       (let sid = generate (fst draws) (snd draws);
            tx = sh_chans sh;
            cx = new_context env app sid tx c note dropped_slot;
            n1 = n\<lparr>nd_mail := open_mailbox tx (ev_mailbox_capacity env) (nd_mail n),
                   nd_state := (nd_state n)\<lparr>la_apps := app_insert (app_id app) (cx_handle cx) (la_apps (nd_state n))\<rparr>\<rparr>
        in (\<lparr>se_ctx = cx, se_codec = c, se_conn_count = counter, se_subs = [], se_cluster_admitted = admitted\<rparr>,
            sh\<lparr>sh_chans := Suc tx\<rparr>, n1)))"

definition finish_establish ::
  "(string \<Rightarrow> nat \<Rightarrow> bool option) \<Rightarrow> dispatch_env \<Rightarrow> app \<Rightarrow> nat \<times> nat \<Rightarrow> codec \<Rightarrow> mailbox_notify \<Rightarrow> nat option
     \<Rightarrow> shared \<times> 'c local_adapter node \<Rightarrow> (reject + session) \<times> shared \<times> 'c local_adapter node" where
  "finish_establish admit env app draws c note dropped_slot shn =
     (case shn of (sh, n) \<Rightarrow>
       (let node_n = sh_node_conns sh;
            sh1 = node_add 1 sh;
            refuse = (\<lambda>err sh'. (Inl \<lparr>rj_error = err, rj_codec = Some c\<rparr>, node_add (-1) sh', n))
        in if ev_max_connections env \<noteq> 0 \<and> int (ev_max_connections env) \<le> node_n then refuse server_over_capacity sh1
           else if ev_saturated env \<and> is_saturated (nd_fan n) then refuse server_over_capacity sh1
           else
             (let (counter, sh2) = counter_of (app_id app) sh1;
                  current = sh_counters sh2 counter;
                  sh3 = counter_add counter 1 sh2
              in if app_capacity app \<noteq> 0 \<and> int (app_capacity app) \<le> current
                 then refuse over_capacity (counter_add counter (-1) sh3)
                 else case (if app_capacity app \<noteq> 0 \<and> ev_cluster env then admit (app_id app) (app_capacity app) else None) of
                   Some False \<Rightarrow> refuse over_capacity (counter_add counter (-1) sh3)
                 | verdict \<Rightarrow>
                   (let (s, shn') = register_session env app draws c note dropped_slot counter (verdict = Some True) (sh3, n)
                    in (Inr s, shn')))))"

definition queue_reject :: "serde_json \<Rightarrow> reject \<Rightarrow> u64 \<Rightarrow> entry \<Rightarrow> entry" where
  "queue_reject sj rj now e =
     queue_close_frame (err_code (rj_error rj)) (err_message (rj_error rj)) now
       (entry_queue (text_frame (error_text sj (rj_codec rj) (rj_error rj))) now e)"

text \<open>The counters part of \<open>remove\<close>, once the session's hooks have run.\<close>

definition release_session :: "session \<Rightarrow> shared \<Rightarrow> shared" where
  "release_session s sh =
     node_add (-1) (drop_idle_counter (session_app s) (counter_add (se_conn_count s) (-1) sh))"


section \<open>Whole establishes and releases\<close>

text \<open>
  Any sequence of establishes and releases on the node, each run as a whole. The rest of the
  process moves between them, so an establish brings the node it finds.
\<close>

datatype 'c admission_op =
    Establish "string \<Rightarrow> nat \<Rightarrow> bool option" dispatch_env app "nat \<times> nat" codec mailbox_notify "nat option"
      "'c local_adapter node"
  | Release nat

fun admission_step :: "session list \<times> shared \<Rightarrow> 'c admission_op \<Rightarrow> session list \<times> shared" where
  "admission_step (live, sh) (Establish admit env app draws c note slot n) =
     (case finish_establish admit env app draws c note slot (sh, n) of
        (Inr s, sh', _) \<Rightarrow> (live @ [s], sh')
      | (Inl _, sh', _) \<Rightarrow> (live, sh'))"
| "admission_step (live, sh) (Release i) =
     (if i < length live then (take i live @ drop (Suc i) live, release_session (live ! i) sh) else (live, sh))"

definition of_app :: "string \<Rightarrow> session list \<Rightarrow> nat" where
  "of_app app live = length (filter (\<lambda>s. session_app s = app) live)"

definition no_connections :: shared where
  "no_connections = \<lparr>sh_node_conns = 0, sh_conn_counts = [], sh_counters = (\<lambda>_. 0), sh_fresh = 0, sh_chans = 0\<rparr>"

text \<open>The counters are the numbers of live sessions, and every live session holds its application's counter.\<close>

definition apps_ok :: "session list \<Rightarrow> shared \<Rightarrow> bool" where
  "apps_ok live sh \<longleftrightarrow> hm_ok (sh_conn_counts sh) \<and>
     (\<forall>app a. map_of (sh_conn_counts sh) app = Some a \<longrightarrow> a < sh_fresh sh \<and> sh_counters sh a = int (of_app app live)) \<and>
     (\<forall>app app' a. map_of (sh_conn_counts sh) app = Some a \<longrightarrow> map_of (sh_conn_counts sh) app' = Some a \<longrightarrow> app = app') \<and>
     (\<forall>s \<in> set live. map_of (sh_conn_counts sh) (session_app s) = Some (se_conn_count s))"

definition counts_ok :: "session list \<times> shared \<Rightarrow> bool" where
  "counts_ok ls \<longleftrightarrow> sh_node_conns (snd ls) = int (length (fst ls)) \<and> apps_ok (fst ls) (snd ls)"

lemma counts_ok_start: "counts_ok ([], no_connections)"
  by (simp add: counts_ok_def apps_ok_def no_connections_def)

lemma of_app_snoc [simp]: "of_app app (live @ [s]) = of_app app live + (if session_app s = app then 1 else 0)"
  by (simp add: of_app_def)

lemma of_app_remove:
  "i < length live \<Longrightarrow>
     of_app app live = of_app app (take i live @ drop (Suc i) live) + (if session_app (live ! i) = app then 1 else 0)"
  by (subst id_take_nth_drop [of i live]) (auto simp: of_app_def)

lemma of_app_zero: "of_app app live = 0 \<longleftrightarrow> (\<forall>s \<in> set live. session_app s \<noteq> app)"
  by (simp add: of_app_def filter_empty_conv)

lemma apps_ok_node [simp]: "apps_ok live (node_add d sh) = apps_ok live sh"
  by (simp add: apps_ok_def node_add_def)

lemma counter_of_correct:
  assumes "apps_ok live sh" and "counter_of app sh = (a, sh')"
  shows "apps_ok live sh' \<and> map_of (sh_conn_counts sh') app = Some a \<and> sh_counters sh' a = int (of_app app live) \<and>
    sh_node_conns sh' = sh_node_conns sh"
proof (cases "map_of (sh_conn_counts sh) app")
  case None
  then have "of_app app live = 0" using assms(1) by (auto simp: apps_ok_def of_app_zero)
  moreover have fresh: "a' < sh_fresh sh" if "map_of (sh_conn_counts sh) app' = Some a'" for app' a'
    using assms(1) that by (auto simp: apps_ok_def)
  ultimately show ?thesis using None assms
    by (auto simp: apps_ok_def counter_of_def Let_def hm_simps split: if_splits dest: fresh intro: fresh [THEN less_SucI])
next
  case (Some a')
  with assms show ?thesis by (auto simp: counter_of_def apps_ok_def)
qed

lemma counter_add_undo [simp]: "counter_add a (-1) (counter_add a 1 sh) = sh"
  by (simp add: counter_add_def)

lemma node_add_conns [simp]: "sh_node_conns (node_add d sh) = sh_node_conns sh + d"
  by (simp add: node_add_def)

lemma counter_add_conns [simp]: "sh_node_conns (counter_add a d sh) = sh_node_conns sh"
  by (simp add: counter_add_def)

lemma apps_ok_admitted:
  assumes "apps_ok live sh" and "map_of (sh_conn_counts sh) (session_app s) = Some (se_conn_count s)"
  shows "apps_ok (live @ [s]) ((counter_add (se_conn_count s) 1 sh)\<lparr>sh_chans := b\<rparr>)"
  using assms by (auto simp: apps_ok_def counter_add_def)

lemma register_session_fields:
  "register_session env app draws c note slot counter admitted (sh, n) = (s, sh', n') \<Longrightarrow>
     session_app s = app_id app \<and> se_conn_count s = counter \<and> (\<exists>b. sh' = sh\<lparr>sh_chans := b\<rparr>)"
  by (auto simp: register_session_def Let_def session_app_def new_context_def)

lemma finish_establish_counts:
  assumes "finish_establish admit env app draws c note slot (sh, n) = (res, sh', n')" and "counts_ok (live, sh)"
  shows "case res of
      Inl _ \<Rightarrow> counts_ok (live, sh')
    | Inr s \<Rightarrow> counts_ok (live @ [s], sh') \<and> session_app s = app_id app \<and>
        (ev_max_connections env \<noteq> 0 \<longrightarrow> length live < ev_max_connections env) \<and>
        (app_capacity app \<noteq> 0 \<longrightarrow> of_app (app_id app) live < app_capacity app)"
proof -
  obtain a sh2 where a: "counter_of (app_id app) (node_add 1 sh) = (a, sh2)" by fastforce
  note c = counter_of_correct [OF _ a]
  from assms c show ?thesis
    by (auto simp: finish_establish_def Let_def a counts_ok_def split: if_splits option.splits bool.splits prod.splits
        dest!: register_session_fields intro!: apps_ok_admitted)
qed

lemma apps_ok_released:
  assumes "apps_ok live sh" and "i < length live" and "live' = take i live @ drop (Suc i) live"
  shows "apps_ok live' (counter_add (se_conn_count (live ! i)) (-1) sh)"
proof -
  let ?s = "live ! i"
  have here: "map_of (sh_conn_counts sh) (session_app ?s) = Some (se_conn_count ?s)"
    using assms by (simp add: apps_ok_def)
  have sub: "set live' \<subseteq> set live" using assms(3) by (auto dest: in_set_takeD in_set_dropD)
  have cnt: "sh_counters (counter_add (se_conn_count ?s) (-1) sh) a = int (of_app app live')"
    if "map_of (sh_conn_counts sh) app = Some a" for app a
  proof -
    have "a = se_conn_count ?s \<longleftrightarrow> app = session_app ?s" using assms(1) here that unfolding apps_ok_def by (metis option.inject)
    then show ?thesis
      using assms(1) that of_app_remove [OF assms(2), of app] by (auto simp: apps_ok_def counter_add_def assms(3))
  qed
  show ?thesis using assms(1) sub cnt unfolding apps_ok_def by (auto simp: counter_add_def)
qed

lemma apps_ok_drop_idle: "apps_ok live sh \<Longrightarrow> apps_ok live (drop_idle_counter app sh)"
  by (auto simp: apps_ok_def drop_idle_counter_def of_app_zero hm_simps split: option.split)

lemma drop_idle_conns [simp]: "sh_node_conns (drop_idle_counter app sh) = sh_node_conns sh"
  by (simp add: drop_idle_counter_def split: option.split)

lemma release_counts:
  assumes "counts_ok (live, sh)" and "i < length live"
  shows "counts_ok (take i live @ drop (Suc i) live, release_session (live ! i) sh)"
  using assms apps_ok_released [OF _ assms(2) refl]
  by (auto simp: counts_ok_def release_session_def intro: apps_ok_drop_idle)

lemma admission_step_counts: "counts_ok ls \<Longrightarrow> counts_ok (admission_step ls x)"
proof (induction ls x rule: admission_step.induct)
  case (1 live sh admit env app draws c nt slot n)
  then show ?case
    using finish_establish_counts [of admit env app draws c nt slot sh n _ _ _ live]
    by (auto split: prod.split sum.split)
next
  case (2 live sh i)
  then show ?case by (simp add: release_counts)
qed

interpretation admission: machine admission_step counts_ok
  by unfold_locales (rule admission_step_counts)

text \<open>The configuration an establish brings: the node's ceiling and its application's capacity.\<close>

fun establishes_with :: "nat \<Rightarrow> (string \<Rightarrow> nat) \<Rightarrow> 'c admission_op \<Rightarrow> bool" where
  "establishes_with ceil caps (Establish _ env app _ _ _ _ _) \<longleftrightarrow>
     ev_max_connections env = ceil \<and> app_capacity app = caps (app_id app)"
| "establishes_with ceil caps (Release _) \<longleftrightarrow> True"

definition under_limits :: "nat \<Rightarrow> (string \<Rightarrow> nat) \<Rightarrow> session list \<Rightarrow> bool" where
  "under_limits ceil caps live \<longleftrightarrow>
     (ceil \<noteq> 0 \<longrightarrow> length live \<le> ceil) \<and> (\<forall>app. caps app \<noteq> 0 \<longrightarrow> of_app app live \<le> caps app)"

lemma admission_step_limits:
  assumes "counts_ok ls" and "under_limits ceil caps (fst ls)" and "establishes_with ceil caps x"
  shows "under_limits ceil caps (fst (admission_step ls x))"
  using assms
proof (induction ls x rule: admission_step.induct)
  case (1 live sh admit env app draws c nt slot n)
  obtain res sh' n' where r: "finish_establish admit env app draws c nt slot (sh, n) = (res, sh', n')"
    by (metis prod_cases3)
  from finish_establish_counts [OF r 1(1)] 1(2,3) show ?case
    by (auto simp: r under_limits_def split: sum.splits)
next
  case (2 live sh i)
  have "of_app app (take i live @ drop (Suc i) live) \<le> of_app app live" if "i < length live" for app
    using of_app_remove [OF that, of app] by simp
  with 2(2) show ?case unfolding under_limits_def by (auto intro: order_trans)
qed

lemma admission_run_limits:
  assumes "counts_ok ls" and "under_limits ceil caps (fst ls)" and "\<forall>x \<in> set ops. establishes_with ceil caps x"
  shows "under_limits ceil caps (fst (foldl admission_step ls ops))"
  using assms
  by (induction ops arbitrary: ls) (simp_all add: admission_step_limits admission_step_counts)

text \<open>
  C18. As long as establishes and releases run as a whole, any sequence of them leaves exactly the
  live sessions counted, on the node and per application, and admits no connection over the
  node's ceiling or over its application's capacity. A refused establish gives back all it took.
\<close>

theorem admission_counts_and_limits:
  assumes "foldl admission_step ([], no_connections) ops = (live, sh)"
    and "\<forall>x \<in> set ops. establishes_with ceil caps x"
  shows "sh_node_conns sh = int (length live) \<and>
    (\<forall>s \<in> set live. sh_counters sh (se_conn_count s) = int (of_app (session_app s) live)) \<and>
    (ceil \<noteq> 0 \<longrightarrow> length live \<le> ceil) \<and> (\<forall>app. caps app \<noteq> 0 \<longrightarrow> of_app app live \<le> caps app)"
proof -
  have "counts_ok (live, sh)"
    using admission.run_invar [OF counts_ok_start, of ops] assms(1) by simp
  moreover have "under_limits ceil caps live"
    using admission_run_limits [OF counts_ok_start _ assms(2)] assms(1) by (simp add: under_limits_def of_app_def)
  ultimately show ?thesis by (auto simp: counts_ok_def apps_ok_def under_limits_def)
qed

definition example_env :: dispatch_env where
  "example_env = \<lparr>ev_limits = example_limits, ev_activity_timeout = 120, ev_pong_timeout = 30,
     ev_max_conn_lifetime_secs = 0, ev_strict_protocol = False, ev_saturated = True, ev_clustered = False,
     ev_cluster = False, ev_max_connections = 100, ev_mailbox_capacity = 16\<rparr>"

definition lone_app :: app where
  "lone_app = example_app\<lparr>app_capacity := 1\<rparr>"

definition connect :: "nat \<Rightarrow> unit admission_op" where
  "connect i = Establish (\<lambda>_ _. None) example_env lone_app (i, i) V7Codec \<lparr>token = i, dirty = 0\<rparr> None example_node"

theorem admission_counts_and_limits_witness:
  "let (live, sh) = foldl admission_step ([], no_connections) [connect 1, connect 2, Release 0, connect 3]
   in sh_node_conns sh = int (length live) \<and> of_app ''a'' live \<le> 1 \<and>
      map (\<lambda>s. cx_socket_id (se_ctx s)) live = [from_raw ''3.3'']"
proof -
  let ?ops = "[connect 1, connect 2, Release 0, connect 3]"
  have "\<forall>x \<in> set ?ops. establishes_with 100 (\<lambda>_. 1) x"
    by (simp add: connect_def example_env_def lone_app_def)
  from admission_counts_and_limits [OF surjective_pairing this]
  have "sh_node_conns (snd (foldl admission_step ([], no_connections) ?ops)) =
      int (length (fst (foldl admission_step ([], no_connections) ?ops))) \<and>
      of_app ''a'' (fst (foldl admission_step ([], no_connections) ?ops)) \<le> 1"
    by (metis One_nat_def zero_neq_one)
  moreover have "map (\<lambda>s. cx_socket_id (se_ctx s)) (fst (foldl admission_step ([], no_connections) ?ops)) = [from_raw ''3.3'']"
    by code_simp
  ultimately show ?thesis by (simp only: Let_def case_prod_unfold)
qed


section \<open>Interleaved establishes and releases\<close>

text \<open>
  Workers run concurrently, so the atomic operations of an establish on one worker interleave
  with those of a release on another. \<open>Counted\<close> is between the lookup of the counter and its
  increment, \<open>OverNode\<close> and \<open>Over\<close> between an increment and its undo, \<open>Leaving\<close> between the decrement and the
  removal of an idle counter.
\<close>

datatype thread =
    Arriving app
  | OverNode
  | Entering app
  | Counted app nat
  | Over app nat
  | Live app nat
  | Leaving app
  | Gone

inductive admit_step :: "nat \<Rightarrow> (nat \<Rightarrow> thread) \<times> shared \<Rightarrow> (nat \<Rightarrow> thread) \<times> shared \<Rightarrow> bool" for ceil :: nat where
  enter: "t i = Arriving app \<Longrightarrow> \<not> (ceil \<noteq> 0 \<and> int ceil \<le> sh_node_conns sh) \<Longrightarrow>
    admit_step ceil (t, sh) (t(i := Entering app), node_add 1 sh)"
| overflow: "t i = Arriving app \<Longrightarrow> ceil \<noteq> 0 \<and> int ceil \<le> sh_node_conns sh \<Longrightarrow>
    admit_step ceil (t, sh) (t(i := OverNode), node_add 1 sh)"
| turn_away: "t i = OverNode \<Longrightarrow> admit_step ceil (t, sh) (t(i := Gone), node_add (-1) sh)"
| look_up: "t i = Entering app \<Longrightarrow> counter_of (app_id app) sh = (a, sh') \<Longrightarrow>
    admit_step ceil (t, sh) (t(i := Counted app a), sh')"
| take: "t i = Counted app a \<Longrightarrow> \<not> (app_capacity app \<noteq> 0 \<and> int (app_capacity app) \<le> sh_counters sh a) \<Longrightarrow>
    admit_step ceil (t, sh) (t(i := Live app a), counter_add a 1 sh)"
| overtake: "t i = Counted app a \<Longrightarrow> app_capacity app \<noteq> 0 \<and> int (app_capacity app) \<le> sh_counters sh a \<Longrightarrow>
    admit_step ceil (t, sh) (t(i := Over app a), counter_add a 1 sh)"
| refuse: "t i = Over app a \<Longrightarrow> admit_step ceil (t, sh) (t(i := Gone), node_add (-1) (counter_add a (-1) sh))"
| leave: "t i = Live app a \<Longrightarrow> admit_step ceil (t, sh) (t(i := Leaving app), counter_add a (-1) sh)"
| drop: "t i = Leaving app \<Longrightarrow>
    admit_step ceil (t, sh) (t(i := Gone), node_add (-1) (drop_idle_counter (app_id app) sh))"

text \<open>Run without interruption, the steps are an establish.\<close>

lemma establish_is_steps:
  assumes "finish_establish admit env app draws c nt slot (sh, n) = (Inr s, sh', n')" and "t i = Arriving app"
  shows "(admit_step (ev_max_connections env))\<^sup>*\<^sup>* (t, sh) (t(i := Live app (se_conn_count s)), sh'\<lparr>sh_chans := sh_chans sh\<rparr>)"
proof -
  obtain a sh2 where a: "counter_of (app_id app) (node_add 1 sh) = (a, sh2)" by fastforce
  let ?step = "admit_step (ev_max_connections env)"
  have g: "\<not> (ev_max_connections env \<noteq> 0 \<and> int (ev_max_connections env) \<le> sh_node_conns sh)"
      "\<not> (app_capacity app \<noteq> 0 \<and> int (app_capacity app) \<le> sh_counters sh2 a)"
      "se_conn_count s = a" "\<exists>b. sh' = (counter_add a 1 sh2)\<lparr>sh_chans := b\<rparr>"
    using assms(1)
    by (auto simp: finish_establish_def Let_def a split: if_splits option.splits bool.splits prod.splits
        dest!: register_session_fields)
  have chans: "sh_chans (counter_add a 1 sh2) = sh_chans sh"
    using a by (auto simp: counter_of_def counter_add_def node_add_def Let_def split: option.splits)
  have "?step\<^sup>*\<^sup>* (t, sh) (t(i := Entering app), node_add 1 sh)" using assms(2) g(1) by (intro r_into_rtranclp enter)
  also have "?step (t(i := Entering app), node_add 1 sh) (t(i := Entering app, i := Counted app a), sh2)"
    using a by (intro look_up) simp_all
  also have "?step (t(i := Entering app, i := Counted app a), sh2) (t(i := Entering app, i := Counted app a, i := Live app a), counter_add a 1 sh2)"
    using g(2) by (intro take) simp_all
  finally have "?step\<^sup>*\<^sup>* (t, sh) (t(i := Live app a), counter_add a 1 sh2)" by simp
  moreover have "(counter_add a 1 sh2)\<lparr>sh_chans := sh_chans sh\<rparr> = counter_add a 1 sh2" by (simp add: chans [symmetric])
  ultimately show ?thesis using g(3,4) by auto
qed

text \<open>The next atomic operation of thread \<open>i\<close>.\<close>

definition advance :: "nat \<Rightarrow> nat \<Rightarrow> (nat \<Rightarrow> thread) \<times> shared \<Rightarrow> (nat \<Rightarrow> thread) \<times> shared" where
  "advance ceil i ts =
     (case ts of (t, sh) \<Rightarrow>
       (case t i of
          Arriving app \<Rightarrow>
            (if ceil \<noteq> 0 \<and> int ceil \<le> sh_node_conns sh then (t(i := OverNode), node_add 1 sh)
             else (t(i := Entering app), node_add 1 sh))
        | OverNode \<Rightarrow> (t(i := Gone), node_add (-1) sh)
        | Entering app \<Rightarrow> (let (a, sh') = counter_of (app_id app) sh in (t(i := Counted app a), sh'))
        | Counted app a \<Rightarrow>
            (if app_capacity app \<noteq> 0 \<and> int (app_capacity app) \<le> sh_counters sh a then (t(i := Over app a), counter_add a 1 sh)
             else (t(i := Live app a), counter_add a 1 sh))
        | Over app a \<Rightarrow> (t(i := Gone), node_add (-1) (counter_add a (-1) sh))
        | Live app a \<Rightarrow> (t(i := Leaving app), counter_add a (-1) sh)
        | Leaving app \<Rightarrow> (t(i := Gone), node_add (-1) (drop_idle_counter (app_id app) sh))
        | Gone \<Rightarrow> (t, sh)))"

lemma advance_steps: "(admit_step ceil)\<^sup>*\<^sup>* ts (advance ceil i ts)"
proof (cases ts)
  case (Pair t sh)
  then show ?thesis
    by (cases "t i") (auto simp: advance_def split: prod.split intro: r_into_rtranclp admit_step.intros)
qed

lemma schedule_steps: "(admit_step ceil)\<^sup>*\<^sup>* ts (fold (advance ceil) is ts)"
proof (induction "is" arbitrary: ts)
  case (Cons i "is")
  from advance_steps [of ceil ts i] Cons.IH show ?case by (metis fold_simps(2) rtranclp_trans)
qed simp

text \<open>
  C19. Interleaved establishes and releases can exceed an application's capacity. A worker looks up
  the counter of an application of capacity one; before it increments it, another worker
  releases the last session and removes the counter, now zero, from the map. The first worker
  then counts its session on the orphaned counter, and a third establish starts a new one: both
  are admitted.
\<close>

theorem capacity_exceeded_by_race:
  "app_capacity lone_app = 1 \<and>
   (\<exists>t sh a b. (admit_step 100)\<^sup>*\<^sup>* (\<lambda>_. Arriving lone_app, no_connections) (t, sh) \<and>
      t 1 = Live lone_app a \<and> t 2 = Live lone_app b \<and> a \<noteq> b)"
proof -
  let ?final = "fold (advance 100) [0, 0, 0, 1, 1, 0, 0, 1, 2, 2, 2] (\<lambda>_. Arriving lone_app, no_connections)"
  have "fst ?final 1 = Live lone_app 0 \<and> fst ?final 2 = Live lone_app 1"
    by (simp add: advance_def counter_of_def drop_idle_counter_def no_connections_def node_add_def counter_add_def
        lone_app_def Let_def)
  moreover have "(admit_step 100)\<^sup>*\<^sup>* (\<lambda>_. Arriving lone_app, no_connections) (fst ?final, snd ?final)"
    unfolding prod.collapse by (rule schedule_steps)
  moreover have "app_capacity lone_app = 1" by (simp add: lone_app_def)
  ultimately show ?thesis by (metis zero_neq_one)
qed

end
