(* ===== verification/Worker.thy ===== *)
theory Worker
  imports Admission Handshake Timer_Wheel
begin

text \<open>
  The event loop of one worker, from \<^verbatim>\<open>src/transport/worker.rs\<close>: accepting, the opening
  handshake, readable and writable connections, the drains of broadcasts, mailboxes and app
  lookups, the timers, and the shutdown. The clock, the readiness of the sockets and the answers
  of other threads are inputs of an iteration.
\<close>


section \<open>State\<close>

text \<open>
  What the worker is given: the libraries, its configuration, its index among the workers, the
  choice of a vacant slab key, and the sequence of random draws for socket ids.
\<close>

record 'c host =
  h_json :: serde_json
  h_crypto :: crypto
  h_crates :: crates
  h_moka :: "'c moka"
  h_cfg :: worker_config
  h_env :: dispatch_env
  h_tls :: bool
  h_id :: nat
  h_vacant :: "nat list \<Rightarrow> nat"
  h_draws :: "nat \<Rightarrow> nat \<times> nat"

definition h_adapter :: "'c host \<Rightarrow> 'c local_adapter adapter" where
  "h_adapter h = local_impl (h_json h) (h_moka h)"

text \<open>
  The local variables of \<open>run\<close>, with the shared counters and the node. \<open>wk_lookups\<close> are the app
  lookups it has spawned, \<open>wk_handoffs\<close> the prefixes of the connections given to the REST plane,
  and \<open>wk_released\<close> the apps whose cluster unit it has given back.
\<close>

record 'c worker =
  wk_conns :: slab
  wk_subs :: local_subs
  wk_wheel :: timer_wheel
  wk_inflight :: u64
  wk_outbound :: u64
  wk_codel :: u64
  wk_drophead :: u64
  wk_next_gen :: u64
  wk_accepts :: token_bucket
  wk_accepted :: u64
  wk_accept_limited :: u64
  wk_frame_limited :: u64
  wk_handshake_timeouts :: u64
  wk_drawn :: nat
  wk_lookups :: "(nat \<times> u64 \<times> string) list"
  wk_handoffs :: "byte list list"
  wk_released :: "string list"
  wk_did_work :: bool
  wk_draining :: bool
  wk_stopped :: bool
  wk_shared :: shared
  wk_node :: "'c local_adapter node"

text \<open>The worker as \<open>run\<close> sets it up, before the first iteration. Both timeouts are 32-bit in the source.\<close>

definition worker_new :: "'c host \<Rightarrow> shared \<Rightarrow> 'c local_adapter node \<Rightarrow> 'c worker" where
  "worker_new h sh n =
     \<lparr>wk_conns = [], wk_subs = [],
      wk_wheel = (case cf_mode (h_cfg h) of
                    Dispatch \<Rightarrow> with_timeouts (of_nat (ev_activity_timeout (h_env h))) (of_nat (ev_pong_timeout (h_env h)))
                  | Echo \<Rightarrow> with_timeouts 0 0),
      wk_inflight = 0, wk_outbound = 0, wk_codel = 0, wk_drophead = 0, wk_next_gen = 0,
      wk_accepts = token_bucket_new (cf_max_accepts_per_second (h_cfg h)) (cf_max_accepts_per_second (h_cfg h)),
      wk_accepted = 0, wk_accept_limited = 0, wk_frame_limited = 0, wk_handshake_timeouts = 0, wk_drawn = 0,
      wk_lookups = [], wk_handoffs = [], wk_released = [], wk_did_work = True, wk_draining = False, wk_stopped = False,
      wk_shared = sh, wk_node = n\<rparr>"

definition put_entry :: "nat \<Rightarrow> entry \<Rightarrow> 'c worker \<Rightarrow> 'c worker" where
  "put_entry key e w = w\<lparr>wk_conns := AList.update key e (wk_conns w)\<rparr>"


section \<open>Accounting\<close>

definition fold_delta :: "nat \<Rightarrow> 'c worker \<Rightarrow> 'c worker" where
  "fold_delta key w =
     (case map_of (wk_conns w) key of
        None \<Rightarrow> w
      | Some e \<Rightarrow>
        (let (delta, c1) = take_inflight_delta (en_conn e);
             (out_delta, c2) = take_outbound_delta c1
         in (put_entry key (e\<lparr>en_conn := c2\<rparr>) w)
              \<lparr>wk_inflight := wk_inflight w + word_of_int delta, wk_outbound := wk_outbound w + word_of_int out_delta\<rparr>))"

definition fold_codel :: "nat \<Rightarrow> 'c worker \<Rightarrow> 'c worker" where
  "fold_codel key w =
     (case map_of (wk_conns w) key of
        None \<Rightarrow> w
      | Some e \<Rightarrow>
        (let (n, c) = take_codel_dropped (en_conn e)
         in (put_entry key (e\<lparr>en_conn := c\<rparr>) w)\<lparr>wk_codel := wk_codel w + n\<rparr>))"

definition fold_drophead :: "nat \<Rightarrow> 'c worker \<Rightarrow> 'c worker" where
  "fold_drophead key w =
     (case map_of (wk_conns w) key of
        None \<Rightarrow> w
      | Some e \<Rightarrow>
        (let (n, c) = take_drophead_dropped (en_conn e)
         in (put_entry key (e\<lparr>en_conn := c\<rparr>) w)\<lparr>wk_drophead := wk_drophead w + n\<rparr>))"

text \<open>The entry leaves the slab: its change is folded and what it still holds is subtracted.\<close>

definition take_entry :: "nat \<Rightarrow> entry \<Rightarrow> 'c worker \<Rightarrow> 'c worker" where
  "take_entry key e w =
     (let (delta, c1) = take_inflight_delta (en_conn e);
          (out_delta, c2) = take_outbound_delta c1
      in w\<lparr>wk_conns := AList.delete key (wk_conns w),
           wk_inflight := wk_inflight w + word_of_int delta - of_nat (accounted_bytes c2),
           wk_outbound := wk_outbound w + word_of_int out_delta - of_nat (outbound_bytes c2)\<rparr>)"


section \<open>Teardown\<close>

text \<open>The session's hooks and counters; dropping the session closes its mailbox.\<close>

definition close_session :: "'c host \<Rightarrow> session \<Rightarrow> 'c worker \<Rightarrow> 'c worker" where
  "close_session h s w =
     (let ls = deindex_connection s (wk_subs w);
          (cx, n1) = on_close (h_adapter h) (se_ctx s, wk_node w);
          st = nd_state n1;
          mail = nd_mail n1;
          a = cx_self_tx cx;
          n2 = n1\<lparr>nd_state := st\<lparr>la_apps := app_remove (session_app s) (cx_socket_id cx) (la_apps st)\<rparr>,
                  nd_mail := mail\<lparr>chans := (chans mail)(a := (chans mail a)\<lparr>receiver_alive := False\<rparr>)\<rparr>\<rparr>
      in w\<lparr>wk_subs := ls, wk_node := n2, wk_shared := release_session s (wk_shared w),
           wk_released := (if se_cluster_admitted s \<and> ev_cluster (h_env h) then wk_released w @ [session_app s]
                           else wk_released w)\<rparr>)"

definition remove_conn :: "'c host \<Rightarrow> nat \<Rightarrow> 'c worker \<Rightarrow> 'c worker" where
  "remove_conn h key w =
     (let w1 = w\<lparr>wk_wheel := tw_remove key (wk_wheel w)\<rparr>
      in case map_of (wk_conns w1) key of
           None \<Rightarrow> w1
         | Some e \<Rightarrow>
           (case en_session e of
              None \<Rightarrow> take_entry key e w1
            | Some s \<Rightarrow> close_session h s (take_entry key e w1)))"

definition handoff_rest :: "'c host \<Rightarrow> nat \<Rightarrow> byte list \<Rightarrow> 'c worker \<Rightarrow> 'c worker" where
  "handoff_rest h key replay w =
     (case map_of (wk_conns w) key of
        None \<Rightarrow> w
      | Some e \<Rightarrow>
        (let w1 = take_entry key e w
         in if cf_rest_handoff (h_cfg h) then w1\<lparr>wk_handoffs := wk_handoffs w1 @ [replay]\<rparr> else w1))"

text \<open>The three folds that follow most operations.\<close>

definition fold_all :: "nat \<Rightarrow> 'c worker \<Rightarrow> 'c worker" where
  "fold_all key w = fold_drophead key (fold_codel key (fold_delta key w))"


section \<open>Inputs of an iteration\<close>

datatype drain_status = DrainOk | DrainNeedsWrite | DrainClosed

text \<open>
  The answers of a socket to the reads of one event: plain reads, and for an encrypted
  connection the pulled records, the writes of pending records and the reads of plaintext. A
  script that ends is a socket that blocks.
\<close>

record sock_script =
  ss_reads :: "read_result list"
  ss_pulls :: "pull_result list"
  ss_writes :: "io_result list"
  ss_plain :: "read_result list"

fun drain_head_plain :: "read_result list \<Rightarrow> byte list \<Rightarrow> drain_status \<times> byte list" where
  "drain_head_plain [] buf = (DrainOk, buf)"
| "drain_head_plain (ReadBytes bs # rs) buf = (if bs = [] then (DrainClosed, buf) else drain_head_plain rs (buf @ bs))"
| "drain_head_plain (ReadWouldBlock # rs) buf = (DrainOk, buf)"
| "drain_head_plain (ReadInterrupted # rs) buf = drain_head_plain rs buf"
| "drain_head_plain (ReadError # rs) buf = (DrainClosed, buf)"

fun drain_head_reader :: "read_result list \<Rightarrow> byte list \<Rightarrow> byte list option" where
  "drain_head_reader [] buf = Some buf"
| "drain_head_reader (ReadBytes bs # rs) buf = (if bs = [] then Some buf else drain_head_reader rs (buf @ bs))"
| "drain_head_reader (ReadWouldBlock # rs) buf = Some buf"
| "drain_head_reader (ReadInterrupted # rs) buf = drain_head_reader rs buf"
| "drain_head_reader (ReadError # rs) buf = None"

definition drain_head_tls :: "sock_script \<Rightarrow> byte list \<Rightarrow> drain_status \<times> byte list" where
  "drain_head_tls s buf =
     (case tls_pull (ss_pulls s @ [PullWouldBlock]) of
        Some (Inr False) \<Rightarrow>
          (case write_ciphertext (ss_writes s) of
             Inl _ \<Rightarrow> (DrainClosed, buf)
           | Inr flushed \<Rightarrow>
             (case drain_head_reader (ss_plain s) buf of
                None \<Rightarrow> (DrainClosed, buf)
              | Some buf' \<Rightarrow> (if flushed then DrainOk else DrainNeedsWrite, buf')))
      | _ \<Rightarrow> (DrainClosed, buf))"

definition drain_head_bytes :: "bool \<Rightarrow> sock_script \<Rightarrow> byte list \<Rightarrow> drain_status \<times> byte list" where
  "drain_head_bytes tls s buf = (if tls then drain_head_tls s buf else drain_head_plain (ss_reads s) buf)"

text \<open>
  What the reads of a frame event leave: an error closes the connection, so the bytes read
  before it do not matter.
\<close>

definition pull_frames :: "bool \<Rightarrow> sock_script \<Rightarrow> byte list \<Rightarrow> (conn_error + bool) \<times> byte list" where
  "pull_frames tls s buf =
     (case (if tls then read_tls (ss_pulls s @ [PullWouldBlock]) (ss_writes s) (ss_plain s @ [ReadWouldBlock]) buf
            else read_plain (ss_reads s @ [ReadWouldBlock]) buf) of
        Some (Inr (eof, buf')) \<Rightarrow> (Inr eof, buf')
      | Some (Inl err) \<Rightarrow> (Inl err, buf)
      | None \<Rightarrow> (Inr False, buf))"

text \<open>An accepted socket: whether its registration and its TLS session succeed, and its future answers.\<close>

datatype accept_result =
    Accepted bool bool "flush_io list"
  | AcceptInterrupted
  | AcceptEnd

record readiness =
  rd_key :: nat
  rd_hangup :: bool
  rd_readable :: bool
  rd_writable :: bool
  rd_script :: sock_script
  rd_script_w :: sock_script

datatype event = ListenerReady "accept_result list" | WakerReady | ConnReady readiness

record resolved_app =
  ra_token :: nat
  ra_gen :: u64
  ra_result :: "app_lookup_error + app_lookup"

datatype poll_result = PollEvents "event list" | PollInterrupted | PollFailed

text \<open>
  \<open>it_apps\<close> is the answer of the app manager's cache, \<open>it_admit\<close> that of the cluster bridge;
  \<open>it_resolved\<close> are the app lookups that completed.
\<close>

record iteration =
  it_now :: u64
  it_poll :: poll_result
  it_factor :: u64
  it_apps :: "string \<Rightarrow> (app_lookup_error + app_lookup) option"
  it_admit :: "string \<Rightarrow> nat \<Rightarrow> bool option"
  it_resolved :: "resolved_app list"
  it_shutdown :: bool
  it_expired :: bool

definition now_ms :: "iteration \<Rightarrow> u64" where
  "now_ms it = it_now it div 1000000"


section \<open>The opening handshake\<close>

definition arm_handshake_interest :: "bool \<Rightarrow> u64 \<Rightarrow> entry \<Rightarrow> action \<times> entry" where
  "arm_handshake_interest wants_write now e =
     (if c_out (en_conn e) \<noteq> [] \<or> wants_write then flush_and_arm now e
      else if c_writable_armed (en_conn e)
      then (let e1 = e\<lparr>en_io := tl (en_io e)\<rparr>
            in if io_registered (next_io e) then (Keep, e1\<lparr>en_conn := set_writable_armed False (en_conn e)\<rparr>)
               else (CloseConn, e1))
      else (Keep, e))"

definition worker_arm_lifetime :: "dispatch_env \<Rightarrow> nat \<Rightarrow> u64 \<Rightarrow> timer_wheel \<Rightarrow> timer_wheel" where
  "worker_arm_lifetime env key now wheel =
     (if 0 < ev_max_conn_lifetime_secs env
      then arm_lifetime key (sat_add now (sat_mul (ev_max_conn_lifetime_secs env) 1000)) wheel
      else wheel)"

definition reject_conn :: "'c host \<Rightarrow> iteration \<Rightarrow> nat \<Rightarrow> reject \<Rightarrow> entry \<Rightarrow> 'c worker \<Rightarrow> action \<times> 'c worker" where
  "reject_conn h it key rj e w =
     (CloseConn, put_entry key (snd (flush_and_arm (it_now it) (queue_reject (h_json h) rj (it_now it) e))) w)"

definition established_entry :: "'c host \<Rightarrow> session \<Rightarrow> u64 \<Rightarrow> entry \<Rightarrow> entry" where
  "established_entry h s now e =
     (entry_queue (text_frame (codec_encode_into (h_json h) (se_codec s)
        (ConnectionEstablished (cx_socket_id (se_ctx s)) (ev_activity_timeout (h_env h))) [])) now e)\<lparr>en_session := Some s\<rparr>"

text \<open>The outcome of an app lookup, cached or resolved: a session, or the reason of the refusal.\<close>

definition establish ::
  "'c host \<Rightarrow> iteration \<Rightarrow> (app_lookup_error + app_lookup) \<Rightarrow> codec \<Rightarrow> mailbox_notify \<Rightarrow> nat option \<Rightarrow> 'c worker
     \<Rightarrow> (reject + session) \<times> 'c worker" where
  "establish h it result c note slot w =
     (case result of
        Inr (Found app) \<Rightarrow>
          (let (res, sh, n) = finish_establish (it_admit it) (h_env h) app (h_draws h (wk_drawn w)) c note slot
                                (wk_shared w, wk_node w)
           in (res, w\<lparr>wk_shared := sh, wk_node := n,
                      wk_drawn := (case res of Inr _ \<Rightarrow> Suc (wk_drawn w) | Inl _ \<Rightarrow> wk_drawn w)\<rparr>))
      | Inr Disabled \<Rightarrow> (Inl \<lparr>rj_error = app_disabled, rj_codec = Some c\<rparr>, w)
      | Inr NotFound \<Rightarrow> (Inl \<lparr>rj_error = app_not_found, rj_codec = Some c\<rparr>, w)
      | Inl _ \<Rightarrow> (Inl \<lparr>rj_error = backend_unavailable, rj_codec = Some c\<rparr>, w))"

definition park ::
  "'c host \<Rightarrow> iteration \<Rightarrow> nat \<Rightarrow> string \<Rightarrow> codec \<Rightarrow> mailbox_notify \<Rightarrow> entry \<Rightarrow> 'c worker \<Rightarrow> action \<times> 'c worker" where
  "park h it key akey c note e w =
     (let gen = wk_next_gen w;
          e1 = e\<lparr>en_pending_establish := Some \<lparr>pe_key = akey, pe_codec = c, pe_notify = note,
                   pe_mailbox_dropped = cf_mailbox_dropped_slot (h_cfg h), pe_gen = gen\<rparr>\<rparr>;
          (act, e2) = flush_and_arm (it_now it) e1
      in (act, put_entry key e2 (w\<lparr>wk_next_gen := gen + 1, wk_lookups := wk_lookups w @ [(key, gen, akey)]\<rparr>)))"

definition open_session ::
  "'c host \<Rightarrow> iteration \<Rightarrow> nat \<Rightarrow> string \<Rightarrow> entry \<Rightarrow> 'c worker \<Rightarrow> action \<times> 'c worker" where
  "open_session h it key path e w =
     (let note = \<lparr>token = key, dirty = h_id h\<rparr>;
          (akey, protocol, version) = parse_app_path path
      in case negotiate protocol version (ev_strict_protocol (h_env h)) of
           Inl error \<Rightarrow> reject_conn h it key \<lparr>rj_error = error, rj_codec = None\<rparr> e w
         | Inr c \<Rightarrow>
           (case akey of
              None \<Rightarrow> reject_conn h it key \<lparr>rj_error = path_not_found, rj_codec = Some c\<rparr> e w
            | Some k \<Rightarrow>
              (case it_apps it k of
                 None \<Rightarrow> park h it key k c note e w
               | Some result \<Rightarrow>
                 (case establish h it result c note (cf_mailbox_dropped_slot (h_cfg h)) w of
                    (Inl rj, w1) \<Rightarrow> reject_conn h it key rj e w1
                  | (Inr s, w1) \<Rightarrow>
                    (let wheel = worker_arm_lifetime (h_env h) key (now_ms it) (clear_handshake key (wk_wheel w1));
                         (act, e1) = flush_and_arm (it_now it) (established_entry h s (it_now it) e)
                     in (act, put_entry key e1 (w1\<lparr>wk_wheel := wheel\<rparr>)))))))"

definition handle_handshake ::
  "'c host \<Rightarrow> iteration \<Rightarrow> sock_script \<Rightarrow> nat \<Rightarrow> entry \<Rightarrow> 'c worker \<Rightarrow> action \<times> 'c worker" where
  "handle_handshake h it script key e w =
     (let now = it_now it;
          (status, buf) = drain_head_bytes (en_tls e) script (en_inbuf e);
          e1 = e\<lparr>en_inbuf := buf\<rparr>
      in if status = DrainClosed then (CloseConn, put_entry key e1 w)
         else case read_head (h_crates h) buf (cf_max_head_bytes (h_cfg h)) of
           NeedMore \<Rightarrow>
             (let (act, e2) = arm_handshake_interest (status = DrainNeedsWrite) now e1 in (act, put_entry key e2 w))
         | WsUpgrade wkey path \<Rightarrow>
             (let e2 = entry_queue (accept_response (h_crates h) wkey) now e1;
                  e3 = e2\<lparr>en_inbuf := [], en_conn := (en_conn e2)\<lparr>c_state := conn_state.Open\<rparr>\<rparr>
              in case cf_mode (h_cfg h) of
                   Dispatch \<Rightarrow> open_session h it key path e3 w
                 | Echo \<Rightarrow> (let (act, e4) = flush_and_arm now e3 in (act, put_entry key e4 w)))
         | Rest _ \<Rightarrow> (if cf_rest_handoff (h_cfg h) then Handoff buf else CloseConn, put_entry key e1 w)
         | TooManyHeaders \<Rightarrow>
             (CloseConn, put_entry key
                (snd (flush_and_arm now (entry_queue (header_fields_too_large_response (h_json h)) now e1))) w)
         | Bad _ \<Rightarrow> (CloseConn, put_entry key e1 w))"


section \<open>Events\<close>

definition accept_entry :: "'c host \<Rightarrow> nat \<Rightarrow> flush_io list \<Rightarrow> entry" where
  "accept_entry h key io =
     \<lparr>en_conn = set_codel (cf_codel (h_cfg h)) (conn_new (cf_high_water (h_cfg h))), en_inbuf = [], en_token = key,
      en_session = None, en_fragment = None, en_pending_establish = None,
      en_frames = token_bucket_new (cf_max_frames_per_second (h_cfg h)) (cf_max_frames_burst (h_cfg h)),
      en_tls = h_tls h, en_io = io, en_wire = []\<rparr>"

text \<open>\<open>reg\<close> and \<open>tls_ok\<close> say that the registration and the TLS session succeed.\<close>

definition accept_one ::
  "'c host \<Rightarrow> u64 option \<Rightarrow> u64 \<Rightarrow> bool \<Rightarrow> bool \<Rightarrow> flush_io list \<Rightarrow> 'c worker \<Rightarrow> 'c worker" where
  "accept_one h deadline now reg tls_ok io w =
     (let (ok, bucket) = take_at_ns now 1 (wk_accepts w);
          w1 = w\<lparr>wk_accepts := bucket\<rparr>
      in if \<not> ok then w1\<lparr>wk_accept_limited := wk_accept_limited w1 + 1\<rparr>
         else (let key = h_vacant h (map fst (wk_conns w1))
               in if \<not> reg then w1
                  else if h_tls h \<and> \<not> tls_ok then w1
                  else (let w2 = put_entry key (accept_entry h key io) w1;
                            wheel = (case deadline of Some d \<Rightarrow> arm_handshake key d (wk_wheel w2) | None \<Rightarrow> wk_wheel w2)
                        in w2\<lparr>wk_wheel := wheel, wk_accepted := wk_accepted w2 + 1\<rparr>)))"

fun accept_ready :: "'c host \<Rightarrow> u64 option \<Rightarrow> u64 \<Rightarrow> accept_result list \<Rightarrow> 'c worker \<Rightarrow> 'c worker" where
  "accept_ready h deadline now [] w = w"
| "accept_ready h deadline now (Accepted reg tls_ok io # rs) w =
     accept_ready h deadline now rs (accept_one h deadline now reg tls_ok io w)"
| "accept_ready h deadline now (AcceptInterrupted # rs) w = accept_ready h deadline now rs w"
| "accept_ready h deadline now (AcceptEnd # rs) w = w"

definition liveness :: "'c host \<Rightarrow> bool" where
  "liveness h \<longleftrightarrow> cf_mode (h_cfg h) = Dispatch"

definition handle_readable ::
  "'c host \<Rightarrow> iteration \<Rightarrow> sock_script \<Rightarrow> nat \<Rightarrow> entry \<Rightarrow> 'c worker \<Rightarrow> action \<times> 'c worker" where
  "handle_readable h it script key e w =
     (case c_state (en_conn e) of
        Handshaking \<Rightarrow> handle_handshake h it script key e w
      | conn_state.Open \<Rightarrow>
          (let (act, e', n', limited) =
                 handle_frames (h_json h) (h_crypto h) (h_adapter h) (h_cfg h) (it_now it)
                   (pull_frames (en_tls e) script (en_inbuf e)) (e, wk_node w, wk_frame_limited w)
           in (act, put_entry key e' (w\<lparr>wk_node := n', wk_frame_limited := limited\<rparr>))))"

definition handle_writable ::
  "'c host \<Rightarrow> iteration \<Rightarrow> sock_script \<Rightarrow> nat \<Rightarrow> entry \<Rightarrow> 'c worker \<Rightarrow> action \<times> 'c worker" where
  "handle_writable h it script key e w =
     (case c_state (en_conn e) of
        Handshaking \<Rightarrow> handle_handshake h it script key e w
      | conn_state.Open \<Rightarrow> (let (act, e') = flush_and_arm (it_now it) e in (act, put_entry key e' w)))"

definition reconcile :: "nat \<Rightarrow> 'c worker \<Rightarrow> 'c worker" where
  "reconcile key w =
     (case map_of (wk_conns w) key of
        None \<Rightarrow> w
      | Some e \<Rightarrow>
        (case en_session e of
           None \<Rightarrow> w
         | Some s \<Rightarrow>
           (let (s', ls) = reconcile_membership key (s, wk_subs w)
            in (put_entry key (e\<lparr>en_session := Some s'\<rparr>) w)\<lparr>wk_subs := ls\<rparr>)))"

text \<open>After a readable and after a writable event; both fold, then act.\<close>

definition after_readable :: "'c host \<Rightarrow> nat \<Rightarrow> action \<Rightarrow> 'c worker \<Rightarrow> 'c worker" where
  "after_readable h key act w =
     (case act of
        CloseConn \<Rightarrow> remove_conn h key (fold_drophead key (fold_codel key w))
      | Handoff replay \<Rightarrow>
          (let w1 = fold_drophead key (fold_codel key w)
           in handoff_rest h key replay (w1\<lparr>wk_wheel := tw_remove key (wk_wheel w1)\<rparr>))
      | Keep \<Rightarrow> reconcile key (fold_all key w))"

definition after_writable :: "'c host \<Rightarrow> nat \<Rightarrow> action \<Rightarrow> 'c worker \<Rightarrow> 'c worker" where
  "after_writable h key act w =
     (let w1 = fold_all key w
      in case act of
           CloseConn \<Rightarrow> remove_conn h key w1
         | Handoff replay \<Rightarrow> handoff_rest h key replay (w1\<lparr>wk_wheel := tw_remove key (wk_wheel w1)\<rparr>)
         | Keep \<Rightarrow> reconcile key w1)"

definition on_readable :: "'c host \<Rightarrow> iteration \<Rightarrow> nat \<Rightarrow> sock_script \<Rightarrow> 'c worker \<Rightarrow> action \<times> 'c worker" where
  "on_readable h it key script w =
     (case map_of (wk_conns w) key of
        None \<Rightarrow> (CloseConn, w)
      | Some e \<Rightarrow>
        (let w1 = (if liveness h then w\<lparr>wk_wheel := touch key (now_ms it) (wk_wheel w)\<rparr> else w);
             (act, w2) = handle_readable h it script key e w1
         in (act, after_readable h key act w2)))"

definition on_writable :: "'c host \<Rightarrow> iteration \<Rightarrow> nat \<Rightarrow> sock_script \<Rightarrow> 'c worker \<Rightarrow> 'c worker" where
  "on_writable h it key script w =
     (case map_of (wk_conns w) key of
        None \<Rightarrow> w
      | Some e \<Rightarrow> (let (act, w1) = handle_writable h it script key e w in after_writable h key act w1))"

definition conn_ready :: "'c host \<Rightarrow> iteration \<Rightarrow> readiness \<Rightarrow> 'c worker \<Rightarrow> 'c worker" where
  "conn_ready h it r w =
     (let key = rd_key r
      in if map_of (wk_conns w) key = None then w
         else if rd_hangup r then remove_conn h key w
         else (let (act, w1) = (if rd_readable r then on_readable h it key (rd_script r) w else (Keep, w))
               in if act = Keep \<and> rd_writable r then on_writable h it key (rd_script_w r) w1 else w1))"

definition handle_event :: "'c host \<Rightarrow> iteration \<Rightarrow> event \<Rightarrow> 'c worker \<Rightarrow> 'c worker" where
  "handle_event h it ev w =
     (case ev of
        ListenerReady answers \<Rightarrow>
          (let deadline = (if liveness h \<and> 0 < cf_handshake_timeout_ms (h_cfg h)
                           then Some (sat_add (now_ms it) (cf_handshake_timeout_ms (h_cfg h))) else None)
           in accept_ready h deadline (it_now it) answers w)
      | WakerReady \<Rightarrow> w
      | ConnReady r \<Rightarrow> conn_ready h it r w)"


section \<open>The drains\<close>

definition effective_budget :: "'c host \<Rightarrow> iteration \<Rightarrow> u64" where
  "effective_budget h it =
     (case cf_budget_factor (h_cfg h) of
        Some _ \<Rightarrow> sat_mul (cf_per_worker_budget (h_cfg h)) (it_factor it) div 1000
      | None \<Rightarrow> cf_per_worker_budget (h_cfg h))"

text \<open>The worker's slot in the sink; a worker without one has no broadcast wiring.\<close>

definition my_slot :: "'c host \<Rightarrow> 'c worker \<Rightarrow> worker_slot option" where
  "my_slot h w =
     (let slots = fan_workers (nd_fan (wk_node w)) in if h_id h < length slots then Some (slots ! h_id h) else None)"

definition set_slot :: "'c host \<Rightarrow> worker_slot \<Rightarrow> 'c worker \<Rightarrow> 'c worker" where
  "set_slot h s w =
     (let n = wk_node w; f = nd_fan n
      in w\<lparr>wk_node := n\<lparr>nd_fan := f\<lparr>fan_workers := (fan_workers f)[h_id h := s]\<rparr>\<rparr>\<rparr>)"

definition flush_touched :: "u64 \<Rightarrow> nat \<Rightarrow> nat list \<times> 'c worker \<Rightarrow> nat list \<times> 'c worker" where
  "flush_touched now key clw =
     (case clw of (to_close, w) \<Rightarrow>
       (case map_of (wk_conns w) key of
          None \<Rightarrow> (to_close, w)
        | Some e \<Rightarrow>
          (let (act, e') = flush_and_arm now e
           in (if act = CloseConn then hs_insert key to_close else to_close, fold_all key (put_entry key e' w)))))"

definition pump_inbox :: "u64 \<Rightarrow> u64 \<Rightarrow> broadcast_msg list \<Rightarrow> 'c worker \<Rightarrow> bool \<times> nat list \<times> 'c worker" where
  "pump_inbox budget now msgs w =
     (let p = drain_broadcast_inbox budget now {} (wk_subs w) msgs
                \<lparr>pu_conns = wk_conns w, pu_inflight = wk_inflight w, pu_outbound = wk_outbound w,
                 pu_drophead = wk_drophead w, pu_saturated = False, pu_touched = []\<rparr>
      in (pu_saturated p, pu_touched p,
          w\<lparr>wk_conns := pu_conns p, wk_inflight := pu_inflight p, wk_outbound := pu_outbound p,
            wk_drophead := pu_drophead p\<rparr>))"

definition drain_broadcasts :: "'c host \<Rightarrow> iteration \<Rightarrow> worker_slot \<Rightarrow> 'c worker \<Rightarrow> bool \<times> 'c worker" where
  "drain_broadcasts h it s w =
     (let (saturated, touched, w1) = pump_inbox (effective_budget h it) (it_now it) (ws_inbox s) w;
          w2 = set_slot h (s\<lparr>ws_inbox := [], ws_budget_saturated := (ws_budget_saturated s \<or> saturated)\<rparr>) w1;
          (to_close, w3) = fold (flush_touched (it_now it)) touched ([], w2)
      in (touched \<noteq> [], fold (remove_conn h) to_close w3))"

definition broadcasts_phase :: "'c host \<Rightarrow> iteration \<Rightarrow> 'c worker \<Rightarrow> bool \<times> 'c worker" where
  "broadcasts_phase h it w =
     (case my_slot h w of
        None \<Rightarrow> (False, w)
      | Some s \<Rightarrow>
        (let (work, w1) = drain_broadcasts h it s w;
             n = wk_node w1;
             w2 = w1\<lparr>wk_node := n\<lparr>nd_fan := clear_inbox_full (nd_fan n)\<rparr>\<rparr>
         in (work,
             case my_slot h w2 of
               None \<Rightarrow> w2
             | Some s2 \<Rightarrow>
               set_slot h (s2\<lparr>ws_budget_saturated :=
                 update_budget_pressure (ws_budget_saturated s2) (wk_inflight w2) (effective_budget h it)\<rparr>) w2)))"

definition drain_dirty_one :: "'c host \<Rightarrow> u64 \<Rightarrow> nat \<Rightarrow> bool \<times> 'c worker \<Rightarrow> bool \<times> 'c worker" where
  "drain_dirty_one h now key bw =
     (case bw of (wrote, w) \<Rightarrow>
       (case open_conn (wk_conns w) key of
          None \<Rightarrow> (wrote, w)
        | Some e \<Rightarrow>
          (let (r, e', n') = drain_session (h_json h) now (e, wk_node w);
               w1 = fold_all key (put_entry key e' (w\<lparr>wk_node := n'\<rparr>))
           in (wrote \<or> dr_wrote r,
               if dr_action r = CloseConn then remove_conn h key w1
               else if dr_subs_changed r then reconcile key w1
               else w1))))"

definition take_dirty :: "'c host \<Rightarrow> 'c worker \<Rightarrow> nat list \<times> 'c worker" where
  "take_dirty h w =
     (let n = wk_node w; mail = nd_mail n
      in (remdups (dirty_queue mail (h_id h)),
          w\<lparr>wk_node := n\<lparr>nd_mail := mail\<lparr>dirty_queue := (dirty_queue mail)(h_id h := []),
                                       woken := (woken mail)(h_id h := False)\<rparr>\<rparr>\<rparr>))"

definition drain_dirty_sessions :: "'c host \<Rightarrow> iteration \<Rightarrow> 'c worker \<Rightarrow> bool \<times> 'c worker" where
  "drain_dirty_sessions h it w = (let (keys, w1) = take_dirty h w in fold (drain_dirty_one h (it_now it)) keys (False, w1))"

definition resume_parked ::
  "'c host \<Rightarrow> iteration \<Rightarrow> nat \<Rightarrow> entry \<Rightarrow> pending_establish \<Rightarrow> (app_lookup_error + app_lookup) \<Rightarrow> 'c worker \<Rightarrow> 'c worker" where
  "resume_parked h it key e pe result w =
     (case establish h it result (pe_codec pe) (pe_notify pe) (pe_mailbox_dropped pe) w of
        (Inr s, w1) \<Rightarrow>
          (let (act, e1) = flush_and_arm (it_now it) (established_entry h s (it_now it) e);
               w2 = fold_all key (put_entry key e1 w1)
           in if act = CloseConn then remove_conn h key w2
              else w2\<lparr>wk_wheel := clear_handshake key (worker_arm_lifetime (h_env h) key (now_ms it)
                                    (touch key (now_ms it) (wk_wheel w2)))\<rparr>)
      | (Inl rj, w1) \<Rightarrow> remove_conn h key (fold_all key (snd (reject_conn h it key rj e w1))))"

definition drain_resolved_one :: "'c host \<Rightarrow> iteration \<Rightarrow> resolved_app \<Rightarrow> bool \<times> 'c worker \<Rightarrow> bool \<times> 'c worker" where
  "drain_resolved_one h it ra bw =
     (case bw of (wrote, w) \<Rightarrow>
       (case map_of (wk_conns w) (ra_token ra) of
          None \<Rightarrow> (wrote, w)
        | Some e \<Rightarrow>
          (case en_pending_establish e of
             None \<Rightarrow> (wrote, w)
           | Some pe \<Rightarrow>
             if pe_gen pe \<noteq> ra_gen ra then (wrote, w)
             else (let e1 = e\<lparr>en_pending_establish := None\<rparr>
                   in (True, resume_parked h it (ra_token ra) e1 pe (ra_result ra) (put_entry (ra_token ra) e1 w))))))"

definition drain_resolved :: "'c host \<Rightarrow> iteration \<Rightarrow> 'c worker \<Rightarrow> bool \<times> 'c worker" where
  "drain_resolved h it w = fold (drain_resolved_one h it) (it_resolved it) (False, w)"


section \<open>Timers\<close>

definition due_ping :: "'c host \<Rightarrow> iteration \<Rightarrow> nat \<Rightarrow> 'c worker \<Rightarrow> bool \<times> 'c worker" where
  "due_ping h it key w =
     (case Option.bind (map_of (wk_conns w) key) (entry_ping (h_json h) (it_now it)) of
        Some (act, e) \<Rightarrow>
          (let w1 = fold_delta key (put_entry key e w)
           in (True,
               if act = CloseConn then remove_conn h key (fold_drophead key (fold_codel key w1))
               else w1\<lparr>wk_wheel := mark_ping_sent key (now_ms it) (wk_wheel w1)\<rparr>))
      | None \<Rightarrow> (False, w\<lparr>wk_wheel := clear_liveness key (wk_wheel w)\<rparr>))"

definition send_close_reply :: "'c host \<Rightarrow> nat \<Rightarrow> nat \<Rightarrow> string \<Rightarrow> u64 \<Rightarrow> 'c worker \<Rightarrow> action \<times> 'c worker" where
  "send_close_reply h key code reason now w =
     (case map_of (wk_conns w) key of
        None \<Rightarrow> (CloseConn, w)
      | Some e \<Rightarrow> (let (act, e') = entry_close_reply code reason now e in (act, put_entry key e' w)))"

definition queue_error :: "'c host \<Rightarrow> nat \<Rightarrow> pusher_error \<Rightarrow> u64 \<Rightarrow> 'c worker \<Rightarrow> 'c worker" where
  "queue_error h key error now w =
     (case map_of (wk_conns w) key of
        None \<Rightarrow> w
      | Some e \<Rightarrow> put_entry key (entry_error (h_json h) error now e) w)"

definition handle_due :: "'c host \<Rightarrow> iteration \<Rightarrow> due \<Rightarrow> bool \<times> 'c worker \<Rightarrow> bool \<times> 'c worker" where
  "handle_due h it d bw =
     (case bw of (work, w) \<Rightarrow>
       (case d of
          DuePing key \<Rightarrow> (let (pinged, w1) = due_ping h it key w in (work \<or> pinged, w1))
        | Close4201 key \<Rightarrow>
            (True, remove_conn h key (fold_all key (snd (send_close_reply h key 4201
               ''Pong reply not received: ping was sent to the client, but no reply was received'' (it_now it) w))))
        | Close4202 key \<Rightarrow>
            (True, remove_conn h key (fold_all key (snd (send_close_reply h key 4202 (err_message max_lifetime) (it_now it)
               (queue_error h key max_lifetime (it_now it) w)))))
        | HandshakeTimeout key \<Rightarrow>
            (True,
             case map_of (wk_conns w) key of
               Some e \<Rightarrow>
                 if en_session e = None
                 then remove_conn h key (w\<lparr>wk_handshake_timeouts := wk_handshake_timeouts w + 1\<rparr>)
                 else w\<lparr>wk_wheel := clear_handshake key (wk_wheel w)\<rparr>
             | None \<Rightarrow> w\<lparr>wk_wheel := clear_handshake key (wk_wheel w)\<rparr>)))"

definition timers_phase :: "'c host \<Rightarrow> iteration \<Rightarrow> 'c worker \<Rightarrow> bool \<times> 'c worker" where
  "timers_phase h it w =
     (if liveness h
      then (let (dues, wheel) = due_at (now_ms it) (wk_wheel w)
            in fold (handle_due h it) dues (False, w\<lparr>wk_wheel := wheel\<rparr>))
      else (False, w))"


section \<open>The loop\<close>

definition shutdown_message :: string where
  "shutdown_message = ''Server is shutting down; please reconnect''"

definition drain_close_connection :: "'c host \<Rightarrow> u64 \<Rightarrow> nat \<Rightarrow> 'c worker \<Rightarrow> 'c worker" where
  "drain_close_connection h now key w =
     (let (act, w1) = send_close_reply h key 4200 shutdown_message now
                        (queue_error h key (new_error 4200 shutdown_message) now w);
          w2 = fold_all key w1
      in if act = CloseConn then remove_conn h key w2 else w2)"

definition keys :: "'c worker \<Rightarrow> nat list" where
  "keys w = map fst (wk_conns w)"

text \<open>The shutdown branch at the top of the loop.\<close>

definition shutdown_phase :: "'c host \<Rightarrow> iteration \<Rightarrow> 'c worker \<Rightarrow> 'c worker" where
  "shutdown_phase h it w =
     (let w1 = (if wk_draining w then w
                else fold (drain_close_connection h (it_now it)) (keys w) (w\<lparr>wk_draining := True\<rparr>));
          expired = (cf_shutdown_grace_ms (h_cfg h) = 0 \<or> it_expired it)
      in if wk_outbound w1 = 0 \<or> expired
         then (fold (remove_conn h) (keys w1) w1)\<lparr>wk_stopped := True\<rparr>
         else w1)"

definition polled :: "'c host \<Rightarrow> iteration \<Rightarrow> event list \<Rightarrow> 'c worker \<Rightarrow> 'c worker" where
  "polled h it events w =
     (let w1 = fold (handle_event h it) events w;
          (b1, w2) = broadcasts_phase h it w1;
          (b2, w3) = (if liveness h then drain_dirty_sessions h it w2 else (False, w2));
          (b3, w4) = (if liveness h then drain_resolved h it w3 else (False, w3));
          (b4, w5) = timers_phase h it w4
      in w5\<lparr>wk_did_work := (events \<noteq> [] \<or> b1 \<or> b2 \<or> b3 \<or> b4)\<rparr>)"

definition worker_step :: "'c host \<Rightarrow> 'c worker \<Rightarrow> iteration \<Rightarrow> 'c worker" where
  "worker_step h w it =
     (if wk_stopped w then w
      else (let w1 = (if it_shutdown it then shutdown_phase h it w else w)
            in if wk_stopped w1 then w1
               else case it_poll it of
                 PollEvents events \<Rightarrow> polled h it events w1
               | PollInterrupted \<Rightarrow> w1
               | PollFailed \<Rightarrow> w1\<lparr>wk_stopped := True\<rparr>))"

end
