(* ===== verification/Worker_Invariant.thy ===== *)
theory Worker_Invariant
  imports Worker
begin

text \<open>
  What the event loop keeps: the running totals are the sums over the connections, owed bytes
  come with writable interest, and the subscription index is exact. Each operation is shown to
  keep the books of the connection it touches; the loop composes them.
\<close>


section \<open>The identity of a session\<close>

definition who :: "connection_context \<Rightarrow> app \<times> socket_id" where
  "who cx = (cx_app cx, cx_socket_id cx)"

lemma who_simps [simp]:
  "who (cx\<lparr>cx_subscribed := x\<rparr>) = who cx" "who (cx\<lparr>cx_user := u\<rparr>) = who cx"
  "who (cx\<lparr>cx_presence_membership := p\<rparr>) = who cx" "who (cx\<lparr>cx_client_event_rate := r\<rparr>) = who cx"
  by (simp_all add: who_def)

lemma who_unsubscribe: "who (fst (unsubscribe ad ch (cx, n))) = who cx"
  by (simp add: unsubscribe_def Let_def case_prod_unfold)

lemma who_join_plain: "join_plain ad ch cx n = (cx', n') \<Longrightarrow> who cx' = who cx"
  by (auto simp: join_plain_def Let_def split: prod.splits)

lemma who_join_presence: "join_presence ad ch m cx n = (cx', n') \<Longrightarrow> who cx' = who cx"
  by (auto simp: join_presence_def Let_def split: prod.splits)

lemma who_join_channel: "join_channel sj cr ad ch auth cd cx n = Inr (cx', n') \<Longrightarrow> who cx' = who cx"
  by (auto simp: join_channel_def Let_def split: auth_kind.splits sum.splits prod.splits if_splits
      dest: who_join_plain who_join_presence)

lemma who_replay_cache: "who (fst (replay_cache ad ch info (cx, n))) = who cx"
  by (simp add: replay_cache_def Let_def case_prod_unfold split: option.split)

lemma who_subscribe: "who (fst (subscribe sj cr ad ch auth cd (cx, n))) = who cx"
  using who_join_channel [of sj cr ad ch auth cd cx n]
  by (auto simp: subscribe_def Let_def who_replay_cache split: option.split sum.split)

lemma who_client_event: "who (fst (client_event sj ad ev ch d (cx, n))) = who cx"
  by (simp add: client_event_def Let_def case_prod_unfold)

lemma who_signin: "who (fst (signin sj cr ad auth ud (cx, n))) = who cx"
  by (simp add: signin_def Let_def case_prod_unfold split: option.split sum.split)

lemma who_dispatch: "who (fst (dispatch sj cr ad cmd (cx, n))) = who cx"
  by (cases cmd) (simp_all add: who_subscribe who_unsubscribe who_client_event who_signin)

text \<open>What the subscription index reads of a session.\<close>

definition sess_key :: "session \<Rightarrow> (app \<times> socket_id) \<times> codec \<times> string list" where
  "sess_key s = (who (se_ctx s), se_codec s, se_subs s)"

definition ekey :: "entry \<Rightarrow> ((app \<times> socket_id) \<times> codec \<times> string list) option" where
  "ekey e = map_option sess_key (en_session e)"

lemma sess_key_forget [simp]: "sess_key (forget_channel ch s) = sess_key s"
  by (simp add: sess_key_def forget_channel_def)

lemma sess_key_dispatch: "dispatch_command sj cr ad cmd (s, n) = (s', n') \<Longrightarrow> sess_key s' = sess_key s"
  using who_dispatch [of sj cr ad cmd "se_ctx s" n]
  by (auto simp: dispatch_command_def sess_key_def case_prod_unfold Let_def)

lemma ekey_session: "en_session e' = en_session e \<Longrightarrow> ekey e' = ekey e"
  by (simp add: ekey_def)

lemma ekey_flush: "flush_and_arm now e = (act, e') \<Longrightarrow> ekey e' = ekey e"
  by (rule ekey_session) (rule flush_steps(2))

lemma ekey_entry [simp]:
  "ekey (entry_queue f now e) = ekey e" "ekey (set_fragment fr e) = ekey e"
  "ekey (queue_close_frame code reason now e) = ekey e" "ekey (snd (flush_and_arm now e)) = ekey e"
  "ekey (e\<lparr>en_frames := b\<rparr>) = ekey e" "ekey (e\<lparr>en_inbuf := buf, en_conn := c\<rparr>) = ekey e" "ekey (e\<lparr>en_conn := c\<rparr>) = ekey e"
  "ekey (e\<lparr>en_inbuf := buf\<rparr>) = ekey e" "ekey (e\<lparr>en_pending_establish := pe\<rparr>) = ekey e"
  by (simp_all add: ekey_def set_fragment_def queue_close_frame_def)
    (metis ekey_def ekey_flush prod.collapse)

lemma ekey_closes:
  "close_fragment_violation now reason e = (act, e') \<Longrightarrow> ekey e' = ekey e"
  "close_frame_flood now e = (act, e') \<Longrightarrow> ekey e' = ekey e"
  "close_invalid_utf8 now e = (act, e') \<Longrightarrow> ekey e' = ekey e"
  "close_handshake_reply now p e = (act, e') \<Longrightarrow> ekey e' = ekey e"
  by (auto simp: close_fragment_violation_def close_frame_flood_def close_invalid_utf8_def close_handshake_reply_def)

lemma sess_key_drain_event: "sess_key (ds_session (drain_event sj now ev d)) = sess_key (ds_session d)"
  by (simp add: drain_event_def Let_def split: server_event.split)

lemma sess_key_drain_loop:
  "drain_loop sj now evs d = (rest, d') \<Longrightarrow> sess_key (ds_session d') = sess_key (ds_session d)"
proof (induction sj now evs d rule: drain_loop.induct)
  case (2 sj now ev evs d)
  from 2 show ?case
    by (cases ev) (auto simp: sess_key_drain_event)
qed simp

lemma ekey_drain:
  assumes "drain_session sj now (e, n) = (r, e', n')"
  shows "ekey e' = ekey e"
proof (cases "en_session e")
  case (Some s)
  let ?d = "\<lparr>ds_session = s, ds_entry = e, ds_close_after = False, ds_wrote = False, ds_subs_changed = False\<rparr>"
  obtain rest d where l: "drain_loop sj now (mailbox_of s n) ?d = (rest, d)" by fastforce
  have k: "sess_key (ds_session d) = sess_key s" using sess_key_drain_loop [OF l] by simp
  have "ekey e' = Some (sess_key (ds_session d))"
    using assms ekey_flush [of now "(ds_entry d)\<lparr>en_session := Some (ds_session d)\<rparr>"]
    by (auto simp: drain_session_def Some l Let_def ekey_def split: prod.splits if_splits)
  with k Some show ?thesis by (simp add: ekey_def)
qed (use assms in \<open>simp add: drain_session_def\<close>)

lemma ekey_text_message:
  assumes "dispatch_text_message sj cr ad now p (e, n) = (act, e', n')"
  shows "ekey e' = ekey e"
  using assms
  by (auto simp: dispatch_text_message_def Let_def ekey_def
      split: option.splits sum.splits prod.splits dest: ekey_closes(3) [unfolded ekey_def] sess_key_dispatch)

lemma ekey_continuation:
  assumes "continuation_frame sj cr ad m now f (e, n) = (act, e', n')"
  shows "ekey e' = ekey e"
proof -
  obtain fr e1 where t: "take_fragment e = (fr, e1)" by fastforce
  then have "ekey e1 = ekey e" by (auto simp: take_fragment_def ekey_def)
  with assms t show ?thesis
    by (auto simp: continuation_frame_def Let_def split: option.splits fragment.splits prod.splits if_splits
        dest: ekey_closes ekey_text_message)
qed

lemma ekey_frame_step:
  assumes "frame_step sj cr ad m now f (e, n) = (act, e', n')"
  shows "ekey e' = ekey e"
proof (cases "fr_opcode f")
  case OpText
  with assms show ?thesis
    by (auto simp: frame_step_def Let_def split: if_splits prod.splits dest: ekey_closes ekey_text_message)
next
  case OpBinary
  with assms show ?thesis
    by (auto simp: frame_step_def Let_def split: if_splits prod.splits option.splits fragment.splits dest: ekey_closes)
next
  case OpContinuation
  with assms show ?thesis by (auto simp: frame_step_def dest: ekey_continuation)
next
  case OpPing
  with assms show ?thesis by (auto simp: frame_step_def Let_def split: prod.splits dest: ekey_flush)
next
  case OpPong
  with assms show ?thesis by (auto simp: frame_step_def)
next
  case OpClose
  with assms show ?thesis by (auto simp: frame_step_def Let_def split: prod.splits dest: ekey_closes)
qed

lemma ekey_dispatch_frames:
  "dispatch_frames sj cr ad m now fs en = (act, e', n') \<Longrightarrow> ekey e' = ekey (fst en)"
proof (induction sj cr ad m now fs en rule: dispatch_frames.induct)
  case (1 sj cr ad m now en)
  then show ?case by (cases en) (auto simp: Let_def split: prod.splits dest: ekey_drain)
next
  case (2 sj cr ad m now f fs en)
  obtain e n where en: "en = (e, n)" by fastforce
  obtain a e1 n1 where s: "frame_step sj cr ad m now f (e, n) = (a, e1, n1)" by (metis prod_cases3)
  from ekey_frame_step [OF s] 2 show ?case by (auto simp: en s split: if_splits)
qed

lemma ekey_echo_loop: "echo_loop now fs wrote e = (act, wrote', e') \<Longrightarrow> ekey e' = ekey e"
  by (induction now fs wrote e rule: echo_loop.induct) (auto split: opcode.splits)

lemma ekey_handle_frames:
  assumes "handle_frames sj cr ad cfg now pulled (e, n, limited) = (act, e', n', limited')"
  shows "ekey e' = ekey e"
proof -
  obtain res buf where r: "read_into pulled (cf_max_payload cfg) = (res, buf)" by fastforce
  from assms show ?thesis
    by (auto simp: handle_frames_def r Let_def echo_frames_def
        split: sum.splits prod.splits if_splits worker_mode.splits
        dest!: ekey_closes ekey_dispatch_frames ekey_echo_loop ekey_flush)
qed


section \<open>The invariant\<close>

definition rec_in :: "entry \<Rightarrow> int" where
  "rec_in e = fst (on_record (en_conn e))"

definition rec_out :: "entry \<Rightarrow> int" where
  "rec_out e = snd (on_record (en_conn e))"

text \<open>A connection has no session before it is open and while its app is looked up.\<close>

definition phase_ok :: "entry \<Rightarrow> bool" where
  "phase_ok e \<longleftrightarrow> (c_state (en_conn e) = Handshaking \<longrightarrow> en_session e = None \<and> en_pending_establish e = None) \<and>
     (en_pending_establish e \<noteq> None \<longrightarrow> en_session e = None)"

definition books_ok :: "'c worker \<Rightarrow> bool" where
  "books_ok w \<longleftrightarrow> hm_ok (wk_conns w) \<and> (\<forall>k e. map_of (wk_conns w) k = Some e \<longrightarrow> link_ok e \<and> phase_ok e) \<and>
     wk_inflight w = word_of_int (tally rec_in (wk_conns w)) \<and> wk_outbound w = word_of_int (tally rec_out (wk_conns w))"

definition drawn_id :: "'c host \<Rightarrow> nat \<Rightarrow> socket_id" where
  "drawn_id h j = generate (fst (h_draws h j)) (snd (h_draws h j))"

definition ids_ok :: "'c host \<Rightarrow> 'c worker \<Rightarrow> bool" where
  "ids_ok h w \<longleftrightarrow>
     (\<forall>k s. session_at (wk_conns w) k = Some s \<longrightarrow> (\<exists>j < wk_drawn w. cx_socket_id (se_ctx s) = drawn_id h j)) \<and>
     (\<forall>k k' s s'. session_at (wk_conns w) k = Some s \<longrightarrow> session_at (wk_conns w) k' = Some s' \<longrightarrow>
        cx_socket_id (se_ctx s) = cx_socket_id (se_ctx s') \<longrightarrow> k = k')"

text \<open>
  The books hold whatever the worker draws. The index relies on distinct socket ids, so it is
  exact as long as no id has been drawn twice.
\<close>

definition fresh_ids :: "'c host \<Rightarrow> 'c worker \<Rightarrow> bool" where
  "fresh_ids h w \<longleftrightarrow> inj_on (drawn_id h) {..<wk_drawn w}"

definition worker_inv :: "'c host \<Rightarrow> 'c worker \<Rightarrow> bool" where
  "worker_inv h w \<longleftrightarrow> books_ok w \<and> (fresh_ids h w \<longrightarrow> indexed (wk_conns w) (wk_subs w) \<and> ids_ok h w)"

text \<open>An entry in good order but for its writable interest, which the next flush sets.\<close>

definition ready :: "nat \<Rightarrow> entry \<Rightarrow> bool" where
  "ready m e \<longleftrightarrow> link_ok e \<and> billed e \<and> fragment_bytes (en_fragment e) \<le> m"

lemma entry_ok_ready: "entry_ok m e \<Longrightarrow> ready m e"
  by (simp add: entry_ok_def ready_def)

lemma ready_queue: "ready m e \<Longrightarrow> ready m (entry_queue f now e)"
  using steps_queue [of e f now] queue_reassembly [of e f now] by (auto simp: ready_def steps_def billed_def)

lemma ready_fields [simp]:
  "ready m (e\<lparr>en_inbuf := b\<rparr>) = ready m e" "ready m (e\<lparr>en_session := s\<rparr>) = ready m e"
  "ready m (e\<lparr>en_pending_establish := p\<rparr>) = ready m e"
  "ready m (e\<lparr>en_inbuf := b, en_conn := (en_conn e)\<lparr>c_state := st\<rparr>\<rparr>) = ready m e"
  "ready m (e\<lparr>en_io := io\<rparr>) = ready m e"
  by (auto simp: ready_def link_ok_def billed_def conn_ok_def cursor_ok_def)

text \<open>
  What the writable interest answers for: queued frames, and on an open connection also the
  records TLS has taken. During the opening handshake a read may put such records on the wire
  by itself.
\<close>

definition owes :: "entry \<Rightarrow> bool" where
  "owes e \<longleftrightarrow> 0 < c_out_bytes (en_conn e) \<or> c_state (en_conn e) = conn_state.Open \<and> 0 < c_tls_unflushed (en_conn e)"

definition tidy :: "nat \<Rightarrow> entry \<Rightarrow> bool" where
  "tidy m e \<longleftrightarrow> ready m e \<and> (owes e \<longrightarrow> c_writable_armed (en_conn e))"

lemma entry_ok_tidy: "entry_ok m e \<Longrightarrow> tidy m e"
  by (auto simp: tidy_def entry_ok_def ready_def owes_def armed_ok_def outbound_bytes_def)

lemma tidy_open: "tidy m e \<Longrightarrow> c_state (en_conn e) = conn_state.Open \<Longrightarrow> entry_ok m e"
  by (auto simp: tidy_def entry_ok_def ready_def owes_def armed_ok_def outbound_bytes_def)

lemma ready_flush: "ready m e \<Longrightarrow> flush_and_arm now e = (act, e') \<Longrightarrow> ready m e' \<and> (act = Keep \<longrightarrow> tidy m e')"
  using flush_steps [of now e act e'] by (auto simp: ready_def entry_ok_def steps_def intro!: entry_ok_tidy)

text \<open>An entry between two operations, and the entries other than the one in hand.\<close>

definition calm_entry :: "nat \<Rightarrow> entry \<Rightarrow> bool" where
  "calm_entry m e \<longleftrightarrow> tidy m e \<and> c_inflight_delta (en_conn e) = 0 \<and> c_outbound_delta (en_conn e) = 0"

definition others_calm :: "nat \<Rightarrow> nat \<Rightarrow> 'c worker \<Rightarrow> bool" where
  "others_calm m key w \<longleftrightarrow> (\<forall>k e. k \<noteq> key \<longrightarrow> map_of (wk_conns w) k = Some e \<longrightarrow> calm_entry m e)"

definition all_calm :: "nat \<Rightarrow> 'c worker \<Rightarrow> bool" where
  "all_calm m w \<longleftrightarrow> (\<forall>k e. map_of (wk_conns w) k = Some e \<longrightarrow> calm_entry m e)"

lemma all_calm_others: "all_calm m w \<Longrightarrow> others_calm m key w"
  by (simp add: all_calm_def others_calm_def)

lemma session_at_key: "map_option sess_key (session_at conns k) = Option.bind (map_of conns k) ekey"
  by (cases "map_of conns k") (simp_all add: session_at_def ekey_def)

lemma sess_key_eqD:
  "sess_key s = sess_key s' \<Longrightarrow> cx_socket_id (se_ctx s) = cx_socket_id (se_ctx s') \<and> index_item s tok k = index_item s' tok k"
  by (auto simp: sess_key_def who_def index_item_def session_app_def)

lemma indexed_cong:
  assumes "indexed conns ls" and "hm_ok conns'"
    and k: "\<And>t. Option.bind (map_of conns' t) ekey = Option.bind (map_of conns t) ekey"
  shows "indexed conns' ls"
proof -
  have "(\<exists>s. session_at conns' tok = Some s \<and> cx_socket_id (se_ctx s) = sid \<and> index_item s tok key = Some (tok, v)) \<longleftrightarrow>
    (\<exists>s. session_at conns tok = Some s \<and> cx_socket_id (se_ctx s) = sid \<and> index_item s tok key = Some (tok, v))" for tok sid key v
  proof -
    have eq: "map_option sess_key (session_at conns' tok) = map_option sess_key (session_at conns tok)"
      using k by (simp add: session_at_key)
    show ?thesis
    proof (cases "session_at conns tok")
      case None
      with eq show ?thesis by simp
    next
      case (Some s)
      with eq obtain s' where s': "session_at conns' tok = Some s'" "sess_key s' = sess_key s" by auto
      from sess_key_eqD [OF s'(2)] Some s'(1) show ?thesis by simp
    qed
  qed
  with assms(1,2) show ?thesis unfolding indexed_def by simp
qed

lemma ids_cong:
  assumes "ids_ok h w" and "wk_drawn w' = wk_drawn w"
    and k: "\<And>t. Option.bind (map_of (wk_conns w') t) ekey = Option.bind (map_of (wk_conns w) t) ekey"
  shows "ids_ok h w'"
proof -
  have *: "\<exists>s. session_at (wk_conns w) t = Some s \<and> cx_socket_id (se_ctx s) = cx_socket_id (se_ctx s')"
    if "session_at (wk_conns w') t = Some s'" for t s'
    using k [of t] that unfolding session_at_key [symmetric]
    by (cases "session_at (wk_conns w) t") (auto dest: sess_key_eqD)
  show ?thesis using assms(1,2) unfolding ids_ok_def by (metis *)
qed


section \<open>Operations on one entry\<close>

text \<open>The entry in hand is replaced by one that keeps its books and its session's identity.\<close>

definition keeps :: "entry \<Rightarrow> entry \<Rightarrow> bool" where
  "keeps e e' \<longleftrightarrow> link_ok e' \<and> phase_ok e' \<and> on_record (en_conn e') = on_record (en_conn e) \<and> ekey e' = ekey e"

lemma bind_update: "Option.bind (((map_of conns)(key \<mapsto> e')) t) ekey = Option.bind (map_of conns t) ekey"
  if "map_of conns key = Some e" "ekey e' = ekey e"
  using that by simp

lemma books_ok_entry: "books_ok w \<Longrightarrow> map_of (wk_conns w) key = Some e \<Longrightarrow> link_ok e \<and> phase_ok e"
  by (simp add: books_ok_def)

lemma put_entry_simps [simp]:
  "wk_subs (put_entry key e w) = wk_subs w" "wk_inflight (put_entry key e w) = wk_inflight w"
  "wk_outbound (put_entry key e w) = wk_outbound w" "wk_drawn (put_entry key e w) = wk_drawn w"
  "wk_conns (put_entry key e w) = AList.update key e (wk_conns w)"
  by (simp_all add: put_entry_def)

lemma worker_inv_cong:
  assumes "wk_conns w' = wk_conns w" "wk_subs w' = wk_subs w" "wk_inflight w' = wk_inflight w"
    "wk_outbound w' = wk_outbound w" "wk_drawn w' = wk_drawn w"
  shows "worker_inv h w' = worker_inv h w"
  using assms by (simp add: worker_inv_def books_ok_def ids_ok_def fresh_ids_def)

lemma put_inv:
  assumes inv: "worker_inv h w" and at: "map_of (wk_conns w) key = Some e" and "keeps e e'"
  shows "worker_inv h (put_entry key e' w)"
proof -
  have hm: "hm_ok (wk_conns w)" using inv by (simp add: worker_inv_def books_ok_def)
  have k: "Option.bind (map_of (AList.update key e' (wk_conns w)) t) ekey = Option.bind (map_of (wk_conns w) t) ekey" for t
    using assms(3) at hm by (simp add: hm_simps keeps_def)
  have "books_ok (put_entry key e' w)"
    using inv assms(3) hm tally_update [OF at, of rec_in e'] tally_update [OF at, of rec_out e']
    by (auto simp: worker_inv_def books_ok_def keeps_def hm_simps rec_in_def rec_out_def split: if_splits)
  moreover have "indexed (wk_conns (put_entry key e' w)) (wk_subs w)" if "fresh_ids h w"
    using inv hm k that by (auto simp: worker_inv_def hm_simps intro: indexed_cong)
  moreover have "ids_ok h (put_entry key e' w)" if "fresh_ids h w"
    using inv k that by (auto simp: worker_inv_def intro: ids_cong)
  ultimately show ?thesis by (simp add: worker_inv_def fresh_ids_def)
qed

lemma put_others_calm: "others_calm m key w \<Longrightarrow> hm_ok (wk_conns w) \<Longrightarrow> others_calm m key (put_entry key e' w)"
  by (simp add: others_calm_def hm_simps)

lemma keeps_refl: "link_ok e \<Longrightarrow> phase_ok e \<Longrightarrow> keeps e e"
  by (simp add: keeps_def)

lemma keeps_trans: "keeps a b \<Longrightarrow> keeps b c \<Longrightarrow> keeps a c"
  by (simp add: keeps_def)

lemma keeps_steps:
  assumes "steps e e'" and "link_ok e" and "phase_ok e" and "ekey e' = ekey e"
  shows "keeps e e'"
  using assms by (auto simp: keeps_def steps_def phase_ok_def ekey_def)

lemma hm_conns: "worker_inv h w \<Longrightarrow> hm_ok (wk_conns w)"
  by (simp add: worker_inv_def books_ok_def)


section \<open>Folding\<close>

lemma fold_codel_inv:
  assumes "worker_inv h w"
  shows "worker_inv h (fold_codel key w)"
proof (cases "map_of (wk_conns w) key")
  case (Some e)
  let ?e = "e\<lparr>en_conn := (en_conn e)\<lparr>c_codel_dropped := 0\<rparr>\<rparr>"
  have "link_ok e" "phase_ok e" using assms Some by (auto simp: worker_inv_def dest: books_ok_entry)
  then have "keeps e ?e"
    by (simp add: keeps_def link_ok_def conn_ok_def cursor_ok_def phase_ok_def on_record_def accounted_bytes_def
        outbound_bytes_def)
  from put_inv [OF assms Some this] show ?thesis
    by (simp add: fold_codel_def Some take_codel_dropped_def worker_inv_cong [of "(put_entry key ?e w)\<lparr>wk_codel := _\<rparr>" "put_entry key ?e w"])
qed (use assms in \<open>simp add: fold_codel_def\<close>)

lemma fold_drophead_inv:
  assumes "worker_inv h w"
  shows "worker_inv h (fold_drophead key w)"
proof (cases "map_of (wk_conns w) key")
  case (Some e)
  let ?e = "e\<lparr>en_conn := (en_conn e)\<lparr>c_drophead_dropped := 0\<rparr>\<rparr>"
  have "link_ok e" "phase_ok e" using assms Some by (auto simp: worker_inv_def dest: books_ok_entry)
  then have "keeps e ?e"
    by (simp add: keeps_def link_ok_def conn_ok_def cursor_ok_def phase_ok_def on_record_def accounted_bytes_def
        outbound_bytes_def)
  from put_inv [OF assms Some this] show ?thesis
    by (simp add: fold_drophead_def Some take_drophead_dropped_def worker_inv_cong [of "(put_entry key ?e w)\<lparr>wk_drophead := _\<rparr>" "put_entry key ?e w"])
qed (use assms in \<open>simp add: fold_drophead_def\<close>)

lemma fold_delta_inv:
  assumes "worker_inv h w"
  shows "worker_inv h (fold_delta key w)"
proof (cases "map_of (wk_conns w) key")
  case (Some e)
  let ?c = "(en_conn e)\<lparr>c_inflight_delta := 0, c_outbound_delta := 0\<rparr>"
  let ?e = "e\<lparr>en_conn := ?c\<rparr>"
  have e: "link_ok e" "phase_ok e" using assms Some by (auto simp: worker_inv_def dest: books_ok_entry)
  have hm: "hm_ok (wk_conns w)" using assms by (rule hm_conns)
  have r: "rec_in ?e = rec_in e + c_inflight_delta (en_conn e)" "rec_out ?e = rec_out e + c_outbound_delta (en_conn e)"
    by (simp_all add: rec_in_def rec_out_def on_record_def accounted_bytes_def outbound_bytes_def)
  have k: "Option.bind (map_of (AList.update key ?e (wk_conns w)) t) ekey = Option.bind (map_of (wk_conns w) t) ekey" for t
    using Some hm by (simp add: hm_simps)
  have "books_ok (fold_delta key w)"
    using assms e hm
    by (auto simp: worker_inv_def books_ok_def fold_delta_def Some take_inflight_delta_def take_outbound_delta_def hm_simps
        tally_update [OF Some] r link_ok_def conn_ok_def cursor_ok_def phase_ok_def wi_hom_syms algebra_simps split: if_splits)
  moreover have "indexed (wk_conns (fold_delta key w)) (wk_subs (fold_delta key w))" if "fresh_ids h w"
    using assms hm k that
    by (auto simp: worker_inv_def fold_delta_def Some take_inflight_delta_def take_outbound_delta_def hm_simps
        intro: indexed_cong)
  moreover have "ids_ok h (fold_delta key w)" if "fresh_ids h w"
    using assms k that
    by (auto simp: worker_inv_def fold_delta_def Some take_inflight_delta_def take_outbound_delta_def intro: ids_cong)
  moreover have "wk_drawn (fold_delta key w) = wk_drawn w"
    by (simp add: fold_delta_def Some take_inflight_delta_def take_outbound_delta_def)
  ultimately show ?thesis by (simp add: worker_inv_def fresh_ids_def)
qed (use assms in \<open>simp add: fold_delta_def\<close>)

lemma fold_all_inv: "worker_inv h w \<Longrightarrow> worker_inv h (fold_all key w)"
  by (simp add: fold_all_def fold_delta_inv fold_codel_inv fold_drophead_inv)

text \<open>What folding leaves at the key, and that it touches nothing else.\<close>

definition folded :: "conn \<Rightarrow> conn" where
  "folded c = c\<lparr>c_inflight_delta := 0, c_outbound_delta := 0, c_codel_dropped := 0, c_drophead_dropped := 0\<rparr>"

lemma fold_all_conns:
  assumes "hm_ok (wk_conns w)"
  shows "map_of (wk_conns (fold_all key w)) =
    (case map_of (wk_conns w) key of
       None \<Rightarrow> map_of (wk_conns w)
     | Some e \<Rightarrow> (map_of (wk_conns w))(key \<mapsto> e\<lparr>en_conn := folded (en_conn e)\<rparr>))"
  using assms
  by (auto simp: fold_all_def fold_delta_def fold_codel_def fold_drophead_def take_inflight_delta_def take_outbound_delta_def
      take_codel_dropped_def take_drophead_dropped_def folded_def hm_simps split: option.split)

lemma folds_conns:
  "hm_ok (wk_conns w) \<Longrightarrow> others_calm m key w \<Longrightarrow> others_calm m key (fold_codel key w)"
  "hm_ok (wk_conns w) \<Longrightarrow> others_calm m key w \<Longrightarrow> others_calm m key (fold_drophead key w)"
  "hm_ok (wk_conns w) \<Longrightarrow> others_calm m key w \<Longrightarrow> others_calm m key (fold_delta key w)"
  by (auto simp: fold_codel_def fold_drophead_def fold_delta_def take_codel_dropped_def take_drophead_dropped_def
      take_inflight_delta_def take_outbound_delta_def others_calm_def hm_simps split: option.splits)

lemma calm_folded: "tidy m e \<Longrightarrow> calm_entry m (e\<lparr>en_conn := folded (en_conn e)\<rparr>)"
  by (auto simp: calm_entry_def folded_def tidy_def ready_def owes_def link_ok_def conn_ok_def cursor_ok_def billed_def)

lemma fold_all_calm:
  assumes "worker_inv h w" and "others_calm m key w" and "\<And>e. map_of (wk_conns w) key = Some e \<Longrightarrow> tidy m e"
  shows "all_calm m (fold_all key w)"
proof -
  have "calm_entry m e" if "map_of (wk_conns (fold_all key w)) k = Some e" for k e
  proof (cases "k = key")
    case True
    with that assms(3) calm_folded hm_conns [OF assms(1)] show ?thesis
      by (cases "map_of (wk_conns w) key") (auto simp: fold_all_conns)
  next
    case False
    with that assms(2) hm_conns [OF assms(1)] show ?thesis
      by (cases "map_of (wk_conns w) key") (auto simp: fold_all_conns others_calm_def)
  qed
  then show ?thesis by (simp add: all_calm_def)
qed


section \<open>Teardown\<close>

lemma take_entry_simps [simp]:
  "wk_conns (take_entry key e w) = AList.delete key (wk_conns w)" "wk_subs (take_entry key e w) = wk_subs w"
  "wk_drawn (take_entry key e w) = wk_drawn w"
  by (simp_all add: take_entry_def case_prod_unfold Let_def)

lemma take_entry_books:
  assumes "books_ok w" and at: "map_of (wk_conns w) key = Some e"
  shows "books_ok (take_entry key e w)"
proof -
  have hm: "hm_ok (wk_conns w)" using assms by (simp add: books_ok_def)
  have w: "word_of_int T + word_of_int d - of_nat a = (word_of_int (T - (int a - d)) :: u64)" for T d a
    by (simp add: algebra_simps)
  have r: "rec_in e = int (accounted_bytes (en_conn e)) - c_inflight_delta (en_conn e)"
    "rec_out e = int (outbound_bytes (en_conn e)) - c_outbound_delta (en_conn e)"
    by (simp_all add: rec_in_def rec_out_def on_record_def)
  have a: "accounted_bytes ((en_conn e)\<lparr>c_inflight_delta := x, c_outbound_delta := y\<rparr>) = accounted_bytes (en_conn e)"
    "outbound_bytes ((en_conn e)\<lparr>c_inflight_delta := x, c_outbound_delta := y\<rparr>) = outbound_bytes (en_conn e)" for x y
    by (simp_all add: accounted_bytes_def outbound_bytes_def)
  have "wk_inflight (take_entry key e w) = word_of_int (tally rec_in (AList.delete key (wk_conns w)))"
    "wk_outbound (take_entry key e w) = word_of_int (tally rec_out (AList.delete key (wk_conns w)))"
    using assms(1) unfolding tally_delete [OF hm at] r
    by (simp_all only: take_entry_def take_inflight_delta_def take_outbound_delta_def Let_def prod.case books_ok_def
        worker.simps conn.simps w a) simp_all
  then show ?thesis using assms(1) hm by (auto simp: books_ok_def hm_simps split: if_splits)
qed

lemma ids_delete:
  assumes "ids_ok h w" and "hm_ok (wk_conns w)" and "wk_conns w' = AList.delete key (wk_conns w)" and "wk_drawn w' = wk_drawn w"
  shows "ids_ok h w'"
proof -
  have *: "session_at (wk_conns w') k = (if k = key then None else session_at (wk_conns w) k)" for k
    using assms(2,3) by (simp add: session_at_def hm_simps)
  show ?thesis using assms(1,4) unfolding ids_ok_def * by (auto split: if_splits)
qed

text \<open>The index holds exactly the session's items under its socket id.\<close>

lemma indexed_own:
  assumes "worker_inv h w" and fr: "fresh_ids h w" and "map_of (wk_conns w) key = Some e" and "en_session e = Some s"
  shows "gview (wk_subs w) k (cx_socket_id (se_ctx s)) = index_item s key k"
proof -
  have at: "session_at (wk_conns w) key = Some s" using assms by (simp add: session_at_def)
  have idx: "gview (wk_subs w) k sid = Some (tok, v) \<longleftrightarrow>
      (\<exists>s. session_at (wk_conns w) tok = Some s \<and> cx_socket_id (se_ctx s) = sid \<and> index_item s tok k = Some (tok, v))" for sid tok v
    using assms(1) fr unfolding worker_inv_def indexed_def by blast
  have uniq: "tok = key \<and> s' = s" if "session_at (wk_conns w) tok = Some s'" "cx_socket_id (se_ctx s') = cx_socket_id (se_ctx s)" for tok s'
    using assms(1) fr at that unfolding worker_inv_def ids_ok_def by (metis option.inject)
  show ?thesis
  proof (cases "index_item s key k")
    case None
    have "gview (wk_subs w) k (cx_socket_id (se_ctx s)) \<noteq> Some (tok, v)" for tok v
      unfolding idx using uniq None by fastforce
    with None show ?thesis by (cases "gview (wk_subs w) k (cx_socket_id (se_ctx s))") auto
  next
    case (Some p)
    then obtain v where v: "index_item s key k = Some (key, v)" by (auto simp: index_item_def split: if_splits)
    with at have "gview (wk_subs w) k (cx_socket_id (se_ctx s)) = Some (key, v)" unfolding idx by blast
    with v show ?thesis by simp
  qed
qed

lemma indexed_deindexed:
  assumes inv: "worker_inv h w" and fr: "fresh_ids h w" and at: "map_of (wk_conns w) key = Some e" and s: "en_session e = Some s"
  shows "indexed (AList.delete key (wk_conns w)) (deindex_connection s (wk_subs w))"
proof -
  have idx: "indexed (wk_conns w) (wk_subs w)" and hm: "hm_ok (wk_conns w)"
    using inv fr by (simp_all add: worker_inv_def books_ok_def)
  have sess: "session_at (AList.delete key (wk_conns w)) k = (if k = key then None else session_at (wk_conns w) k)" for k
    using hm by (simp add: session_at_def hm_simps)
  have at': "session_at (wk_conns w) key = Some s" using at s by (simp add: session_at_def)
  have uniq: "tok = key" if "session_at (wk_conns w) tok = Some s'" "cx_socket_id (se_ctx s') = cx_socket_id (se_ctx s)" for tok s'
    using inv fr at' that unfolding worker_inv_def ids_ok_def by blast
  have "groups_ok (wk_subs w)" using idx by (simp add: indexed_def)
  from deindex_correct [OF this, of s key] indexed_own [OF inv fr at s]
  have d: "groups_ok (deindex_connection s (wk_subs w))"
    "gview (deindex_connection s (wk_subs w)) = (\<lambda>k sid. if sid = cx_socket_id (se_ctx s) then None else gview (wk_subs w) k sid)"
    by auto
  have "gview (deindex_connection s (wk_subs w)) k sid = Some (tok, v) \<longleftrightarrow>
      (\<exists>s'. session_at (AList.delete key (wk_conns w)) tok = Some s' \<and> cx_socket_id (se_ctx s') = sid \<and> index_item s' tok k = Some (tok, v))"
    for k sid tok v
  proof (cases "sid = cx_socket_id (se_ctx s)")
    case True
    then show ?thesis using uniq by (auto simp: sess d(2) split: if_splits)
  next
    case False
    have "gview (wk_subs w) k sid = Some (tok, v) \<longleftrightarrow>
        (\<exists>s'. session_at (wk_conns w) tok = Some s' \<and> cx_socket_id (se_ctx s') = sid \<and> index_item s' tok k = Some (tok, v))"
      using idx unfolding indexed_def by blast
    with False at' show ?thesis by (cases "tok = key") (simp_all add: sess d(2))
  qed
  with hm d(1) show ?thesis unfolding indexed_def by (simp add: hm_simps)
qed

lemma close_session_simps [simp]:
  "wk_conns (close_session h s w) = wk_conns w" "wk_subs (close_session h s w) = deindex_connection s (wk_subs w)"
  "wk_inflight (close_session h s w) = wk_inflight w" "wk_outbound (close_session h s w) = wk_outbound w"
  "wk_drawn (close_session h s w) = wk_drawn w"
  by (simp_all add: close_session_def case_prod_unfold Let_def)

lemma books_ok_cong:
  assumes "wk_conns w' = wk_conns w" "wk_inflight w' = wk_inflight w" "wk_outbound w' = wk_outbound w"
  shows "books_ok w' = books_ok w"
  using assms by (simp add: books_ok_def)

lemma wheel_inv [simp]: "worker_inv h (w\<lparr>wk_wheel := x\<rparr>) = worker_inv h w"
  by (rule worker_inv_cong) simp_all

lemma indexed_gone:
  assumes "worker_inv h w" and "fresh_ids h w" and "map_of (wk_conns w) key = Some e" and "en_session e = None"
  shows "indexed (AList.delete key (wk_conns w)) (wk_subs w)"
  using assms hm_conns [OF assms(1)]
  by (auto simp: worker_inv_def hm_simps ekey_def intro!: indexed_cong [of "wk_conns w"])

lemma take_entry_inv:
  assumes "worker_inv h w" and "map_of (wk_conns w) key = Some e" and "en_session e = None"
  shows "worker_inv h (take_entry key e w)"
  using assms take_entry_books [OF _ assms(2)] indexed_gone [OF assms(1) _ assms(2,3)] hm_conns [OF assms(1)]
    ids_delete [of h w "take_entry key e w" key]
  by (simp add: worker_inv_def fresh_ids_def)

lemma close_session_inv:
  assumes "worker_inv h w" and "map_of (wk_conns w) key = Some e" and "en_session e = Some s"
  shows "worker_inv h (close_session h s (take_entry key e w))"
proof -
  have "books_ok (close_session h s (take_entry key e w))"
    using take_entry_books [OF _ assms(2)] assms(1)
    by (subst books_ok_cong [of _ "take_entry key e w"]) (simp_all add: worker_inv_def)
  moreover have "ids_ok h (close_session h s (take_entry key e w))" if "fresh_ids h w"
    using assms(1) that hm_conns [OF assms(1)] by (auto simp: worker_inv_def intro!: ids_delete [of h w _ key])
  ultimately show ?thesis using indexed_deindexed [OF assms(1) _ assms(2,3)] by (simp add: worker_inv_def fresh_ids_def)
qed

lemma remove_inv: "worker_inv h w \<Longrightarrow> worker_inv h (remove_conn h key w)"
  using take_entry_inv [of h "w\<lparr>wk_wheel := tw_remove key (wk_wheel w)\<rparr>" key]
    close_session_inv [of h "w\<lparr>wk_wheel := tw_remove key (wk_wheel w)\<rparr>" key]
  by (simp add: remove_conn_def Let_def split: option.split)

lemma remove_conns: "hm_ok (wk_conns w) \<Longrightarrow> map_of (wk_conns (remove_conn h key w)) = (map_of (wk_conns w))(key := None)"
  by (auto simp: remove_conn_def Let_def hm_simps split: option.split)

lemma remove_calm: "worker_inv h w \<Longrightarrow> others_calm m key w \<Longrightarrow> all_calm m (remove_conn h key w)"
  using hm_conns [of h w] by (auto simp: all_calm_def others_calm_def remove_conns split: if_splits)

lemma handoff_conns:
  "hm_ok (wk_conns w) \<Longrightarrow> map_of (wk_conns (handoff_rest h key replay w)) = (map_of (wk_conns w))(key := None)"
  by (auto simp: handoff_rest_def Let_def hm_simps split: option.split)

lemma handoff_inv:
  assumes "worker_inv h w" and "\<And>e. map_of (wk_conns w) key = Some e \<Longrightarrow> en_session e = None"
  shows "worker_inv h (handoff_rest h key replay w)"
proof (cases "map_of (wk_conns w) key")
  case (Some e)
  from take_entry_inv [OF assms(1) Some assms(2) [OF Some]]
  have "worker_inv h ((take_entry key e w)\<lparr>wk_handoffs := x\<rparr>)" for x
    by (subst worker_inv_cong [of _ "take_entry key e w"]) simp_all
  with take_entry_inv [OF assms(1) Some assms(2) [OF Some]] Some show ?thesis
    by (simp add: handoff_rest_def Let_def)
qed (use assms in \<open>simp add: handoff_rest_def\<close>)

lemma indexed_reconciled:
  assumes inv: "worker_inv h w" and fr: "fresh_ids h w" and at: "map_of (wk_conns w) key = Some e" and s: "en_session e = Some s"
    and r: "reconcile_membership key (s, wk_subs w) = (s', ls)"
  shows "indexed (AList.update key (e\<lparr>en_session := Some s'\<rparr>) (wk_conns w)) ls" and "se_ctx s' = se_ctx s"
proof -
  have idx: "indexed (wk_conns w) (wk_subs w)" and hm: "hm_ok (wk_conns w)"
    using inv fr by (simp_all add: worker_inv_def books_ok_def)
  have g: "groups_ok (wk_subs w)" using idx by (simp add: indexed_def)
  from reconcile_correct [OF g, of s key s' ls] indexed_own [OF inv fr at s] r
  have c: "groups_ok ls" "se_ctx s' = se_ctx s"
    "gview ls = (\<lambda>k sid. if sid = cx_socket_id (se_ctx s) then index_item s' key k else gview (wk_subs w) k sid)"
    by simp_all
  show "se_ctx s' = se_ctx s" by (fact c(2))
  let ?conns = "AList.update key (e\<lparr>en_session := Some s'\<rparr>) (wk_conns w)"
  have sess: "session_at ?conns k = (if k = key then Some s' else session_at (wk_conns w) k)" for k
    using hm by (simp add: session_at_def hm_simps)
  have at': "session_at (wk_conns w) key = Some s" using at s by (simp add: session_at_def)
  have uniq: "tok = key" if "session_at (wk_conns w) tok = Some s''" "cx_socket_id (se_ctx s'') = cx_socket_id (se_ctx s)" for tok s''
    using inv fr at' that unfolding worker_inv_def ids_ok_def by blast
  have "gview ls k sid = Some (tok, v) \<longleftrightarrow>
      (\<exists>s''. session_at ?conns tok = Some s'' \<and> cx_socket_id (se_ctx s'') = sid \<and> index_item s'' tok k = Some (tok, v))"
    for k sid tok v
  proof (cases "sid = cx_socket_id (se_ctx s)")
    case True
    have "index_item s' key k = Some (tok, v) \<longrightarrow> tok = key" by (simp add: index_item_def)
    with True uniq show ?thesis by (auto simp: sess c(2,3) split: if_splits)
  next
    case False
    have "gview (wk_subs w) k sid = Some (tok, v) \<longleftrightarrow>
        (\<exists>s'. session_at (wk_conns w) tok = Some s' \<and> cx_socket_id (se_ctx s') = sid \<and> index_item s' tok k = Some (tok, v))"
      using idx unfolding indexed_def by blast
    with False at' show ?thesis by (cases "tok = key") (auto simp: sess c(2,3))
  qed
  with hm c(1) show "indexed ?conns ls" unfolding indexed_def by (simp add: hm_simps)
qed

lemma reconcile_inv:
  assumes inv: "worker_inv h w"
  shows "worker_inv h (reconcile key w)"
proof (cases "Option.bind (map_of (wk_conns w) key) en_session")
  case None
  with inv show ?thesis by (auto simp: reconcile_def split: option.split)
next
  case (Some s)
  then obtain e where e: "map_of (wk_conns w) key = Some e" "en_session e = Some s" by (auto simp: bind_eq_Some_conv)
  obtain s' ls where r: "reconcile_membership key (s, wk_subs w) = (s', ls)" by fastforce
  note ix = indexed_reconciled [OF inv _ e r]
  let ?e = "e\<lparr>en_session := Some s'\<rparr>"
  have w: "reconcile key w = (put_entry key ?e w)\<lparr>wk_subs := ls\<rparr>" by (simp add: reconcile_def e r)
  have hm: "hm_ok (wk_conns w)" by (rule hm_conns [OF inv])
  have "link_ok e \<and> phase_ok e" using inv e(1) by (simp add: worker_inv_def books_ok_def)
  then have "link_ok ?e \<and> phase_ok ?e" using e(2) by (auto simp: link_ok_def phase_ok_def)
  then have "books_ok (reconcile key w)"
    using inv e hm tally_update [OF e(1), of rec_in ?e] tally_update [OF e(1), of rec_out ?e]
    by (auto simp: w worker_inv_def books_ok_def hm_simps rec_in_def rec_out_def split: if_splits)
  moreover have "ids_ok h (reconcile key w)" if fr: "fresh_ids h w"
  proof -
    have "session_at (wk_conns (reconcile key w)) k = (if k = key then Some s' else session_at (wk_conns w) k)" for k
      using hm by (simp add: w session_at_def hm_simps)
    moreover have "session_at (wk_conns w) key = Some s" using e by (simp add: session_at_def)
    ultimately show ?thesis
      using inv fr ix(2) [OF fr] unfolding worker_inv_def ids_ok_def by (simp add: w) (metis option.inject)
  qed
  ultimately show ?thesis using ix(1) by (simp add: worker_inv_def w fresh_ids_def)
qed


section \<open>Establishing\<close>

lemma establish_simps:
  assumes "establish h it result c nt slot w = (res, w')"
  shows "wk_conns w' = wk_conns w" "wk_subs w' = wk_subs w" "wk_inflight w' = wk_inflight w" "wk_outbound w' = wk_outbound w"
    "res = Inl rj \<Longrightarrow> wk_drawn w' = wk_drawn w"
    "res = Inr s \<Longrightarrow> wk_drawn w' = Suc (wk_drawn w) \<and> se_subs s = [] \<and> cx_socket_id (se_ctx s) = drawn_id h (wk_drawn w)"
proof -
  show "res = Inr s \<Longrightarrow> wk_drawn w' = Suc (wk_drawn w) \<and> se_subs s = [] \<and> cx_socket_id (se_ctx s) = drawn_id h (wk_drawn w)"
    using assms
    by (auto simp: establish_def finish_establish_def register_session_def new_context_def drawn_id_def Let_def
        split: sum.splits app_lookup.splits prod.splits if_splits option.splits bool.splits)
qed (use assms in \<open>auto simp: establish_def Let_def split: sum.splits app_lookup.splits prod.splits\<close>)

lemma establish_refused_inv:
  "establish h it result c nt slot w = (Inl rj, w') \<Longrightarrow> worker_inv h w \<Longrightarrow> worker_inv h w'"
  using establish_simps [of h it result c nt slot w "Inl rj" w']
  by (subst worker_inv_cong [of _ w]) simp_all

lemma established_inv:
  assumes inv: "worker_inv h w" 
    and at: "map_of (wk_conns w) key = Some e" and none: "en_session e = None"
    and est: "establish h it result c nt slot w = (Inr s, w1)"
    and e': "link_ok e'" "phase_ok e'" "on_record (en_conn e') = on_record (en_conn e)" "en_session e' = Some s"
  shows "worker_inv h (put_entry key e' w1)"
proof -
  note es = establish_simps [OF est]
  have hm: "hm_ok (wk_conns w)" by (rule hm_conns [OF inv])
  have s: "se_subs s = []" "cx_socket_id (se_ctx s) = drawn_id h (wk_drawn w)" "wk_drawn w1 = Suc (wk_drawn w)"
    using es(6) by auto
  let ?conns = "AList.update key e' (wk_conns w)"
  have sess: "session_at ?conns k = (if k = key then Some s else session_at (wk_conns w) k)" for k
    using hm e'(4) by (simp add: session_at_def hm_simps)
  have key: "session_at (wk_conns w) key = None" using at none by (simp add: session_at_def)
  have fr: "fresh_ids h w" if "fresh_ids h w1" using that by (auto simp: fresh_ids_def s(3) intro: inj_on_subset)
  have old: "\<exists>j < wk_drawn w. cx_socket_id (se_ctx s') = drawn_id h j" if "fresh_ids h w" "session_at (wk_conns w) k = Some s'" for k s'
    using inv that unfolding worker_inv_def ids_ok_def by blast
  have new: "cx_socket_id (se_ctx s') \<noteq> drawn_id h (wk_drawn w)" if "fresh_ids h w1" "session_at (wk_conns w) k = Some s'" for k s'
    using old [OF fr [OF that(1)] that(2)] that(1) unfolding fresh_ids_def s(3) inj_on_def
    by (metis lessI lessThan_iff less_SucI nat_neq_iff)
  have "books_ok (put_entry key e' w1)"
    using inv hm e' tally_update [OF at, of rec_in e'] tally_update [OF at, of rec_out e']
    by (auto simp: worker_inv_def books_ok_def es(1-4) hm_simps rec_in_def rec_out_def split: if_splits)
  moreover have "indexed ?conns (wk_subs w)" if "fresh_ids h w1"
  proof -
    have "gview (wk_subs w) k sid = Some (tok, v) \<longleftrightarrow>
        (\<exists>s'. session_at (wk_conns w) tok = Some s' \<and> cx_socket_id (se_ctx s') = sid \<and> index_item s' tok k = Some (tok, v))"
      for k sid tok v
      using inv fr [OF that] unfolding worker_inv_def indexed_def by blast
    then have "gview (wk_subs w) k sid = Some (tok, v) \<longleftrightarrow>
        (\<exists>s'. session_at ?conns tok = Some s' \<and> cx_socket_id (se_ctx s') = sid \<and> index_item s' tok k = Some (tok, v))"
      for k sid tok v
      using key s(1) by (cases "tok = key") (auto simp: sess index_item_def)
    with inv hm fr [OF that] show ?thesis unfolding worker_inv_def indexed_def by (simp add: hm_simps)
  qed
  moreover have "ids_ok h (put_entry key e' w1)" if "fresh_ids h w1"
    unfolding ids_ok_def put_entry_simps es(1) sess s(3)
    using inv fr [OF that] new [OF that] old [OF fr [OF that]] s(2) less_Suc_eq unfolding worker_inv_def ids_ok_def by (simp split: if_splits) metis
  ultimately show ?thesis by (simp add: worker_inv_def fresh_ids_def es)
qed


section \<open>One connection's event\<close>

text \<open>The records of an entry in the slab, carried through the steps of an operation.\<close>

definition same_books :: "entry \<Rightarrow> entry \<Rightarrow> bool" where
  "same_books e e' \<longleftrightarrow> on_record (en_conn e') = on_record (en_conn e) \<and> en_pending_establish e' = en_pending_establish e \<and>
     en_session e' = en_session e \<and> c_state (en_conn e') = c_state (en_conn e)"

lemma same_books_refl [simp]: "same_books e e"
  by (simp add: same_books_def)

lemma same_books_trans: "same_books a b \<Longrightarrow> same_books b c \<Longrightarrow> same_books a c"
  by (simp add: same_books_def)

lemma same_books_queue: "link_ok e \<Longrightarrow> same_books e (entry_queue f now e)"
  using steps_queue [of e f now] by (auto simp: same_books_def steps_def)

lemma same_books_flush: "link_ok e \<Longrightarrow> flush_and_arm now e = (act, e') \<Longrightarrow> same_books e e'"
  using flush_steps(1,2) [of now e act e'] by (auto simp: same_books_def steps_def)

lemma same_books_keeps:
  "same_books e e' \<Longrightarrow> link_ok e' \<Longrightarrow> phase_ok e \<Longrightarrow> keeps e e'"
  by (auto simp: same_books_def keeps_def phase_ok_def ekey_def)

text \<open>What an operation on the connection at \<open>key\<close> leaves behind, by its action.\<close>

definition op_ok :: "'c host \<Rightarrow> nat \<Rightarrow> nat \<Rightarrow> action \<Rightarrow> 'c worker \<Rightarrow> bool" where
  "op_ok h m key act w \<longleftrightarrow> worker_inv h w \<and> others_calm m key w \<and>
     (act = Keep \<longrightarrow> (\<forall>e. map_of (wk_conns w) key = Some e \<longrightarrow> tidy m e)) \<and>
     ((\<exists>r. act = Handoff r) \<longrightarrow> (\<forall>e. map_of (wk_conns w) key = Some e \<longrightarrow> en_session e = None))"

lemma op_ok_put:
  assumes "worker_inv h w" and "others_calm m key w" and "map_of (wk_conns w) key = Some e" and "keeps e e'"
    and "act = Keep \<Longrightarrow> tidy m e'" and "\<exists>r. act = Handoff r \<Longrightarrow> en_session e' = None"
  shows "op_ok h m key act (put_entry key e' w)"
  using assms put_inv [OF assms(1,3,4)] put_others_calm [OF assms(2) hm_conns [OF assms(1)]] hm_conns [OF assms(1)]
  by (auto simp: op_ok_def hm_simps)

lemma reject_op:
  assumes inv: "worker_inv h w" and oc: "others_calm m key w" and at: "map_of (wk_conns w) key = Some e0"
    and k: "keeps e0 e" and r: "ready m e"
    and res: "reject_conn h it key rj e w = (act, w')"
  shows "op_ok h m key act w'"
proof -
  let ?q = "queue_reject (h_json h) rj (it_now it) e"
  obtain a e' where f: "flush_and_arm (it_now it) ?q = (a, e')" by fastforce
  have l: "link_ok e" using r by (simp add: ready_def)
  have q1: "same_books e (entry_queue f now e)" "ready m (entry_queue f now e)" for f now
    using same_books_queue [OF l] ready_queue [OF r] by auto
  have q: "same_books e ?q" "ready m ?q"
    using q1 ready_queue [OF q1(2)] same_books_trans [OF q1(1) same_books_queue]
    by (simp_all add: queue_reject_def queue_close_frame_def ready_def)
  have "same_books e e'" using same_books_flush [OF _ f] q by (auto simp: ready_def intro: same_books_trans)
  moreover have "ready m e'" using ready_flush [OF q(2) f] by simp
  ultimately have "keeps e0 e'"
    using k same_books_keeps [of e e'] by (auto simp: ready_def keeps_def)
  from op_ok_put [OF inv oc at this, of CloseConn] res f show ?thesis by (auto simp: reject_conn_def)
qed

lemma park_op:
  assumes inv: "worker_inv h w" and oc: "others_calm m key w" and at: "map_of (wk_conns w) key = Some e0"
    and k: "keeps e0 e" and r: "ready m e" and e: "en_session e = None" "c_state (en_conn e) = conn_state.Open"
    and res: "park h it key ak c nt e w = (act, w')"
  shows "op_ok h m key act w'"
proof -
  define pe where "pe = \<lparr>pe_key = ak, pe_codec = c, pe_notify = nt,
    pe_mailbox_dropped = cf_mailbox_dropped_slot (h_cfg h), pe_gen = wk_next_gen w\<rparr>"
  let ?e = "e\<lparr>en_pending_establish := Some pe\<rparr>"
  let ?w = "w\<lparr>wk_next_gen := wk_next_gen w + 1, wk_lookups := wk_lookups w @ [(key, wk_next_gen w, ak)]\<rparr>"
  obtain a e' where f: "flush_and_arm (it_now it) ?e = (a, e')" by fastforce
  have r': "ready m ?e" using r by simp
  have "same_books ?e e'" using same_books_flush [OF _ f] r' by (simp add: ready_def)
  moreover have r2: "ready m e' \<and> (a = Keep \<longrightarrow> tidy m e')" by (rule ready_flush [OF r' f])
  ultimately have "keeps e0 e'" using k e by (auto simp: keeps_def same_books_def ready_def phase_ok_def ekey_def)
  moreover have "worker_inv h ?w" using inv by (subst worker_inv_cong [of _ w]) simp_all
  moreover have "others_calm m key ?w" "map_of (wk_conns ?w) key = Some e0" using oc at by (simp_all add: others_calm_def)
  moreover have "a = Keep \<or> a = CloseConn" using flush_steps(5) [OF f] .
  ultimately show ?thesis
    using op_ok_put [of h ?w m key e0 e' a] r2 res f by (auto simp: park_def Let_def pe_def)
qed

lemma op_ok_wheel [simp]: "op_ok h m key act (w\<lparr>wk_wheel := x\<rparr>) = op_ok h m key act w"
  by (simp add: op_ok_def others_calm_def)

lemma put_entry_wheel: "put_entry key e (w\<lparr>wk_wheel := x\<rparr>) = (put_entry key e w)\<lparr>wk_wheel := x\<rparr>"
  by (simp add: put_entry_def)

lemma established_op:
  assumes inv: "worker_inv h w" and oc: "others_calm m key w" and at: "map_of (wk_conns w) key = Some e0"
    and k: "keeps e0 e" and r: "ready m e" and e: "en_session e = None" "c_state (en_conn e) = conn_state.Open" "en_pending_establish e = None"
    and s: "establish h it result c nt slot w = (Inr ss, w1)"
    and f: "flush_and_arm (it_now it) (established_entry h ss (it_now it) e) = (a, e')"
  shows "op_ok h m key a (put_entry key e' w1)"
proof -
  let ?e = "established_entry h ss (it_now it) e"
  have oc1: "others_calm m key w1" "map_of (wk_conns w1) key = Some e0"
    using oc at establish_simps(1) [OF s] by (simp_all add: others_calm_def)
  have r': "ready m ?e" using ready_queue [OF r] by (simp add: established_entry_def)
  have sb: "same_books ?e e'" using same_books_flush [OF _ f] r' by (simp add: ready_def)
  have r2: "ready m e' \<and> (a = Keep \<longrightarrow> tidy m e')" by (rule ready_flush [OF r' f])
  have q: "same_books e (entry_queue x now e)" for x now using same_books_queue r by (simp add: ready_def)
  have e': "link_ok e'" "phase_ok e'" "on_record (en_conn e') = on_record (en_conn e0)" "en_session e' = Some ss"
    using r2 sb q k e by (auto simp: ready_def same_books_def keeps_def established_entry_def phase_ok_def)
  have none: "en_session e0 = None" using k e(1) by (simp add: keeps_def ekey_def)
  have "worker_inv h (put_entry key e' w1)" using established_inv [OF inv at none s e'] .
  moreover have "hm_ok (wk_conns w1)" using hm_conns [OF inv] establish_simps(1) [OF s] by simp
  ultimately show ?thesis
    using oc1 r2 flush_steps(5) [OF f] by (auto simp: op_ok_def hm_simps others_calm_def)
qed

lemma open_session_op:
  assumes inv: "worker_inv h w" and oc: "others_calm m key w" and at: "map_of (wk_conns w) key = Some e0"
    and k: "keeps e0 e" and r: "ready m e" and e: "en_session e = None" "c_state (en_conn e) = conn_state.Open" "en_pending_establish e = None"
    and res: "open_session h it key path e w = (act, w')"
  shows "op_ok h m key act w'"
proof -
  obtain ak pr ve where p: "parse_app_path path = (ak, pr, ve)" by (metis prod_cases3)
  let ?nt = "\<lparr>token = key, dirty = h_id h\<rparr>"
  show ?thesis
  proof (cases "negotiate pr ve (ev_strict_protocol (h_env h))")
    case (Inl err)
    with res reject_op [OF inv oc at k r] show ?thesis by (simp add: open_session_def p)
  next
    case c: (Inr c)
    show ?thesis
    proof (cases ak)
      case None
      with res c reject_op [OF inv oc at k r] show ?thesis by (simp add: open_session_def p)
    next
      case ak: (Some key')
      show ?thesis
      proof (cases "it_apps it key'")
        case None
        with res c ak park_op [OF inv oc at k r e(1,2)] show ?thesis by (simp add: open_session_def p)
      next
        case (Some result)
        obtain est w1 where s: "establish h it result c ?nt (cf_mailbox_dropped_slot (h_cfg h)) w = (est, w1)" by fastforce
        have oc1: "others_calm m key w1" "map_of (wk_conns w1) key = Some e0"
          using oc at establish_simps(1) [OF s] by (simp_all add: others_calm_def)
        show ?thesis
        proof (cases est)
          case (Inl rj)
          with s have "worker_inv h w1" using establish_refused_inv inv by blast
          from reject_op [OF this oc1 k r] res c ak Some s Inl show ?thesis by (simp add: open_session_def p)
        next
          case (Inr ss)
          obtain a e' where f: "flush_and_arm (it_now it) (established_entry h ss (it_now it) e) = (a, e')" by fastforce
          have "op_ok h m key a (put_entry key e' w1)"
            by (rule established_op [OF inv oc at k r e s [unfolded Inr] f])
          then have "op_ok h m key a (put_entry key e' (w1\<lparr>wk_wheel := x\<rparr>))" for x
            by (simp add: put_entry_wheel)
          with res c ak Some s Inr f show ?thesis by (auto simp: open_session_def p Let_def)
        qed
      qed
    qed
  qed
qed

lemma handshake_interest_ready:
  assumes "ready m e" and "c_state (en_conn e) = Handshaking" and "arm_handshake_interest ww now e = (act, e')"
  shows "ready m e' \<and> same_books e e' \<and> (act = Keep \<or> act = CloseConn) \<and> (act = Keep \<longrightarrow> tidy m e')"
proof (cases "c_out (en_conn e) \<noteq> [] \<or> ww")
  case True
  with assms(3) have f: "flush_and_arm now e = (act, e')" by (auto simp: arm_handshake_interest_def)
  from ready_flush [OF assms(1) f] same_books_flush [OF _ f] flush_steps(5) [OF f] assms(1) show ?thesis
    by (auto simp: ready_def)
next
  case False
  then have "c_out_bytes (en_conn e) = 0" using assms(1) by (simp add: ready_def link_ok_def conn_ok_def sum_len_def)
  moreover from False have "en_conn e' = en_conn e \<or> en_conn e' = set_writable_armed False (en_conn e)"
    "en_tls e' = en_tls e \<and> en_fragment e' = en_fragment e \<and> en_pending_establish e' = en_pending_establish e \<and> en_session e' = en_session e"
    "act = Keep \<or> act = CloseConn"
    using assms(3) by (auto simp: arm_handshake_interest_def Let_def split: if_splits)
  ultimately show ?thesis using assms(1,2)
    by (auto simp: ready_def link_ok_def billed_def conn_ok_def cursor_ok_def tidy_def owes_def same_books_def
        set_writable_armed_def on_record_def accounted_bytes_def outbound_bytes_def)
qed

lemma handle_handshake_op:
  assumes inv: "worker_inv h w" and oc: "others_calm m key w" and at: "map_of (wk_conns w) key = Some e"
    and t: "tidy m e" and st: "c_state (en_conn e) = Handshaking"
    and res: "handle_handshake h it script key e w = (act, w')"
  shows "op_ok h m key act w'"
proof -
  obtain status buf where d: "drain_head_bytes (en_tls e) script (en_inbuf e) = (status, buf)" by fastforce
  let ?e = "e\<lparr>en_inbuf := buf\<rparr>"
  have ph: "phase_ok e" and l: "link_ok e" using inv at by (auto simp: worker_inv_def dest: books_ok_entry)
  then have none: "en_session e = None" "en_pending_establish e = None" using st by (simp_all add: phase_ok_def)
  have r: "ready m ?e" using t by (simp add: tidy_def)
  have k: "keeps e ?e" using ph l by (simp add: keeps_def phase_ok_def link_ok_def)
  have put: "op_ok h m key a (put_entry key ?e w)" if "a = CloseConn \<or> (\<exists>b. a = Handoff b)" for a
    using op_ok_put [OF inv oc at k] that none by auto
  have sb: "keeps e e'" if "same_books ?e e'" "ready m e'" for e'
    using keeps_trans [OF k same_books_keeps [OF that(1)]] that(2) k by (auto simp: ready_def keeps_def)
  have up: "keeps e (e2\<lparr>en_inbuf := [], en_conn := (en_conn e2)\<lparr>c_state := conn_state.Open\<rparr>\<rparr>)"
    if "same_books ?e e2" "ready m e2" for e2
    using that none k by (auto simp: keeps_def same_books_def phase_ok_def ekey_def ready_def link_ok_def conn_ok_def cursor_ok_def
        on_record_def accounted_bytes_def outbound_bytes_def)
  show ?thesis
  proof (cases "status = DrainClosed")
    case True
    with res d put show ?thesis by (auto simp: handle_handshake_def)
  next
    case False
    show ?thesis
    proof (cases "read_head (h_crates h) buf (cf_max_head_bytes (h_cfg h))")
      case NeedMore
      obtain a e2 where a: "arm_handshake_interest (status = DrainNeedsWrite) (it_now it) ?e = (a, e2)" by fastforce
      have "ready m e2 \<and> same_books ?e e2 \<and> (a = Keep \<or> a = CloseConn) \<and> (a = Keep \<longrightarrow> tidy m e2)"
        using handshake_interest_ready [OF r _ a] st by simp
      with op_ok_put [OF inv oc at sb, of e2 a] res d False NeedMore a show ?thesis by (auto simp: handle_handshake_def)
    next
      case (WsUpgrade wkey path)
      define e2 where "e2 = entry_queue (accept_response (h_crates h) wkey) (it_now it) ?e"
      let ?e3 = "e2\<lparr>en_inbuf := [], en_conn := (en_conn e2)\<lparr>c_state := conn_state.Open\<rparr>\<rparr>"
      have e2: "ready m e2" "same_books ?e e2" using ready_queue [OF r] same_books_queue r by (auto simp: e2_def ready_def)
      have r3: "ready m ?e3" using e2(1) by simp
      have k3: "keeps e ?e3" by (rule up [OF e2(2,1)])
      have n3: "en_session ?e3 = None" "en_pending_establish ?e3 = None" using e2(2) none by (simp_all add: same_books_def)
      show ?thesis
      proof (cases "cf_mode (h_cfg h)")
        case Dispatch
        from open_session_op [OF inv oc at k3 r3 n3(1) _ n3(2)] res d False WsUpgrade Dispatch e2_def show ?thesis
          by (auto simp: handle_handshake_def Let_def)
      next
        case Echo
        obtain a e4 where f: "flush_and_arm (it_now it) ?e3 = (a, e4)" by fastforce
        have "same_books ?e3 e4" using same_books_flush [OF _ f] r3 by (simp add: ready_def)
        moreover have r4: "ready m e4 \<and> (a = Keep \<longrightarrow> tidy m e4)" by (rule ready_flush [OF r3 f])
        ultimately have "keeps e e4" using keeps_trans [OF k3 same_books_keeps] k3 by (auto simp: ready_def keeps_def)
        with op_ok_put [OF inv oc at this, of a] r4 flush_steps(5) [OF f] res d False WsUpgrade Echo e2_def f show ?thesis
          by (auto simp: handle_handshake_def Let_def)
      qed
    next
      case (Rest x)
      with res d False put show ?thesis by (auto simp: handle_handshake_def)
    next
      case TooManyHeaders
      define e2 where "e2 = entry_queue (header_fields_too_large_response (h_json h)) (it_now it) ?e"
      have e2: "ready m e2" "same_books ?e e2" using ready_queue [OF r] same_books_queue r by (auto simp: e2_def ready_def)
      obtain a e3 where f: "flush_and_arm (it_now it) e2 = (a, e3)" by fastforce
      have "same_books ?e e3" "ready m e3"
        using same_books_trans [OF e2(2) same_books_flush [OF _ f]] ready_flush [OF e2(1) f] e2(1) by (auto simp: ready_def)
      from op_ok_put [OF inv oc at sb [OF this], of CloseConn] res d False TooManyHeaders e2_def f show ?thesis
        by (auto simp: handle_handshake_def)
    next
      case (Bad x)
      with res d False put show ?thesis by (auto simp: handle_handshake_def)
    qed
  qed
qed

text \<open>What holds of the worker between two operations.\<close>

definition loop_inv :: "'c host \<Rightarrow> 'c worker \<Rightarrow> bool" where
  "loop_inv h w \<longleftrightarrow> worker_inv h w \<and> all_calm (cf_max_message_bytes (h_cfg h)) w"

abbreviation message_cap :: "'c host \<Rightarrow> nat" where
  "message_cap h \<equiv> cf_max_message_bytes (h_cfg h)"

lemma loop_inv_at:
  assumes "loop_inv h w" and "map_of (wk_conns w) key = Some e"
  shows "calm_entry (message_cap h) e" and "tidy (message_cap h) e" and "ready (message_cap h) e" and "link_ok e" and "phase_ok e"
    and "others_calm (message_cap h) k w" and "worker_inv h w"
  using assms books_ok_entry [of w key e]
  by (auto simp: loop_inv_def all_calm_def calm_entry_def tidy_def worker_inv_def others_calm_def)

lemma loop_inv_cong:
  assumes "wk_conns w' = wk_conns w" "wk_subs w' = wk_subs w" "wk_inflight w' = wk_inflight w"
    "wk_outbound w' = wk_outbound w" "wk_drawn w' = wk_drawn w"
  shows "loop_inv h w' = loop_inv h w"
  using worker_inv_cong [OF assms, of h] assms(1) by (simp add: loop_inv_def all_calm_def)

lemma handle_readable_op:
  assumes inv: "loop_inv h w" and at: "map_of (wk_conns w) key = Some e"
    and res: "handle_readable h it script key e w = (act, w')"
  shows "op_ok h (message_cap h) key act w'"
proof (cases "c_state (en_conn e)")
  case Handshaking
  with res handle_handshake_op [OF loop_inv_at(7) [OF inv at] loop_inv_at(6) [OF inv at] at loop_inv_at(2) [OF inv at]]
  show ?thesis by (simp add: handle_readable_def)
next
  case Open
  obtain a e' n' lm where f: "handle_frames (h_json h) (h_crypto h) (h_adapter h) (h_cfg h) (it_now it)
      (pull_frames (en_tls e) script (en_inbuf e)) (e, wk_node w, wk_frame_limited w) = (a, e', n', lm)"
    by (metis prod_cases4)
  let ?w = "w\<lparr>wk_node := n', wk_frame_limited := lm\<rparr>"
  note ok = handle_frames_ok [OF f] and at' = loop_inv_at [OF inv at]
  have "keeps e e'" using ok at'(4,5) ekey_handle_frames [OF f] by (auto simp: keeps_def phase_ok_def ekey_def)
  moreover have "worker_inv h ?w" using at'(7) by (subst worker_inv_cong [of _ w]) simp_all
  moreover have "others_calm (message_cap h) key ?w" "map_of (wk_conns ?w) key = Some e"
    using at'(6) [of key] at by (simp_all add: others_calm_def)
  moreover have "a = Keep \<Longrightarrow> tidy (message_cap h) e'" using ok tidy_open [OF at'(2)] Open by (auto intro: entry_ok_tidy)
  ultimately show ?thesis using op_ok_put [of h ?w "message_cap h" key e e' a] ok res f Open
    by (auto simp: handle_readable_def)
qed

lemma handle_writable_op:
  assumes inv: "loop_inv h w" and at: "map_of (wk_conns w) key = Some e"
    and res: "handle_writable h it script key e w = (act, w')"
  shows "op_ok h (message_cap h) key act w'"
proof (cases "c_state (en_conn e)")
  case Handshaking
  with res handle_handshake_op [OF loop_inv_at(7) [OF inv at] loop_inv_at(6) [OF inv at] at loop_inv_at(2) [OF inv at]]
  show ?thesis by (simp add: handle_writable_def)
next
  case Open
  note at' = loop_inv_at [OF inv at]
  obtain a e' where f: "flush_and_arm (it_now it) e = (a, e')" by fastforce
  have "keeps e e'" using same_books_keeps [OF same_books_flush [OF at'(4) f]] ready_flush [OF at'(3) f] at'(5)
    by (simp add: ready_def)
  from op_ok_put [OF at'(7,6) at this, of a] ready_flush [OF at'(3) f] flush_steps(5) [OF f] res f Open show ?thesis
    by (auto simp: handle_writable_def)
qed

text \<open>The folds and the action after an operation restore the loop's invariant.\<close>

lemma reconcile_calm: "worker_inv h w \<Longrightarrow> all_calm m w \<Longrightarrow> all_calm m (reconcile key w)"
  using hm_conns [of h w]
  by (auto simp: reconcile_def all_calm_def hm_simps calm_entry_def tidy_def owes_def case_prod_unfold Let_def
      split: option.splits if_splits)

lemma reconcile_loop: "loop_inv h w \<Longrightarrow> loop_inv h (reconcile key w)"
  by (auto simp: loop_inv_def reconcile_inv reconcile_calm)

lemma remove_loop: "worker_inv h w \<Longrightarrow> others_calm (message_cap h) key w \<Longrightarrow> loop_inv h (remove_conn h key w)"
  by (simp add: loop_inv_def remove_inv remove_calm)

lemma handoff_loop:
  assumes "worker_inv h w" and "others_calm (message_cap h) key w" and "\<And>e. map_of (wk_conns w) key = Some e \<Longrightarrow> en_session e = None"
  shows "loop_inv h (handoff_rest h key replay w)"
  using handoff_inv [OF assms(1,3)] assms(2) handoff_conns [OF hm_conns [OF assms(1)]]
  by (auto simp: loop_inv_def all_calm_def others_calm_def split: if_splits)

lemma fold_all_others: "worker_inv h w \<Longrightarrow> others_calm m key w \<Longrightarrow> others_calm m key (fold_all key w)"
  unfolding fold_all_def by (intro folds_conns hm_conns [of h] fold_delta_inv fold_codel_inv)

lemma fold_all_loop: "op_ok h (message_cap h) key Keep w \<Longrightarrow> loop_inv h (fold_all key w)"
  by (auto simp: op_ok_def loop_inv_def fold_all_inv intro: fold_all_calm)

lemma fold_sessions:
  assumes "hm_ok (wk_conns w)" and "\<And>e. map_of (wk_conns w) key = Some e \<Longrightarrow> en_session e = None"
  shows "map_of (wk_conns (fold_all key w)) key = Some e \<Longrightarrow> en_session e = None"
    and "map_of (wk_conns (fold_drophead key (fold_codel key w))) key = Some e \<Longrightarrow> en_session e = None"
  using assms
  by (auto simp: fold_all_conns split: option.splits)
    (auto simp: fold_codel_def fold_drophead_def take_codel_dropped_def take_drophead_dropped_def hm_simps split: option.splits)

lemma after_readable_loop:
  assumes ok: "op_ok h (message_cap h) key act w"
  shows "loop_inv h (after_readable h key act w)"
proof -
  let ?w = "fold_drophead key (fold_codel key w)"
  have inv: "worker_inv h w" and oc: "others_calm (message_cap h) key w" using ok by (simp_all add: op_ok_def)
  have w: "worker_inv h ?w" "others_calm (message_cap h) key ?w"
    using inv oc hm_conns fold_codel_inv by (auto intro!: fold_drophead_inv fold_codel_inv folds_conns)
  show ?thesis
  proof (cases act)
    case Keep
    with ok show ?thesis by (simp add: after_readable_def fold_all_loop reconcile_loop)
  next
    case CloseConn
    with w show ?thesis by (simp add: after_readable_def remove_loop)
  next
    case (Handoff b)
    with ok have "map_of (wk_conns w) key = Some e \<Longrightarrow> en_session e = None" for e by (auto simp: op_ok_def)
    then have "map_of (wk_conns ?w) key = Some e \<Longrightarrow> en_session e = None" for e
      using fold_sessions(2) [OF hm_conns [OF inv]] by blast
    with w Handoff show ?thesis by (auto simp: after_readable_def Let_def others_calm_def intro!: handoff_loop)
  qed
qed

lemma after_writable_loop:
  assumes ok: "op_ok h (message_cap h) key act w"
  shows "loop_inv h (after_writable h key act w)"
proof -
  let ?w = "fold_all key w"
  have inv: "worker_inv h w" and oc: "others_calm (message_cap h) key w" using ok by (simp_all add: op_ok_def)
  have w: "worker_inv h ?w" "others_calm (message_cap h) key ?w"
    using inv oc by (auto intro: fold_all_inv fold_all_others)
  show ?thesis
  proof (cases act)
    case Keep
    with ok show ?thesis by (simp add: after_writable_def fold_all_loop reconcile_loop)
  next
    case CloseConn
    with w show ?thesis by (simp add: after_writable_def remove_loop)
  next
    case (Handoff b)
    with ok have "map_of (wk_conns w) key = Some e \<Longrightarrow> en_session e = None" for e by (auto simp: op_ok_def)
    then have "map_of (wk_conns ?w) key = Some e \<Longrightarrow> en_session e = None" for e
      using fold_sessions(1) [OF hm_conns [OF inv]] by blast
    with w Handoff show ?thesis by (auto simp: after_writable_def Let_def others_calm_def intro!: handoff_loop)
  qed
qed


section \<open>The events of the poll\<close>

text \<open>What the loop relies on: the slab hands out a free key.\<close>

definition host_ok :: "'c host \<Rightarrow> bool" where
  "host_ok h \<longleftrightarrow> (\<forall>ks. h_vacant h ks \<notin> set ks)"

lemma on_readable_loop:
  assumes "loop_inv h w" and "host_ok h" and "on_readable h it key script w = (act, w')"
  shows "loop_inv h w'"
proof (cases "map_of (wk_conns w) key")
  case None
  with assms show ?thesis by (simp add: on_readable_def)
next
  case (Some e)
  let ?w = "if liveness h then w\<lparr>wk_wheel := touch key (now_ms it) (wk_wheel w)\<rparr> else w"
  obtain a w2 where r: "handle_readable h it script key e ?w = (a, w2)" by fastforce
  have "loop_inv h ?w" using assms(1) by (subst loop_inv_cong [of _ w]) simp_all
  from handle_readable_op [OF this _ r] Some have "op_ok h (message_cap h) key a w2" by simp
  with assms(3) r Some show ?thesis by (auto simp: on_readable_def Let_def after_readable_loop)
qed

lemma on_writable_loop:
  assumes "loop_inv h w" and "host_ok h"
  shows "loop_inv h (on_writable h it key script w)"
proof (cases "map_of (wk_conns w) key")
  case None
  with assms show ?thesis by (simp add: on_writable_def)
next
  case (Some e)
  obtain a w2 where r: "handle_writable h it script key e w = (a, w2)" by fastforce
  from handle_writable_op [OF assms(1) Some r] have "op_ok h (message_cap h) key a w2" .
  with r Some show ?thesis by (auto simp: on_writable_def after_writable_loop)
qed

lemma loop_remove: "loop_inv h w \<Longrightarrow> loop_inv h (remove_conn h key w)"
  by (rule remove_loop) (simp_all add: loop_inv_def all_calm_others)

lemma conn_ready_loop:
  assumes "loop_inv h w" and "host_ok h"
  shows "loop_inv h (conn_ready h it r w)"
proof -
  obtain a w1 where r: "(if rd_readable r then on_readable h it (rd_key r) (rd_script r) w else (Keep, w)) = (a, w1)" by fastforce
  then have "loop_inv h w1" using on_readable_loop [OF assms] assms(1) by (auto split: if_splits)
  with assms r show ?thesis
    by (auto simp: conn_ready_def Let_def loop_remove on_writable_loop split: if_splits)
qed

lemma accept_entry_new:
  "link_ok (accept_entry h key io)" "phase_ok (accept_entry h key io)" "calm_entry m (accept_entry h key io)"
  "rec_in (accept_entry h key io) = 0" "rec_out (accept_entry h key io) = 0" "ekey (accept_entry h key io) = None"
  by (simp_all add: accept_entry_def conn_new_def set_codel_def link_ok_def conn_ok_def cursor_ok_def sum_len_def phase_ok_def
      calm_entry_def tidy_def ready_def owes_def billed_def rec_in_def rec_out_def on_record_def
      accounted_bytes_def outbound_bytes_def ekey_def)

lemma accept_put:
  assumes "loop_inv h w" and new: "map_of (wk_conns w) key = None"
  shows "loop_inv h (put_entry key (accept_entry h key io) w)"
proof -
  let ?e = "accept_entry h key io"
  have inv: "worker_inv h w" using assms(1) by (simp add: loop_inv_def)
  have hm: "hm_ok (wk_conns w)" by (rule hm_conns [OF inv])
  have k: "Option.bind (map_of (AList.update key ?e (wk_conns w)) t) ekey = Option.bind (map_of (wk_conns w) t) ekey" for t
    using new hm by (simp add: hm_simps accept_entry_new)
  have "books_ok (put_entry key ?e w)"
    using inv hm tally_update_new [OF new, of rec_in ?e] tally_update_new [OF new, of rec_out ?e]
    by (auto simp: worker_inv_def books_ok_def hm_simps accept_entry_new split: if_splits)
  moreover have "indexed (wk_conns (put_entry key ?e w)) (wk_subs w)" if "fresh_ids h w"
    using inv hm k that by (auto simp: worker_inv_def hm_simps intro: indexed_cong)
  moreover have "ids_ok h (put_entry key ?e w)" if "fresh_ids h w" using inv k that by (auto simp: worker_inv_def intro: ids_cong)
  ultimately show ?thesis using assms(1) hm
    by (auto simp: loop_inv_def worker_inv_def fresh_ids_def all_calm_def hm_simps accept_entry_new split: if_splits)
qed

lemma accept_one_loop:
  assumes "loop_inv h w" and "host_ok h"
  shows "loop_inv h (accept_one h deadline now reg tls_ok io w)"
proof -
  obtain ok b where t: "take_at_ns now 1 (wk_accepts w) = (ok, b)" by fastforce
  let ?k = "h_vacant h (map fst (wk_conns w))"
  have "?k \<notin> set (map fst (wk_conns w))" using assms(2) unfolding host_ok_def by blast
  then have new: "map_of (wk_conns w) ?k = None" by (simp add: map_of_eq_None_iff)
  have base: "loop_inv h (w\<lparr>wk_accepts := b\<rparr>)" "loop_inv h (w\<lparr>wk_accepts := b, wk_accept_limited := x\<rparr>)" for x
    using assms(1) by (subst loop_inv_cong [of _ w]; simp)+
  have "loop_inv h (put_entry ?k (accept_entry h ?k io) (w\<lparr>wk_accepts := b\<rparr>))"
    using accept_put [OF base(1), of ?k] new by simp
  then have "loop_inv h ((put_entry ?k (accept_entry h ?k io) (w\<lparr>wk_accepts := b\<rparr>))\<lparr>wk_wheel := x, wk_accepted := y\<rparr>)" for x y
    by (subst loop_inv_cong [of _ "put_entry ?k (accept_entry h ?k io) (w\<lparr>wk_accepts := b\<rparr>)"]) simp_all
  with base show ?thesis by (simp add: accept_one_def t [simplified] Let_def)
qed

lemma accept_ready_loop: "loop_inv h w \<Longrightarrow> host_ok h \<Longrightarrow> loop_inv h (accept_ready h deadline now rs w)"
  by (induction h deadline now rs w rule: accept_ready.induct) (simp_all add: accept_one_loop)

lemma handle_event_loop: "loop_inv h w \<Longrightarrow> host_ok h \<Longrightarrow> loop_inv h (handle_event h it ev w)"
  by (simp add: handle_event_def Let_def accept_ready_loop conn_ready_loop split: event.split)

lemma fold_loop: "(\<And>x w. x \<in> set xs \<Longrightarrow> P w \<Longrightarrow> P (f x w)) \<Longrightarrow> P w \<Longrightarrow> P (fold f xs w)"
  by (induction xs arbitrary: w) simp_all


section \<open>The broadcast drain\<close>

text \<open>A delivery is a queueing followed by the folds at its token.\<close>

lemma queue_and_take_entry:
  assumes "queue_and_take f now (en_conn e) = (d, od, dh, c)"
  shows "d = c_inflight_delta (en_conn (entry_queue f now e))" and "od = c_outbound_delta (en_conn (entry_queue f now e))"
    and "e\<lparr>en_conn := c\<rparr> = (entry_queue f now e)\<lparr>en_conn := (en_conn (entry_queue f now e))
           \<lparr>c_inflight_delta := 0, c_outbound_delta := 0, c_drophead_dropped := 0\<rparr>\<rparr>"
  using assms
  by (auto simp: queue_and_take_def entry_queue_def take_inflight_delta_def take_outbound_delta_def take_drophead_dropped_def
      Let_def split: prod.splits)

definition pumped :: "'c worker \<Rightarrow> pump \<Rightarrow> 'c worker" where
  "pumped w p = w\<lparr>wk_conns := pu_conns p, wk_inflight := pu_inflight p, wk_outbound := pu_outbound p, wk_drophead := pu_drophead p\<rparr>"

definition half_calm :: "nat \<Rightarrow> nat set \<Rightarrow> 'c worker \<Rightarrow> bool" where
  "half_calm m T w \<longleftrightarrow> (\<forall>k e. map_of (wk_conns w) k = Some e \<longrightarrow> ready m e \<and> c_inflight_delta (en_conn e) = 0 \<and>
     c_outbound_delta (en_conn e) = 0 \<and> (k \<notin> T \<longrightarrow> tidy m e))"

lemma deliver_touched:
  "map_of (pu_conns p) t = map_of (pu_conns (deliver_one budget now close frames except item p)) t \<or>
     t \<in> set (pu_touched (deliver_one budget now close frames except item p))"
  "set (pu_touched p) \<subseteq> set (pu_touched (deliver_one budget now close frames except item p))"
  by (auto simp: deliver_one_def Let_def hs_insert_def update_conv split: prod.split option.split)

lemma deliver_one_pumped:
  assumes inv: "worker_inv h (pumped w p)" and hc: "half_calm m (set (pu_touched p)) (pumped w p)"
  shows "worker_inv h (pumped w (deliver_one budget now close frames except item p)) \<and>
    half_calm m (set (pu_touched (deliver_one budget now close frames except item p))) (pumped w (deliver_one budget now close frames except item p))"
proof -
  obtain sid tok v where item: "item = (sid, tok, v)" by (metis prod_cases3)
  let ?p = "deliver_one budget now close frames except item p"
  have r: "deliver_one budget now close frames except (sid, tok, v) p = ?p" by (simp add: item)
  have hm: "hm_ok (pu_conns p)" using hm_conns [OF inv] by (simp add: pumped_def)
  from r show ?thesis
  proof (cases rule: deliver_one_cases)
    case same
    have "worker_inv h (pumped w ?p)" using inv same by (subst worker_inv_cong [of _ "pumped w p"]) (simp_all add: pumped_def)
    moreover have "half_calm m (set (pu_touched ?p)) (pumped w ?p)"
      using hc deliver_touched(2) [of p budget now close frames except item] same by (auto simp: half_calm_def pumped_def)
    ultimately show ?thesis by blast
  next
    case (queued e d od dh c)
    let ?q = "entry_queue (frame_for frames v) now e"
    let ?e = "e\<lparr>en_conn := c\<rparr>"
    note q = queue_and_take_entry [OF queued(3)]
    have at: "map_of (wk_conns (pumped w p)) tok = Some e" using queued(1) by (simp add: pumped_def)
    have e: "ready m e" using hc at by (simp add: half_calm_def)
    have lp: "link_ok e" "phase_ok e" using inv at by (auto simp: worker_inv_def dest: books_ok_entry)
    have "keeps e ?q"
      using same_books_keeps [OF same_books_queue [OF lp(1)]] lp ready_queue [OF e] by (simp add: ready_def)
    from put_inv [OF inv at this]
    have "worker_inv h (fold_drophead tok (fold_delta tok (put_entry tok ?q (pumped w p))))"
      by (intro fold_drophead_inv fold_delta_inv)
    moreover have "map_of (AList.update tok x (pu_conns p)) tok = Some x" for x using hm by (simp add: hm_simps)
    ultimately have "worker_inv h (pumped w ?p)"
      by (subst (asm) worker_inv_cong [of _ "pumped w ?p"])
        (simp_all add: pumped_def fold_delta_def fold_drophead_def take_inflight_delta_def take_outbound_delta_def
          take_drophead_dropped_def queued(4-6) q)
    moreover have "ready m ?e" "c_inflight_delta (en_conn ?e) = 0 \<and> c_outbound_delta (en_conn ?e) = 0"
      using ready_queue [OF e, of "frame_for frames v" now] unfolding q(3)
      by (simp_all add: ready_def link_ok_def conn_ok_def cursor_ok_def billed_def)
    moreover have "tok \<notin> set (pu_touched ?p) \<Longrightarrow> tidy m ?e"
      using deliver_touched(1) [of p tok budget now close frames except item] deliver_touched(2) [of p budget now close frames except item] queued(1,4) hm hc at
      by (auto simp: hm_simps half_calm_def)
    ultimately show ?thesis
      using hc hm deliver_touched(2) [of p budget now close frames except item] queued(4)
      by (auto simp: half_calm_def pumped_def hm_simps split: if_splits)
  qed
qed

lemma half_calm_none: "half_calm m {} w \<longleftrightarrow> all_calm m w"
  by (auto simp: half_calm_def all_calm_def calm_entry_def tidy_def)

lemma pump_inbox_inv:
  assumes "loop_inv h w" and "pump_inbox budget now msgs w = (sat, touched, w')"
  shows "worker_inv h w'" and "half_calm (message_cap h) (set touched) w'"
proof -
  let ?ok = "\<lambda>p. worker_inv h (pumped w p) \<and> half_calm (message_cap h) (set (pu_touched p)) (pumped w p)"
  let ?p = "\<lparr>pu_conns = wk_conns w, pu_inflight = wk_inflight w, pu_outbound = wk_outbound w, pu_drophead = wk_drophead w,
    pu_saturated = False, pu_touched = []\<rparr>"
  have "pumped w ?p = w" by (simp add: pumped_def)
  then have ok: "?ok ?p" using assms(1) half_calm_none [of _ w] by (simp add: loop_inv_def)
  have one: "?ok (fold (deliver_one budget now close frames except) subs p)" if "?ok p" for close frames except subs p
    by (rule fold_loop [where P = ?ok]) (use that deliver_one_pumped in blast)+
  have "?ok (pump_message budget now close ls msg p)" if "?ok p" for close ls msg p
    using that one by (simp add: pump_message_def split: option.split)
  then have "?ok (drain_broadcast_inbox budget now {} (wk_subs w) msgs ?p)"
    unfolding drain_broadcast_inbox_def using ok by (intro fold_loop [where P = ?ok])
  with assms(2) show "worker_inv h w'" "half_calm (message_cap h) (set touched) w'"
    by (auto simp: pump_inbox_def pumped_def Let_def)
qed

lemma ready_folded [simp]: "ready m (e\<lparr>en_conn := folded (en_conn e)\<rparr>) = ready m e" "tidy m (e\<lparr>en_conn := folded (en_conn e)\<rparr>) = tidy m e"
  by (auto simp: folded_def tidy_def ready_def owes_def link_ok_def conn_ok_def cursor_ok_def billed_def)

lemma flush_touched_inv:
  assumes inv: "worker_inv h w" and hc: "half_calm m (insert key (T \<union> set cl)) w"
    and res: "flush_touched now key (cl, w) = (cl', w')"
  shows "worker_inv h w' \<and> half_calm m (T \<union> set cl') w'"
proof (cases "map_of (wk_conns w) key")
  case None
  then have "cl' = cl" "w' = w" using res by (simp_all add: flush_touched_def)
  with None inv hc show ?thesis unfolding half_calm_def by (metis UnCI insertE option.distinct(1))
next
  case (Some e)
  obtain act e' where f: "flush_and_arm now e = (act, e')" by fastforce
  have e: "link_ok e" "phase_ok e" "ready m e" using inv hc Some by (auto simp: worker_inv_def half_calm_def dest: books_ok_entry)
  have r: "ready m e' \<and> (act = Keep \<longrightarrow> tidy m e')" by (rule ready_flush [OF e(3) f])
  then have "keeps e e'" using same_books_keeps [OF same_books_flush [OF e(1) f]] e(2) by (simp add: ready_def)
  from put_inv [OF inv Some this] have i: "worker_inv h (put_entry key e' w)" .
  have hm: "hm_ok (wk_conns w)" by (rule hm_conns [OF inv])
  have m: "map_of (wk_conns (fold_all key (put_entry key e' w))) = (map_of (wk_conns w))(key \<mapsto> e'\<lparr>en_conn := folded (en_conn e')\<rparr>)"
    using fold_all_conns [OF hm_conns [OF i], of key] hm by (simp add: hm_simps)
  have d: "c_inflight_delta (folded c) = 0 \<and> c_outbound_delta (folded c) = 0" for c by (simp add: folded_def)
  have w': "w' = fold_all key (put_entry key e' w)" "set cl' = (if act = CloseConn then insert key (set cl) else set cl)"
    using res Some f by (auto simp: flush_touched_def hs_insert_def split: if_splits)
  have "half_calm m (T \<union> set cl') w'"
    using hc r flush_steps(5) [OF f] d unfolding half_calm_def w' m by (auto split: if_splits)
  with i show ?thesis by (simp add: w' fold_all_inv)
qed

lemma flush_touched_all:
  assumes "worker_inv h w" and "half_calm m (set ks \<union> set cl) w" and "fold (flush_touched now) ks (cl, w) = (cl', w')"
  shows "worker_inv h w' \<and> half_calm m (set cl') w'"
  using assms
proof (induction ks arbitrary: cl w)
  case (Cons k ks)
  obtain cl1 w1 where f: "flush_touched now k (cl, w) = (cl1, w1)" by fastforce
  have "worker_inv h w1 \<and> half_calm m (set ks \<union> set cl1) w1"
    using flush_touched_inv [OF Cons.prems(1) _ f, of m "set ks"] Cons.prems(2) by simp
  with Cons.IH [of w1 cl1] Cons.prems(3) f show ?case by simp
qed simp

lemma remove_closed:
  assumes "worker_inv h w" and "half_calm m (set ks) w"
  shows "worker_inv h (fold (remove_conn h) ks w) \<and> all_calm m (fold (remove_conn h) ks w)"
  using assms
proof (induction ks arbitrary: w)
  case Nil
  then show ?case by (simp add: half_calm_none)
next
  case (Cons k ks)
  have "half_calm m (set ks) (remove_conn h k w)"
    using Cons.prems hm_conns [OF Cons.prems(1)] by (auto simp: half_calm_def remove_conns split: if_splits)
  with Cons.IH remove_inv [OF Cons.prems(1)] show ?case by simp
qed

lemma set_slot_loop [simp]:
  "worker_inv h (set_slot h s w) = worker_inv h w" "loop_inv h (set_slot h s w) = loop_inv h w"
  "half_calm m T (set_slot h s w) = half_calm m T w"
  by (rule worker_inv_cong loop_inv_cong, simp_all add: set_slot_def Let_def)+ (simp add: half_calm_def set_slot_def Let_def)

lemma drain_broadcasts_loop:
  assumes "loop_inv h w" and "drain_broadcasts h it s w = (work, w')"
  shows "loop_inv h w'"
proof -
  obtain sat touched w1 where p: "pump_inbox (effective_budget h it) (it_now it) (ws_inbox s) w = (sat, touched, w1)" by (metis prod_cases3)
  let ?w = "set_slot h (s\<lparr>ws_inbox := [], ws_budget_saturated := (ws_budget_saturated s \<or> sat)\<rparr>) w1"
  obtain cl w3 where f: "fold (flush_touched (it_now it)) touched ([], ?w) = (cl, w3)" by fastforce
  have "worker_inv h w3 \<and> half_calm (message_cap h) (set cl) w3"
    using flush_touched_all [OF _ _ f, of h "message_cap h"] pump_inbox_inv [OF assms(1) p] by simp
  with remove_closed assms(2) p f show ?thesis by (auto simp: drain_broadcasts_def loop_inv_def Let_def)
qed

lemma broadcasts_phase_loop:
  assumes "loop_inv h w" and "broadcasts_phase h it w = (work, w')"
  shows "loop_inv h w'"
proof (cases "my_slot h w")
  case (Some s)
  obtain b w1 where d: "drain_broadcasts h it s w = (b, w1)" by fastforce
  have "loop_inv h w1" by (rule drain_broadcasts_loop [OF assms(1) d])
  then have "loop_inv h (w1\<lparr>wk_node := n\<rparr>)" for n by (subst loop_inv_cong [of _ w1]) simp_all
  with assms(2) Some d show ?thesis by (auto simp: broadcasts_phase_def Let_def split: option.splits)
qed (use assms in \<open>simp add: broadcasts_phase_def\<close>)


section \<open>Mailboxes, resolved lookups and timers\<close>

lemma op_parts: "op_ok h m key act w \<Longrightarrow> worker_inv h w \<and> others_calm m key w"
  by (simp add: op_ok_def)

text \<open>An operation followed by the folds, and by teardown when it asks for it.\<close>

lemma settle_loop:
  assumes "op_ok h (message_cap h) key act w" and "act = Keep \<or> act = CloseConn"
  shows "act = Keep \<Longrightarrow> loop_inv h (fold_all key w)" and "loop_inv h (remove_conn h key (fold_all key w))"
proof -
  show "act = Keep \<Longrightarrow> loop_inv h (fold_all key w)" using assms fold_all_loop by blast
  from op_parts [OF assms(1)] show "loop_inv h (remove_conn h key (fold_all key w))"
    by (intro remove_loop fold_all_inv fold_all_others) auto
qed

lemma drain_dirty_one_loop:
  assumes inv: "loop_inv h w" and res: "drain_dirty_one h now key (b, w) = (b', w')"
  shows "loop_inv h w'"
proof (cases "open_conn (wk_conns w) key")
  case None
  with assms show ?thesis by (simp add: drain_dirty_one_def)
next
  case (Some e)
  then have at: "map_of (wk_conns w) key = Some e" and st: "c_state (en_conn e) = conn_state.Open"
    by (auto simp: open_conn_def split: option.splits if_splits)
  obtain r e' n' where d: "drain_session (h_json h) now (e, wk_node w) = (r, e', n')" by (metis prod_cases3)
  let ?w = "w\<lparr>wk_node := n'\<rparr>"
  note a = loop_inv_at [OF inv at] and o = outcome_drain [OF d, of "message_cap h"]
  have k: "keeps e e'" using keeps_steps [OF _ a(4,5) ekey_drain [OF d]] o by (simp add: outcome_ok_def)
  have act: "dr_action r = Keep \<or> dr_action r = CloseConn" and t: "dr_action r = Keep \<Longrightarrow> tidy (message_cap h) e'"
    using o tidy_open [OF a(2) st] by (auto simp: outcome_ok_def intro: entry_ok_tidy)
  have "worker_inv h ?w" "others_calm (message_cap h) key ?w" "map_of (wk_conns ?w) key = Some e"
    using a(7) a(6) [of key] at by (simp_all add: others_calm_def worker_inv_cong [of ?w w])
  then have "op_ok h (message_cap h) key (dr_action r) (put_entry key e' ?w)" by (rule op_ok_put [OF _ _ _ k t]) (use act in auto)
  from settle_loop [OF this act] act res Some d show ?thesis
    by (auto simp: drain_dirty_one_def Let_def reconcile_loop split: if_splits)
qed

lemma fold_flagged:
  assumes "\<And>x b w b' w'. x \<in> set xs \<Longrightarrow> P w \<Longrightarrow> f x (b, w) = (b', w') \<Longrightarrow> P w'" and "P w" and "fold f xs (b, w) = (b', w')"
  shows "P w'"
proof -
  have "P (snd (fold f xs (b, w)))"
    by (rule fold_loop [where P = "\<lambda>p. P (snd p)"]) (use assms in \<open>auto, metis surjective_pairing\<close>)
  with assms(3) show ?thesis by simp
qed

lemma drain_dirty_loop:
  assumes "loop_inv h w" and "drain_dirty_sessions h it w = (b, w')"
  shows "loop_inv h w'"
proof -
  obtain ks w1 where t: "take_dirty h w = (ks, w1)" by fastforce
  then have "loop_inv h w1" using assms(1) by (subst loop_inv_cong [of _ w]) (auto simp: take_dirty_def Let_def)
  with assms(2) t show ?thesis
    by (auto simp: drain_dirty_sessions_def intro: fold_flagged [where P = "loop_inv h"] drain_dirty_one_loop)
qed

lemma resume_parked_loop:
  assumes inv: "loop_inv h w" and ok: "host_ok h" and at: "map_of (wk_conns w) key = Some e"
    and e: "en_session e = None" "c_state (en_conn e) = conn_state.Open" "en_pending_establish e = None"
  shows "loop_inv h (resume_parked h it key e pe result w)"
proof -
  obtain est w1 where s: "establish h it result (pe_codec pe) (pe_notify pe) (pe_mailbox_dropped pe) w = (est, w1)" by fastforce
  note a = loop_inv_at [OF inv at]
  have k: "keeps e e" using a(4,5) by (rule keeps_refl)
  show ?thesis
  proof (cases est)
    case (Inl rj)
    obtain act w2 where r: "reject_conn h it key rj e w1 = (act, w2)" by fastforce
    have "worker_inv h w1" using s Inl establish_refused_inv a(7) by blast
    moreover have "others_calm (message_cap h) key w1" "map_of (wk_conns w1) key = Some e"
      using a(6) [of key] at establish_simps(1) [OF s] by (simp_all add: others_calm_def)
    ultimately have "op_ok h (message_cap h) key act w2" by (rule reject_op [OF _ _ _ k a(3) r])
    from op_parts [OF this] have "loop_inv h (remove_conn h key (fold_all key w2))"
      by (intro remove_loop fold_all_inv fold_all_others) auto
    with s Inl r show ?thesis by (simp add: resume_parked_def)
  next
    case (Inr ss)
    obtain act e' where f: "flush_and_arm (it_now it) (established_entry h ss (it_now it) e) = (act, e')" by fastforce
    have "op_ok h (message_cap h) key act (put_entry key e' w1)"
      by (rule established_op [OF a(7) a(6) at k a(3) e s [unfolded Inr] f])
    from settle_loop [OF this flush_steps(5) [OF f]] flush_steps(5) [OF f] s Inr f show ?thesis
      by (auto simp: resume_parked_def Let_def loop_inv_def all_calm_def)
  qed
qed

lemma drain_resolved_loop:
  assumes "loop_inv h w" and "host_ok h" and "drain_resolved h it w = (b, w')"
  shows "loop_inv h w'"
proof -
  have one: "loop_inv h w'" if i: "loop_inv h w" and r: "drain_resolved_one h it ra (b, w) = (b', w')" for ra b w b' w'
  proof (cases "\<exists>e pe. map_of (wk_conns w) (ra_token ra) = Some e \<and> en_pending_establish e = Some pe \<and> pe_gen pe = ra_gen ra")
    case False
    with i r show ?thesis by (auto simp: drain_resolved_one_def split: option.splits if_splits)
  next
    case True
    then obtain e pe where at: "map_of (wk_conns w) (ra_token ra) = Some e" and e: "en_pending_establish e = Some pe" "pe_gen pe = ra_gen ra"
      by blast
    let ?e = "e\<lparr>en_pending_establish := None\<rparr>"
    let ?w = "put_entry (ra_token ra) ?e w"
    note a = loop_inv_at [OF i at]
    have ph: "en_session e = None" "c_state (en_conn e) = conn_state.Open"
      using a(5) e by (cases "c_state (en_conn e)"; simp add: phase_ok_def)+
    have "keeps e ?e" using a(4,5) ph by (simp add: keeps_def link_ok_def phase_ok_def ekey_def)
    then have "worker_inv h ?w" by (rule put_inv [OF a(7) at])
    moreover have "calm_entry (message_cap h) ?e" using a(1) by (simp add: calm_entry_def tidy_def owes_def)
    ultimately have "loop_inv h ?w" using i hm_conns [OF a(7)] by (auto simp: loop_inv_def all_calm_def hm_simps split: if_splits)
    moreover have "map_of (wk_conns ?w) (ra_token ra) = Some ?e" using hm_conns [OF a(7)] by (simp add: hm_simps)
    ultimately have "loop_inv h (resume_parked h it (ra_token ra) ?e pe (ra_result ra) ?w)"
      by (rule resume_parked_loop [OF _ assms(2)]) (simp_all add: ph)
    with r at e show ?thesis by (simp add: drain_resolved_one_def Let_def)
  qed
  show ?thesis
    by (rule fold_flagged [where P = "loop_inv h", OF _ assms(1) assms(3) [unfolded drain_resolved_def]]) (rule one)
qed

text \<open>Queueing on a connection and flushing it, whatever becomes of it.\<close>

lemma send_op:
  assumes inv: "worker_inv h w" and oc: "others_calm m key w" and at: "map_of (wk_conns w) key = Some e" and r: "ready m e"
    and f: "flush_and_arm now (entry_queue frame now e) = (act, e')"
  shows "op_ok h m key act (put_entry key e' w)" and "act = Keep \<or> act = CloseConn"
proof -
  show a: "act = Keep \<or> act = CloseConn" using flush_steps(5) [OF f] .
  have q: "ready m (entry_queue frame now e)" "same_books e (entry_queue frame now e)"
    using ready_queue [OF r] same_books_queue r by (auto simp: ready_def)
  have r': "ready m e' \<and> (act = Keep \<longrightarrow> tidy m e')" by (rule ready_flush [OF q(1) f])
  have "phase_ok e" using inv at by (auto simp: worker_inv_def dest: books_ok_entry)
  moreover have "same_books e e'" using same_books_trans [OF q(2) same_books_flush [OF _ f]] q(1) by (simp add: ready_def)
  ultimately have "keeps e e'" using same_books_keeps r' by (simp add: ready_def)
  then show "op_ok h m key act (put_entry key e' w)" by (rule op_ok_put [OF inv oc at]) (use r' a in auto)
qed

lemma fold_delta_conns:
  assumes "hm_ok (wk_conns w)"
  shows "map_of (wk_conns (fold_delta key w)) =
    (case map_of (wk_conns w) key of
       None \<Rightarrow> map_of (wk_conns w)
     | Some e \<Rightarrow> (map_of (wk_conns w))(key \<mapsto> e\<lparr>en_conn := (en_conn e)\<lparr>c_inflight_delta := 0, c_outbound_delta := 0\<rparr>\<rparr>))"
  using assms by (auto simp: fold_delta_def take_inflight_delta_def take_outbound_delta_def hm_simps split: option.split)

lemma fold_delta_loop:
  assumes "op_ok h (message_cap h) key Keep w"
  shows "loop_inv h (fold_delta key w)"
proof -
  have inv: "worker_inv h w" and oc: "others_calm (message_cap h) key w" using assms by (simp_all add: op_ok_def)
  have t: "tidy (message_cap h) e" if "map_of (wk_conns w) key = Some e" for e using assms that by (simp add: op_ok_def)
  have "calm_entry (message_cap h) (e\<lparr>en_conn := (en_conn e)\<lparr>c_inflight_delta := 0, c_outbound_delta := 0\<rparr>\<rparr>)"
    if "map_of (wk_conns w) key = Some e" for e
    using t [OF that] by (simp add: calm_entry_def tidy_def ready_def owes_def link_ok_def conn_ok_def cursor_ok_def billed_def)
  then have "all_calm (message_cap h) (fold_delta key w)"
    using oc unfolding all_calm_def others_calm_def fold_delta_conns [OF hm_conns [OF inv]]
    by (auto split: option.splits if_splits) (metis option.distinct(1))
  with fold_delta_inv [OF inv] show ?thesis by (simp add: loop_inv_def)
qed

lemma due_ping_loop:
  assumes inv: "loop_inv h w" and res: "due_ping h it key w = (b, w')"
  shows "loop_inv h w'"
proof (cases "Option.bind (map_of (wk_conns w) key) (entry_ping (h_json h) (it_now it))")
  case None
  with assms show ?thesis by (auto simp: due_ping_def loop_inv_def all_calm_def)
next
  case (Some p)
  then obtain e where at: "map_of (wk_conns w) key = Some e" and p: "entry_ping (h_json h) (it_now it) e = Some p"
    by (auto simp: bind_eq_Some_conv)
  obtain act e' where pe: "p = (act, e')" by fastforce
  from p pe obtain frame where f: "flush_and_arm (it_now it) (entry_queue frame (it_now it) e) = (act, e')"
    by (auto simp: entry_ping_def split: option.splits if_splits)
  note a = loop_inv_at [OF inv at] and s = send_op [OF a(7,6) at a(3) f]
  let ?w = "fold_delta key (put_entry key e' w)"
  have "loop_inv h (remove_conn h key (fold_drophead key (fold_codel key ?w)))"
    using op_parts [OF s(1)] by (intro remove_loop fold_drophead_inv fold_codel_inv fold_delta_inv folds_conns hm_conns [of h]) auto
  moreover have "act = Keep \<Longrightarrow> loop_inv h ?w" using fold_delta_loop s(1) by blast
  ultimately show ?thesis using res Some pe s(2) by (auto simp: due_ping_def Let_def loop_inv_def all_calm_def)
qed

lemma queue_error_at:
  assumes "worker_inv h w" and "others_calm m key w" and "\<And>e. map_of (wk_conns w) key = Some e \<Longrightarrow> ready m e"
  shows "worker_inv h (queue_error h key error now w) \<and> others_calm m key (queue_error h key error now w) \<and>
    (\<forall>e. map_of (wk_conns (queue_error h key error now w)) key = Some e \<longrightarrow> ready m e)"
proof (cases "map_of (wk_conns w) key")
  case None
  with assms show ?thesis by (simp add: queue_error_def)
next
  case (Some e)
  let ?e = "entry_error (h_json h) error now e"
  have e: "link_ok e" "phase_ok e" using assms(1) Some by (auto simp: worker_inv_def dest: books_ok_entry)
  have r: "ready m ?e" "same_books e ?e" using ready_queue assms(3) [OF Some] same_books_queue [OF e(1)] by (auto simp: entry_error_def)
  then have "keeps e ?e" using same_books_keeps e(2) by (simp add: ready_def)
  from put_inv [OF assms(1) Some this] put_others_calm [OF assms(2) hm_conns [OF assms(1)]] r(1) hm_conns [OF assms(1)] Some
  show ?thesis by (simp add: queue_error_def hm_simps)
qed

lemma close_reply_op:
  assumes "worker_inv h w" and "others_calm m key w" and "\<And>e. map_of (wk_conns w) key = Some e \<Longrightarrow> ready m e"
    and "send_close_reply h key code reason now w = (act, w')"
  shows "op_ok h m key act w'" and "act = Keep \<or> act = CloseConn"
proof -
  have "op_ok h m key act w' \<and> (act = Keep \<or> act = CloseConn)"
  proof (cases "map_of (wk_conns w) key")
    case None
    with assms show ?thesis by (auto simp: send_close_reply_def op_ok_def)
  next
    case (Some e)
    obtain a e' where f: "flush_and_arm now (entry_queue (close_frame code reason) now e) = (a, e')" by fastforce
    from send_op [OF assms(1,2) Some assms(3) [OF Some] f] assms(4) Some f show ?thesis
      by (auto simp: send_close_reply_def entry_close_reply_def queue_close_frame_def)
  qed
  then show "op_ok h m key act w'" "act = Keep \<or> act = CloseConn" by auto
qed

lemma loop_inv_parts:
  "loop_inv h w \<Longrightarrow> worker_inv h w \<and> others_calm (message_cap h) key w \<and>
     (\<forall>e. map_of (wk_conns w) key = Some e \<longrightarrow> ready (message_cap h) e)"
  by (auto simp: loop_inv_def all_calm_def others_calm_def calm_entry_def tidy_def)

lemma handle_due_loop:
  assumes inv: "loop_inv h w" and res: "handle_due h it d (b, w) = (b', w')"
  shows "loop_inv h w'"
proof (cases d)
  case (DuePing key)
  with res due_ping_loop [OF inv] show ?thesis by (auto simp: handle_due_def split: prod.splits)
next
  case (Close4201 key)
  note p = loop_inv_parts [OF inv, of key]
  let ?r = "send_close_reply h key 4201 ''Pong reply not received: ping was sent to the client, but no reply was received'' (it_now it) w"
  obtain a w1 where r: "?r = (a, w1)" by fastforce
  from close_reply_op [OF _ _ _ r] p settle_loop(2) have "loop_inv h (remove_conn h key (fold_all key w1))" by blast
  with res Close4201 r show ?thesis by (simp add: handle_due_def)
next
  case (Close4202 key)
  let ?w = "queue_error h key max_lifetime (it_now it) w"
  have p: "worker_inv h ?w \<and> others_calm (message_cap h) key ?w \<and> (\<forall>e. map_of (wk_conns ?w) key = Some e \<longrightarrow> ready (message_cap h) e)"
    using loop_inv_parts [OF inv, of key] by (intro queue_error_at) auto
  obtain a w1 where r: "send_close_reply h key 4202 (err_message max_lifetime) (it_now it) ?w = (a, w1)" by fastforce
  from close_reply_op [OF _ _ _ r] p settle_loop(2) have "loop_inv h (remove_conn h key (fold_all key w1))" by blast
  with res Close4202 r show ?thesis by (simp add: handle_due_def)
next
  case (HandshakeTimeout key)
  have "loop_inv h (w\<lparr>wk_handshake_timeouts := x\<rparr>)" "loop_inv h (w\<lparr>wk_wheel := y\<rparr>)" for x y
    using inv by (subst loop_inv_cong [of _ w]; simp)+
  with res HandshakeTimeout show ?thesis by (auto simp: handle_due_def loop_remove split: option.splits if_splits)
qed

lemma timers_phase_loop:
  assumes "loop_inv h w" and "timers_phase h it w = (b, w')"
  shows "loop_inv h w'"
proof (cases "liveness h")
  case True
  obtain ds wheel where d: "due_at (now_ms it) (wk_wheel w) = (ds, wheel)" by fastforce
  have i: "loop_inv h (w\<lparr>wk_wheel := wheel\<rparr>)" using assms(1) by (subst loop_inv_cong [of _ w]) simp_all
  have "fold (handle_due h it) ds (False, w\<lparr>wk_wheel := wheel\<rparr>) = (b, w')" using assms(2) True d by (simp add: timers_phase_def)
  from fold_flagged [where P = "loop_inv h", OF _ i this] handle_due_loop [of h] show ?thesis by blast
qed (use assms in \<open>simp add: timers_phase_def\<close>)

lemma drain_close_loop:
  assumes inv: "loop_inv h w"
  shows "loop_inv h (drain_close_connection h now key w)"
proof -
  let ?w = "queue_error h key (new_error 4200 shutdown_message) now w"
  have p: "worker_inv h ?w \<and> others_calm (message_cap h) key ?w \<and> (\<forall>e. map_of (wk_conns ?w) key = Some e \<longrightarrow> ready (message_cap h) e)"
    using loop_inv_parts [OF inv, of key] by (intro queue_error_at) auto
  obtain a w1 where r: "send_close_reply h key 4200 shutdown_message now ?w = (a, w1)" by fastforce
  from close_reply_op [OF _ _ _ r] p have o: "op_ok h (message_cap h) key a w1" "a = Keep \<or> a = CloseConn" by auto
  from settle_loop [OF o] o(2) r show ?thesis by (auto simp: drain_close_connection_def Let_def)
qed

lemma shutdown_phase_loop:
  assumes "loop_inv h w"
  shows "loop_inv h (shutdown_phase h it w)"
proof -
  define w1 where "w1 = (if wk_draining w then w
    else fold (drain_close_connection h (it_now it)) (keys w) (w\<lparr>wk_draining := True\<rparr>))"
  have "loop_inv h (w\<lparr>wk_draining := True\<rparr>)" using assms by (subst loop_inv_cong [of _ w]) simp_all
  then have i: "loop_inv h w1" using assms by (auto simp: w1_def intro: fold_loop [where P = "loop_inv h"] drain_close_loop)
  then have "loop_inv h (fold (remove_conn h) (keys w1) w1)" by (intro fold_loop [where P = "loop_inv h"] loop_remove)
  then have "loop_inv h ((fold (remove_conn h) (keys w1) w1)\<lparr>wk_stopped := True\<rparr>)"
    by (subst loop_inv_cong [of _ "fold (remove_conn h) (keys w1) w1"]) simp_all
  with i show ?thesis by (simp add: shutdown_phase_def Let_def w1_def [symmetric])
qed


section \<open>The loop\<close>

lemma polled_loop:
  assumes "loop_inv h w" and "host_ok h"
  shows "loop_inv h (polled h it events w)"
proof -
  define w1 where "w1 = fold (handle_event h it) events w"
  obtain b2 w2 where p2: "broadcasts_phase h it w1 = (b2, w2)" by fastforce
  obtain b3 w3 where p3: "(if liveness h then drain_dirty_sessions h it w2 else (False, w2)) = (b3, w3)" by fastforce
  obtain b4 w4 where p4: "(if liveness h then drain_resolved h it w3 else (False, w3)) = (b4, w4)" by fastforce
  obtain b5 w5 where p5: "timers_phase h it w4 = (b5, w5)" by fastforce
  have "loop_inv h w1" unfolding w1_def using assms by (intro fold_loop [where P = "loop_inv h"] handle_event_loop)
  then have "loop_inv h w2" by (rule broadcasts_phase_loop [OF _ p2])
  then have "loop_inv h w3" using p3 by (auto split: if_splits intro: drain_dirty_loop)
  then have "loop_inv h w4" using p4 assms(2) by (auto split: if_splits intro: drain_resolved_loop)
  then have "loop_inv h w5" by (rule timers_phase_loop [OF _ p5])
  then have "loop_inv h (w5\<lparr>wk_did_work := x\<rparr>)" for x by (subst loop_inv_cong [of _ w5]) simp_all
  then show ?thesis by (simp add: polled_def Let_def w1_def [symmetric] p2 p3 p4 p5)
qed

lemma worker_step_loop:
  assumes "loop_inv h w" and "host_ok h"
  shows "loop_inv h (worker_step h w it)"
proof -
  define w1 where "w1 = (if it_shutdown it then shutdown_phase h it w else w)"
  have i: "loop_inv h w1" using assms(1) shutdown_phase_loop by (auto simp: w1_def)
  then have "loop_inv h (w1\<lparr>wk_stopped := True\<rparr>)" by (subst loop_inv_cong [of _ w1]) simp_all
  with i assms(1) polled_loop [OF i assms(2)] show ?thesis
    by (simp add: worker_step_def Let_def w1_def [symmetric] split: poll_result.split)
qed

end
