(* ===== verification/Worker_Run.thy ===== *)
theory Worker_Run
  imports Worker_Invariant
begin

text \<open>
  Runs of the event loop: what a worker's index holds against what its sessions are subscribed
  to, the properties of any run of iterations interleaved with the work of other threads, and
  the end of a run at shutdown.
\<close>


section \<open>The sessions of the slab\<close>

text \<open>
  A session is synced when the channels the index lists for it are those of its context. A
  command changes the context first; the loop reconciles the index before the next event.
\<close>

definition sess :: "'c worker \<Rightarrow> nat \<Rightarrow> session option" where
  "sess w = session_at (wk_conns w)"

definition synced :: "session option \<Rightarrow> bool" where
  "synced so \<longleftrightarrow> (\<forall>s. so = Some s \<longrightarrow> set (se_subs s) = set (cx_subscribed (se_ctx s)))"

definition all_synced :: "'c worker \<Rightarrow> bool" where
  "all_synced w \<longleftrightarrow> (\<forall>k. synced (sess w k))"

lemma synced_none [simp]: "synced None"
  by (simp add: synced_def)

lemma sess_at: "sess w k = Option.bind (map_of (wk_conns w) k) en_session"
  by (simp add: sess_def session_at_def)

lemma sess_put [simp]: "sess (put_entry key e w) = (sess w)(key := en_session e)"
  by (auto simp: sess_at fun_eq_iff update_conv)

lemma sess_cong: "wk_conns w' = wk_conns w \<Longrightarrow> sess w' = sess w"
  by (simp add: sess_def)

lemma sess_fields [simp]:
  "sess (w\<lparr>wk_wheel := a\<rparr>) = sess w" "sess (w\<lparr>wk_node := b\<rparr>) = sess w" "sess (w\<lparr>wk_node := b, wk_frame_limited := c\<rparr>) = sess w"
  "sess (w\<lparr>wk_did_work := d\<rparr>) = sess w" "sess (w\<lparr>wk_stopped := e\<rparr>) = sess w" "sess (w\<lparr>wk_draining := e\<rparr>) = sess w"
  "sess (w\<lparr>wk_handshake_timeouts := c\<rparr>) = sess w" "sess (w\<lparr>wk_accepts := f\<rparr>) = sess w"
  "sess (w\<lparr>wk_accepts := f, wk_accept_limited := c\<rparr>) = sess w" "sess (w\<lparr>wk_wheel := a, wk_accepted := c\<rparr>) = sess w"
  "sess (w\<lparr>wk_subs := g\<rparr>) = sess w" "sess (w\<lparr>wk_inflight := c, wk_outbound := c'\<rparr>) = sess w"
  "sess (w\<lparr>wk_codel := c\<rparr>) = sess w" "sess (w\<lparr>wk_drophead := c\<rparr>) = sess w" "sess (w\<lparr>wk_handoffs := x\<rparr>) = sess w"
  "sess (w\<lparr>wk_next_gen := c, wk_lookups := l\<rparr>) = sess w" "sess (set_slot h s w) = sess w"
  by (simp_all add: sess_def set_slot_def Let_def)

lemma sess_fold [simp]:
  "sess (fold_delta key w) = sess w" "sess (fold_codel key w) = sess w" "sess (fold_drophead key w) = sess w"
  "sess (fold_all key w) = sess w"
proof -
  show *: "sess (fold_delta key w) = sess w" "sess (fold_codel key w) = sess w" "sess (fold_drophead key w) = sess w" for w
    by (auto simp: fold_delta_def fold_codel_def fold_drophead_def case_prod_unfold Let_def sess_at fun_eq_iff update_conv
        take_inflight_delta_def take_outbound_delta_def split: option.split)
  show "sess (fold_all key w) = sess w" by (simp add: fold_all_def *)
qed

lemma sess_remove [simp]: "sess (remove_conn h key w) = (sess w)(key := None)"
  by (auto simp: remove_conn_def Let_def sess_at fun_eq_iff delete_conv split: option.split)

lemma sess_handoff [simp]: "sess (handoff_rest h key replay w) = (sess w)(key := None)"
  by (auto simp: handoff_rest_def Let_def sess_at fun_eq_iff delete_conv split: option.split)

lemma sess_keep: "map_of (wk_conns w) key = Some e \<Longrightarrow> en_session e' = en_session e \<Longrightarrow> sess (put_entry key e' w) = sess w"
  by (auto simp: sess_at fun_eq_iff update_conv)

text \<open>Reconciling the connection in hand is all it takes.\<close>

definition synced_but :: "nat \<Rightarrow> 'c worker \<Rightarrow> bool" where
  "synced_but key w \<longleftrightarrow> (\<forall>k. k \<noteq> key \<longrightarrow> synced (sess w k))"

lemma all_synced_but: "all_synced w \<Longrightarrow> synced_but key w"
  by (simp add: all_synced_def synced_but_def)

lemma reconcile_set:
  "reconcile_membership tok (s, ls) = (s', ls') \<Longrightarrow> se_ctx s' = se_ctx s \<and> set (se_subs s') = set (cx_subscribed (se_ctx s'))"
  by (auto simp: reconcile_membership_def Let_def set_fold_hs_insert split: if_splits)

lemma reconcile_synced: "synced_but key w \<Longrightarrow> all_synced (reconcile key w)"
proof (cases "sess w key")
  case None
  assume "synced_but key w"
  moreover from None have "reconcile key w = w" by (auto simp: reconcile_def sess_at bind_eq_None_conv split: option.split)
  ultimately show ?thesis using None by (auto simp: all_synced_def synced_but_def) (metis synced_none)
next
  case (Some s)
  assume sb: "synced_but key w"
  from Some obtain e where e: "map_of (wk_conns w) key = Some e" "en_session e = Some s" by (auto simp: sess_at bind_eq_Some_conv)
  obtain s' ls where r: "reconcile_membership key (s, wk_subs w) = (s', ls)" by fastforce
  have "reconcile key w = (put_entry key (e\<lparr>en_session := Some s'\<rparr>) w)\<lparr>wk_subs := ls\<rparr>" by (simp add: reconcile_def e r)
  with sb reconcile_set [OF r] show ?thesis by (simp add: all_synced_def synced_but_def synced_def)
qed

lemma gone_synced: "synced_but key w \<Longrightarrow> sess w' = (sess w)(key := None) \<Longrightarrow> all_synced w'"
  by (simp add: all_synced_def synced_but_def)

lemma after_synced:
  assumes "synced_but key w"
  shows "all_synced (after_readable h key act w)" and "all_synced (after_writable h key act w)"
  using assms
  by (auto simp: after_readable_def after_writable_def Let_def synced_but_def
      intro: gone_synced [of key w] reconcile_synced split: action.split)


section \<open>The sessions through an iteration\<close>

text \<open>An operation on one connection leaves the sessions of the others.\<close>

definition elsewhere_same :: "nat \<Rightarrow> 'c worker \<Rightarrow> 'c worker \<Rightarrow> bool" where
  "elsewhere_same key w w' \<longleftrightarrow> (\<forall>k. k \<noteq> key \<longrightarrow> sess w' k = sess w k)"

lemma elsewhere_synced: "elsewhere_same key w w' \<Longrightarrow> all_synced w \<Longrightarrow> synced_but key w'"
  by (simp add: elsewhere_same_def all_synced_def synced_but_def)

lemma elsewhere_put: "wk_conns w1 = wk_conns w \<Longrightarrow> elsewhere_same key w (put_entry key e w1)"
  using sess_cong [of w1 w] by (simp add: elsewhere_same_def)

lemma open_session_elsewhere:
  assumes "open_session h it key path e w = (act, w')"
  shows "elsewhere_same key w w'"
proof -
  have rc: "reject_conn h it key rj e w1 = (act, w') \<Longrightarrow> wk_conns w1 = wk_conns w \<Longrightarrow> elsewhere_same key w w'" for rj w1
    by (auto simp: reject_conn_def intro: elsewhere_put)
  have pk: "park h it key ak c nt e w = (act, w') \<Longrightarrow> elsewhere_same key w w'" for ak c nt
    by (auto simp: park_def Let_def split: prod.splits intro: elsewhere_put)
  from assms show ?thesis
    by (auto simp: open_session_def Let_def dest: establish_simps(1)
        split: prod.splits sum.splits option.splits intro: rc pk) (auto intro!: elsewhere_put dest: establish_simps(1))
qed

lemma handshake_elsewhere:
  "handle_handshake h it script key e w = (act, w') \<Longrightarrow> elsewhere_same key w w'"
  by (auto simp: handle_handshake_def Let_def
      split: prod.splits if_splits head_result.splits worker_mode.splits
      intro: elsewhere_put open_session_elsewhere)

lemma handle_elsewhere:
  "handle_readable h it script key e w = (act, w') \<Longrightarrow> elsewhere_same key w w'"
  "handle_writable h it script key e w = (act, w') \<Longrightarrow> elsewhere_same key w w'"
  by (auto simp: handle_readable_def handle_writable_def split: conn_state.splits prod.splits
      intro: elsewhere_put handshake_elsewhere)

lemma all_synced_cong: "sess w' = sess w \<Longrightarrow> all_synced w' = all_synced w"
  by (simp add: all_synced_def)

lemma on_readable_synced:
  assumes "all_synced w" and "on_readable h it key script w = (act, w')"
  shows "all_synced w'"
proof (cases "map_of (wk_conns w) key")
  case (Some e)
  let ?w = "if liveness h then w\<lparr>wk_wheel := touch key (now_ms it) (wk_wheel w)\<rparr> else w"
  obtain a w2 where r: "handle_readable h it script key e ?w = (a, w2)" by fastforce
  have "all_synced ?w" using assms(1) by (simp add: all_synced_def)
  with handle_elsewhere(1) [OF r] have "synced_but key w2" by (rule elsewhere_synced)
  with assms(2) Some r show ?thesis by (auto simp: on_readable_def Let_def after_synced)
qed (use assms in \<open>simp add: on_readable_def\<close>)

lemma on_writable_synced:
  assumes "all_synced w"
  shows "all_synced (on_writable h it key script w)"
proof (cases "map_of (wk_conns w) key")
  case (Some e)
  obtain a w2 where r: "handle_writable h it script key e w = (a, w2)" by fastforce
  have "synced_but key w2" using handle_elsewhere(2) [OF r] assms by (rule elsewhere_synced)
  with Some r show ?thesis by (auto simp: on_writable_def after_synced)
qed (use assms in \<open>simp add: on_writable_def\<close>)

lemma remove_synced: "all_synced w \<Longrightarrow> all_synced (remove_conn h key w)"
  by (simp add: all_synced_def)

lemma conn_ready_synced:
  assumes "all_synced w"
  shows "all_synced (conn_ready h it r w)"
proof -
  obtain a w1 where r: "(if rd_readable r then on_readable h it (rd_key r) (rd_script r) w else (Keep, w)) = (a, w1)" by fastforce
  then have "all_synced w1" using on_readable_synced [OF assms] assms by (auto split: if_splits)
  with assms r show ?thesis by (auto simp: conn_ready_def Let_def remove_synced on_writable_synced split: if_splits)
qed

lemma accept_synced: "all_synced w \<Longrightarrow> all_synced (accept_ready h deadline now rs w)"
proof (induction h deadline now rs w rule: accept_ready.induct)
  case (2 h deadline now reg tls_ok io rs w)
  have "all_synced (accept_one h deadline now reg tls_ok io w)"
    using 2(2) by (auto simp: accept_one_def Let_def all_synced_def accept_entry_def split: prod.split)
  with 2(1) show ?case by simp
qed simp_all

lemma handle_event_synced: "all_synced w \<Longrightarrow> all_synced (handle_event h it ev w)"
  by (simp add: handle_event_def Let_def accept_synced conn_ready_synced split: event.split)

lemma deliver_sessions: "session_at (pu_conns (deliver_one budget now close frames except item p)) = session_at (pu_conns p)"
proof -
  obtain sid tok v where item: "item = (sid, tok, v)" by (metis prod_cases3)
  from refl [of "deliver_one budget now close frames except (sid, tok, v) p"] show ?thesis
    unfolding item by (cases rule: deliver_one_cases) (auto simp: session_at_def update_conv fun_eq_iff)
qed

lemma pump_sess: "pump_inbox budget now msgs w = (sat, touched, w') \<Longrightarrow> sess w' = sess w"
proof -
  let ?p = "\<lparr>pu_conns = wk_conns w, pu_inflight = wk_inflight w, pu_outbound = wk_outbound w, pu_drophead = wk_drophead w,
    pu_saturated = False, pu_touched = []\<rparr>"
  let ?ok = "\<lambda>p. session_at (pu_conns p) = sess w"
  have one: "?ok p \<Longrightarrow> ?ok (fold (deliver_one budget now close frames except) subs p)" for close frames except subs p
    by (rule fold_loop [where P = ?ok]) (simp_all add: deliver_sessions)
  have "?ok p \<Longrightarrow> ?ok (pump_message budget now close ls msg p)" for close ls msg p
    using one by (simp add: pump_message_def split: option.split)
  then have "?ok (drain_broadcast_inbox budget now {} (wk_subs w) msgs ?p)"
    unfolding drain_broadcast_inbox_def by (intro fold_loop [where P = ?ok]) (simp_all add: sess_def)
  then show "pump_inbox budget now msgs w = (sat, touched, w') \<Longrightarrow> sess w' = sess w"
    by (auto simp: pump_inbox_def Let_def sess_def)
qed

lemma flush_touched_sess: "sess (snd (flush_touched now key clw)) = sess (snd clw)"
proof (cases clw)
  case (Pair cl w)
  show ?thesis
  proof (cases "map_of (wk_conns w) key")
    case (Some e)
    obtain a e' where f: "flush_and_arm now e = (a, e')" by fastforce
    show ?thesis using sess_keep [OF Some flush_steps(2) [OF f]] by (simp add: Pair flush_touched_def Some f)
  qed (simp add: Pair flush_touched_def)
qed

lemma fold_sess: "(\<And>x a. sess (g (f x a)) = sess (g a)) \<Longrightarrow> sess (g (fold f xs a)) = sess (g a)"
  by (induction xs arbitrary: a) simp_all

lemma drain_broadcasts_synced:
  assumes "all_synced w" and "drain_broadcasts h it s w = (b, w')"
  shows "all_synced w'"
proof -
  obtain sat touched w1 where p: "pump_inbox (effective_budget h it) (it_now it) (ws_inbox s) w = (sat, touched, w1)" by (metis prod_cases3)
  let ?w = "set_slot h (s\<lparr>ws_inbox := [], ws_budget_saturated := (ws_budget_saturated s \<or> sat)\<rparr>) w1"
  obtain cl w3 where f: "fold (flush_touched (it_now it)) touched ([], ?w) = (cl, w3)" by fastforce
  have "sess w3 = sess w"
    using fold_sess [of snd "flush_touched (it_now it)" touched "([], ?w)"] f pump_sess [OF p] by (simp add: flush_touched_sess)
  then have "all_synced w3" using assms(1) by (simp add: all_synced_def)
  then have "all_synced (fold (remove_conn h) cl w3)" by (intro fold_loop [where P = all_synced] remove_synced)
  with assms(2) p f show ?thesis by (auto simp: drain_broadcasts_def Let_def)
qed

lemma broadcasts_synced:
  assumes "all_synced w" and "broadcasts_phase h it w = (b, w')"
  shows "all_synced w'"
proof (cases "my_slot h w")
  case (Some s)
  obtain b1 w1 where d: "drain_broadcasts h it s w = (b1, w1)" by fastforce
  have "all_synced w1" by (rule drain_broadcasts_synced [OF assms(1) d])
  with assms(2) Some d show ?thesis by (auto simp: broadcasts_phase_def Let_def all_synced_def split: option.splits)
qed (use assms in \<open>simp add: broadcasts_phase_def\<close>)

text \<open>A mailbox drain changes what a context is subscribed to only if it says so.\<close>

lemma drain_event_subs:
  "\<not> ds_subs_changed (drain_event sj now ev d) \<Longrightarrow> \<not> ds_subs_changed d \<and> se_subs (ds_session (drain_event sj now ev d)) = se_subs (ds_session d) \<and>
     set (cx_subscribed (se_ctx (ds_session (drain_event sj now ev d)))) = set (cx_subscribed (se_ctx (ds_session d)))"
  by (auto simp: drain_event_def Let_def forget_channel_def hs_remove_def split: server_event.splits)

lemma drain_loop_subs:
  "drain_loop sj now evs d = (rest, d') \<Longrightarrow> \<not> ds_subs_changed d' \<Longrightarrow> \<not> ds_subs_changed d \<and>
     se_subs (ds_session d') = se_subs (ds_session d) \<and>
     set (cx_subscribed (se_ctx (ds_session d'))) = set (cx_subscribed (se_ctx (ds_session d)))"
proof (induction evs arbitrary: d)
  case (Cons ev evs)
  show ?case
  proof (cases "\<exists>code reason. ev = Close code reason")
    case True
    with Cons.prems show ?thesis by auto
  next
    case False
    have "drain_loop sj now evs (drain_event sj now ev d) = (rest, d')" using Cons.prems(1) drain_loop_event [OF False] by simp
    from Cons.IH [OF this Cons.prems(2)] drain_event_subs [of sj now ev d] show ?thesis by simp
  qed
qed simp

lemma drain_session_subs:
  assumes "drain_session sj now (e, n) = (r, e', n')" and "\<not> dr_subs_changed r" and "synced (en_session e)"
  shows "synced (en_session e')"
proof (cases "en_session e")
  case (Some s)
  let ?d = "\<lparr>ds_session = s, ds_entry = e, ds_close_after = False, ds_wrote = False, ds_subs_changed = False\<rparr>"
  obtain rest d where l: "drain_loop sj now (mailbox_of s n) ?d = (rest, d)" by fastforce
  have "en_session e' = Some (ds_session d)"
    using assms(1) flush_steps(2) [of now "(ds_entry d)\<lparr>en_session := Some (ds_session d)\<rparr>"]
    by (auto simp: drain_session_def Some l Let_def split: prod.splits if_splits)
  moreover have "\<not> ds_subs_changed d" using assms(1,2) by (auto simp: drain_session_def Some l Let_def split: prod.splits)
  ultimately show ?thesis using drain_loop_subs [OF l] assms(3) Some by (simp add: synced_def)
qed (use assms in \<open>auto simp: drain_session_def\<close>)

lemma drain_dirty_one_synced:
  assumes "all_synced w" and "drain_dirty_one h now key (b, w) = (b', w')"
  shows "all_synced w'"
proof (cases "open_conn (wk_conns w) key")
  case (Some e)
  then have at: "map_of (wk_conns w) key = Some e" by (auto simp: open_conn_def split: option.splits if_splits)
  obtain r e' n' where d: "drain_session (h_json h) now (e, wk_node w) = (r, e', n')" by (metis prod_cases3)
  have "synced (en_session e)" using assms(1) at unfolding all_synced_def sess_at by (metis bind.bind_lunit)
  with drain_session_subs [OF d] have s: "\<not> dr_subs_changed r \<Longrightarrow> synced (en_session e')" by blast
  let ?w = "fold_all key (put_entry key e' (w\<lparr>wk_node := n'\<rparr>))"
  have "synced_but key ?w" using assms(1) by (simp add: synced_but_def all_synced_def)
  moreover have "\<not> dr_subs_changed r \<Longrightarrow> all_synced ?w" using assms(1) s by (simp add: all_synced_def)
  ultimately show ?thesis using assms(2) Some d
    by (auto simp: drain_dirty_one_def Let_def reconcile_synced intro: gone_synced [of key ?w] split: if_splits)
qed (use assms in \<open>simp add: drain_dirty_one_def\<close>)

lemma drain_dirty_synced:
  assumes "all_synced w" and "drain_dirty_sessions h it w = (b, w')"
  shows "all_synced w'"
proof -
  obtain ks w1 where t: "take_dirty h w = (ks, w1)" by fastforce
  then have i: "all_synced w1" using assms(1) by (auto simp: take_dirty_def Let_def all_synced_def)
  have "fold (drain_dirty_one h (it_now it)) ks (False, w1) = (b, w')" using assms(2) t by (simp add: drain_dirty_sessions_def)
  from fold_flagged [where P = all_synced, OF _ i this] drain_dirty_one_synced [of _ h] show ?thesis by blast
qed

lemma establish_synced: "establish h it result c nt slot w = (Inr s, w') \<Longrightarrow> synced (Some s)"
  by (auto simp: establish_def finish_establish_def register_session_def new_context_def synced_def Let_def
      split: prod.splits sum.splits app_lookup.splits if_splits option.splits bool.splits)

lemma resume_synced:
  assumes "all_synced w"
  shows "all_synced (resume_parked h it key e pe result w)"
proof -
  obtain est w1 where s: "establish h it result (pe_codec pe) (pe_notify pe) (pe_mailbox_dropped pe) w = (est, w1)" by fastforce
  have w1: "sess w1 = sess w" using establish_simps(1) [OF s] by (rule sess_cong)
  show ?thesis
  proof (cases est)
    case (Inl rj)
    with s w1 assms show ?thesis by (simp add: resume_parked_def reject_conn_def all_synced_def)
  next
    case (Inr ss)
    obtain act e' where f: "flush_and_arm (it_now it) (established_entry h ss (it_now it) e) = (act, e')" by fastforce
    have "en_session e' = Some ss" using flush_steps(2) [OF f] by (simp add: established_entry_def)
    with establish_synced s Inr w1 assms f show ?thesis by (auto simp: resume_parked_def Let_def all_synced_def)
  qed
qed

lemma drain_resolved_synced:
  assumes "all_synced w" and "drain_resolved h it w = (b, w')"
  shows "all_synced w'"
proof -
  have "all_synced w'" if i: "all_synced w" and r: "drain_resolved_one h it ra (b, w) = (b', w')" for ra b w b' w'
  proof (cases "map_of (wk_conns w) (ra_token ra)")
    case (Some e)
    have "all_synced (put_entry (ra_token ra) (e\<lparr>en_pending_establish := None\<rparr>) w)"
      using sess_keep [OF Some, of "e\<lparr>en_pending_establish := None\<rparr>"] i by (simp add: all_synced_def)
    with i r Some show ?thesis by (auto simp: drain_resolved_one_def Let_def resume_synced split: option.splits if_splits)
  qed (use i r in \<open>simp add: drain_resolved_one_def\<close>)
  from fold_flagged [where P = all_synced, OF _ assms(1) assms(2) [unfolded drain_resolved_def]] this show ?thesis by blast
qed

lemma queue_error_sess [simp]: "sess (queue_error h key error now w) = sess w"
  by (auto simp: queue_error_def entry_error_def sess_at fun_eq_iff update_conv split: option.split)

lemma close_reply_sess: "send_close_reply h key code reason now w = (act, w') \<Longrightarrow> sess w' = sess w"
  using flush_steps(2)
  by (auto simp: send_close_reply_def entry_close_reply_def queue_close_frame_def split: option.splits prod.splits intro!: sess_keep)

lemma close_reply_sess_snd [simp]: "sess (snd (send_close_reply h key code reason now w)) = sess w"
  using close_reply_sess [OF surjective_pairing] .

lemma due_ping_synced:
  assumes "all_synced w" and "due_ping h it key w = (b, w')"
  shows "all_synced w'"
proof (cases "Option.bind (map_of (wk_conns w) key) (entry_ping (h_json h) (it_now it))")
  case None
  with assms show ?thesis by (auto simp: due_ping_def all_synced_def)
next
  case (Some p)
  then obtain e where at: "map_of (wk_conns w) key = Some e" and p: "entry_ping (h_json h) (it_now it) e = Some p"
    by (auto simp: bind_eq_Some_conv)
  obtain act e' where pe: "p = (act, e')" by fastforce
  from p pe have "en_session e' = en_session e" by (auto simp: entry_ping_def split: option.splits if_splits dest: flush_steps(2))
  from sess_keep [OF at this] assms Some pe show ?thesis by (auto simp: due_ping_def Let_def all_synced_def)
qed

lemma handle_due_synced:
  assumes "all_synced w" and "handle_due h it d (b, w) = (b', w')"
  shows "all_synced w'"
proof (cases d)
  case (DuePing key)
  with assms due_ping_synced [OF assms(1)] show ?thesis by (auto simp: handle_due_def split: prod.splits)
qed (use assms in \<open>auto simp: handle_due_def all_synced_def split: option.splits if_splits\<close>)

lemma timers_synced:
  assumes "all_synced w" and "timers_phase h it w = (b, w')"
  shows "all_synced w'"
proof (cases "liveness h")
  case True
  obtain ds wheel where d: "due_at (now_ms it) (wk_wheel w) = (ds, wheel)" by fastforce
  have i: "all_synced (w\<lparr>wk_wheel := wheel\<rparr>)" using assms(1) by (simp add: all_synced_def)
  have "fold (handle_due h it) ds (False, w\<lparr>wk_wheel := wheel\<rparr>) = (b, w')" using assms(2) True d by (simp add: timers_phase_def)
  from fold_flagged [where P = all_synced, OF _ i this] handle_due_synced [of _ h] show ?thesis by blast
qed (use assms in \<open>simp add: timers_phase_def\<close>)

lemma drain_close_synced: "all_synced w \<Longrightarrow> all_synced (drain_close_connection h now key w)"
  by (auto simp: drain_close_connection_def Let_def all_synced_def dest: close_reply_sess split: prod.split)

lemma shutdown_synced:
  assumes "all_synced w"
  shows "all_synced (shutdown_phase h it w)"
proof -
  define w1 where "w1 = (if wk_draining w then w
    else fold (drain_close_connection h (it_now it)) (keys w) (w\<lparr>wk_draining := True\<rparr>))"
  have "all_synced (w\<lparr>wk_draining := True\<rparr>)" using assms by (simp add: all_synced_def)
  then have i: "all_synced w1" using assms by (auto simp: w1_def intro: fold_loop [where P = all_synced] drain_close_synced)
  then have "all_synced (fold (remove_conn h) (keys w1) w1)" by (intro fold_loop [where P = all_synced] remove_synced)
  with i show ?thesis by (simp add: shutdown_phase_def Let_def w1_def [symmetric] all_synced_def)
qed

lemma polled_synced:
  assumes "all_synced w"
  shows "all_synced (polled h it events w)"
proof -
  define w1 where "w1 = fold (handle_event h it) events w"
  obtain b2 w2 where p2: "broadcasts_phase h it w1 = (b2, w2)" by fastforce
  obtain b3 w3 where p3: "(if liveness h then drain_dirty_sessions h it w2 else (False, w2)) = (b3, w3)" by fastforce
  obtain b4 w4 where p4: "(if liveness h then drain_resolved h it w3 else (False, w3)) = (b4, w4)" by fastforce
  obtain b5 w5 where p5: "timers_phase h it w4 = (b5, w5)" by fastforce
  have "all_synced w1" unfolding w1_def using assms by (intro fold_loop [where P = all_synced] handle_event_synced)
  then have "all_synced w2" by (rule broadcasts_synced [OF _ p2])
  then have "all_synced w3" using p3 by (auto split: if_splits intro: drain_dirty_synced)
  then have "all_synced w4" using p4 by (auto split: if_splits intro: drain_resolved_synced)
  then have "all_synced w5" by (rule timers_synced [OF _ p5])
  then show ?thesis by (simp add: polled_def Let_def w1_def [symmetric] p2 p3 p4 p5 all_synced_def)
qed

lemma worker_step_synced:
  assumes "all_synced w"
  shows "all_synced (worker_step h w it)"
proof -
  define w1 where "w1 = (if it_shutdown it then shutdown_phase h it w else w)"
  have i: "all_synced w1" using assms shutdown_synced by (auto simp: w1_def)
  then have "all_synced (w1\<lparr>wk_stopped := True\<rparr>)" by (simp add: all_synced_def)
  with i assms polled_synced [OF i] show ?thesis
    by (simp add: worker_step_def Let_def w1_def [symmetric] split: poll_result.split)
qed


section \<open>Runs\<close>

text \<open>
  A run: iterations of this worker, and between them whatever other workers and threads do to the
  shared counters and to the node.
\<close>

datatype 'c worker_op = Iterate iteration | Elsewhere shared "'c local_adapter node"

fun worker_run :: "'c host \<Rightarrow> 'c worker \<Rightarrow> 'c worker_op \<Rightarrow> 'c worker" where
  "worker_run h w (Iterate it) = worker_step h w it"
| "worker_run h w (Elsewhere sh n) = w\<lparr>wk_shared := sh, wk_node := n\<rparr>"

definition run_inv :: "'c host \<Rightarrow> 'c worker \<Rightarrow> bool" where
  "run_inv h w \<longleftrightarrow> all_synced w \<and> (host_ok h \<longrightarrow> loop_inv h w)"

lemma worker_run_inv: "run_inv h w \<Longrightarrow> run_inv h (worker_run h w x)"
proof (cases x)
  case (Elsewhere sh n)
  have "loop_inv h (w\<lparr>wk_shared := sh, wk_node := n\<rparr>) = loop_inv h w" by (rule loop_inv_cong) simp_all
  moreover have "all_synced (w\<lparr>wk_shared := sh, wk_node := n\<rparr>) = all_synced w" by (rule all_synced_cong, rule sess_cong) simp
  moreover assume "run_inv h w"
  ultimately show ?thesis by (simp add: Elsewhere run_inv_def)
qed (simp add: run_inv_def worker_step_loop worker_step_synced)

interpretation worker_loop: machine "worker_run h" "run_inv h" for h
  by unfold_locales (rule worker_run_inv)

lemma worker_new_inv: "run_inv h (worker_new h sh n)"
proof -
  have "indexed [] []" by (auto simp: indexed_def gview_def session_at_def groups_ok_def)
  then show ?thesis
    by (simp add: run_inv_def worker_new_def all_synced_def sess_at loop_inv_def worker_inv_def books_ok_def ids_ok_def
        session_at_def all_calm_def tally_def)
qed

lemma reached_inv: "host_ok h \<Longrightarrow> loop_inv h (foldl (worker_run h) (worker_new h sh n) ops)"
  using worker_loop.run_invar [OF worker_new_inv, of h sh n ops] by (simp add: run_inv_def)

lemma reached_synced: "all_synced (foldl (worker_run h) (worker_new h sh n) ops)"
  using worker_loop.run_invar [OF worker_new_inv, of h sh n ops] by (simp add: run_inv_def)


section \<open>An example worker\<close>

text \<open>A dispatch worker without limits that accepts one connection in its first iteration.\<close>

definition example_config :: worker_config where
  "example_config = \<lparr>cf_max_payload = 1024, cf_max_message_bytes = 1024, cf_max_head_bytes = 1024,
     cf_handshake_timeout_ms = 0, cf_high_water = 4096, cf_mode = Dispatch, cf_rest_handoff = True,
     cf_per_worker_budget = 0, cf_mailbox_dropped_slot = None, cf_max_frames_per_second = 0, cf_max_frames_burst = 0,
     cf_max_accepts_per_second = 0, cf_codel = \<lparr>target_ns = 0, interval_ns = 0\<rparr>, cf_budget_factor = None,
     cf_shutdown_grace_ms = 0\<rparr>"

definition example_host :: "unit host" where
  "example_host = \<lparr>h_json = ghost_json, h_crypto = example_crypto, h_crates = example_crates, h_moka = example_moka,
     h_cfg = example_config, h_env = example_env, h_tls = False, h_id = 0, h_vacant = (\<lambda>ks. Suc (sum_list ks)),
     h_draws = (\<lambda>j. (Suc j, Suc j))\<rparr>"

definition example_worker :: "unit worker" where
  "example_worker = worker_new example_host no_connections example_node"

definition accepting :: iteration where
  "accepting = \<lparr>it_now = 0, it_poll = PollEvents [ListenerReady [Accepted True True [], AcceptEnd]], it_factor = 1000,
     it_apps = (\<lambda>_. None), it_admit = (\<lambda>_ _. None), it_resolved = [], it_shutdown = False, it_expired = False\<rparr>"

lemma example_host_ok: "host_ok example_host"
  unfolding host_ok_def example_host_def by (auto dest: member_le_sum_list)

lemma example_accepted:
  "worker_run example_host example_worker (Iterate accepting) =
     example_worker\<lparr>wk_conns := [(1, accept_entry example_host 1 [])], wk_accepted := 1\<rparr>"
  by (simp add: accepting_def worker_step_def polled_def handle_event_def Let_def)
    (simp add: example_worker_def accept_one_def worker_new_def example_host_def example_config_def token_bucket_new_def
      take_at_ns_def liveness_def now_ms_def put_entry_def broadcasts_phase_def my_slot_def example_node_def
      drain_dirty_sessions_def take_dirty_def example_store_def drain_resolved_def timers_phase_def Let_def with_timeouts_def
      example_env_def due_at_def fun_upd_idem)

lemma example_accepted_state:
  "\<not> wk_stopped (worker_run example_host example_worker (Iterate accepting))"
  "map fst (wk_conns (worker_run example_host example_worker (Iterate accepting))) = [1]"
  "wk_drawn (worker_run example_host example_worker (Iterate accepting)) = 0"
  unfolding example_accepted by (simp_all add: example_worker_def worker_new_def)


section \<open>What every run keeps\<close>

lemma tally_cong: "(\<And>k e. (k, e) \<in> set conns \<Longrightarrow> f e = g e) \<Longrightarrow> tally f conns = tally g conns"
  unfolding tally_def by (intro arg_cong [where f = sum_list] map_cong) auto

lemma loop_totals:
  assumes "loop_inv h w"
  shows "wk_inflight w = word_of_int (tally held (wk_conns w))" and "wk_outbound w = word_of_int (tally owed (wk_conns w))"
proof -
  have hm: "hm_ok (wk_conns w)" using assms by (auto simp: loop_inv_def intro: hm_conns)
  have "rec_in e = held e \<and> rec_out e = owed e" if "(k, e) \<in> set (wk_conns w)" for k e
  proof -
    have "map_of (wk_conns w) k = Some e" using hm that by (simp add: hm_ok_def)
    from loop_inv_at(1) [OF assms this] show ?thesis
      by (simp add: calm_entry_def rec_in_def rec_out_def held_def owed_def on_record_def)
  qed
  then have "tally rec_in (wk_conns w) = tally held (wk_conns w)" "tally rec_out (wk_conns w) = tally owed (wk_conns w)"
    by (auto intro!: tally_cong)
  with assms show "wk_inflight w = word_of_int (tally held (wk_conns w))" "wk_outbound w = word_of_int (tally owed (wk_conns w))"
    by (simp_all add: loop_inv_def worker_inv_def books_ok_def)
qed

text \<open>
  C6. The books of the event loop. After any run of iterations, interleaved with the work of other
  threads, the worker's total of held bytes and its total of outbound bytes are exactly the sums
  over its connections (modulo \<open>2 ^ 64\<close>), and every connection that has queued frames, or is
  open and has records TLS has not put on the wire, is armed for writable events: the poll cannot
  sleep on a backlog. No reassembled message exceeds the configured size.
\<close>

theorem worker_totals_and_interest:
  assumes "host_ok h" and "foldl (worker_run h) (worker_new h sh n) ops = w"
  shows "wk_inflight w = word_of_int (\<Sum>(key, e) \<leftarrow> wk_conns w. int (accounted_bytes (en_conn e)))
    \<and> wk_outbound w = word_of_int (\<Sum>(key, e) \<leftarrow> wk_conns w. int (outbound_bytes (en_conn e)))
    \<and> (\<forall>(key, e) \<in> set (wk_conns w).
         (0 < c_out_bytes (en_conn e) \<or> c_state (en_conn e) = conn_state.Open \<and> 0 < outbound_bytes (en_conn e) \<longrightarrow>
            c_writable_armed (en_conn e)) \<and>
         c_reassembly_bytes (en_conn e) \<le> cf_max_message_bytes (h_cfg h))"
proof -
  have inv: "loop_inv h w" using reached_inv [OF assms(1)] assms(2) by blast
  have "tidy (message_cap h) e" if "(key, e) \<in> set (wk_conns w)" for key e
    using loop_inv_at(2) [OF inv] that hm_conns [of h w] inv by (auto simp: loop_inv_def hm_ok_def)
  then have "\<forall>(key, e) \<in> set (wk_conns w).
         (0 < c_out_bytes (en_conn e) \<or> c_state (en_conn e) = conn_state.Open \<and> 0 < outbound_bytes (en_conn e) \<longrightarrow>
            c_writable_armed (en_conn e)) \<and>
         c_reassembly_bytes (en_conn e) \<le> cf_max_message_bytes (h_cfg h)"
    by (fastforce simp: tidy_def owes_def outbound_bytes_def ready_def billed_def)
  with loop_totals [OF inv] show ?thesis by (simp add: tally_def held_def owed_def)
qed

theorem worker_totals_and_interest_witness:
  "let w = foldl (worker_run example_host) (worker_new example_host no_connections example_node) [Iterate accepting]
   in map fst (wk_conns w) = [1] \<and> wk_outbound w = word_of_int (\<Sum>(key, e) \<leftarrow> wk_conns w. int (outbound_bytes (en_conn e)))"
  using worker_totals_and_interest [OF example_host_ok refl, of no_connections example_node "[Iterate accepting]"]
    example_accepted_state(2) [unfolded example_worker_def] by (simp add: Let_def del: worker_run.simps)

text \<open>
  C7. The subscription index is exact. After any run in which no socket id has been drawn twice, a
  channel of an application lists a socket, with a slab token and a protocol version, exactly when the connection at that token has an open
  session of that application with that socket id and version which is subscribed to the channel:
  nothing of a closed connection or of a left channel stays, and no live subscription is missing.
\<close>

theorem worker_index_exact:
  assumes "host_ok h" and "foldl (worker_run h) (worker_new h sh n) ops = w" and "inj_on (drawn_id h) {..<wk_drawn w}"
  shows "gview (wk_subs w) (app, channel) sid = Some (tok, version) \<longleftrightarrow>
    (\<exists>e s. map_of (wk_conns w) tok = Some e \<and> en_session e = Some s \<and> cx_socket_id (se_ctx s) = sid \<and>
       app_id (cx_app (se_ctx s)) = app \<and> codec_version (se_codec s) = version \<and> channel \<in> set (cx_subscribed (se_ctx s)))"
proof -
  have inv: "loop_inv h w" using reached_inv [OF assms(1)] assms(2) by blast
  have "all_synced w" using reached_synced assms(2) by blast
  then have s: "session_at (wk_conns w) tok = Some s \<Longrightarrow> set (se_subs s) = set (cx_subscribed (se_ctx s))" for s
    by (auto simp: all_synced_def synced_def sess_def)
  have "gview (wk_subs w) (app, channel) sid = Some (tok, version) \<longleftrightarrow>
      (\<exists>s. session_at (wk_conns w) tok = Some s \<and> cx_socket_id (se_ctx s) = sid \<and> index_item s tok (app, channel) = Some (tok, version))"
    using inv assms(3) unfolding loop_inv_def worker_inv_def fresh_ids_def indexed_def by blast
  with s show ?thesis by (auto simp: index_item_def session_app_def session_at_def bind_eq_Some_conv)
qed

theorem worker_index_exact_witness:
  "let w = foldl (worker_run example_host) (worker_new example_host no_connections example_node) [Iterate accepting]
   in map fst (wk_conns w) = [1] \<and> gview (wk_subs w) (''a'', ''c'') (from_raw ''1.1'') \<noteq> Some (1, 7)"
proof -
  let ?w = "foldl (worker_run example_host) (worker_new example_host no_connections example_node) [Iterate accepting]"
  have w: "?w = worker_run example_host example_worker (Iterate accepting)"
    by (simp add: example_worker_def del: worker_run.simps)
  have "wk_drawn ?w = 0" unfolding w by (rule example_accepted_state)
  from worker_index_exact [OF example_host_ok refl, of no_connections example_node "[Iterate accepting]" "''a''" "''c''"
      "from_raw ''1.1''" 1 7, unfolded this]
  have "gview (wk_subs ?w) (''a'', ''c'') (from_raw ''1.1'') \<noteq> Some (1, 7)"
    unfolding w example_accepted by (simp add: accept_entry_def)
  with example_accepted_state(2) show ?thesis unfolding Let_def w by blast
qed


section \<open>The end of a run\<close>

lemma remove_all: "map_of (wk_conns (fold (remove_conn h) ks w)) = (\<lambda>k. if k \<in> set ks then None else map_of (wk_conns w) k)"
proof (induction ks arbitrary: w)
  case (Cons k ks)
  have "map_of (wk_conns (remove_conn h k w)) = (map_of (wk_conns w))(k := None)"
    by (auto simp: remove_conn_def Let_def delete_conv split: option.split)
  with Cons show ?case by (auto simp: fun_eq_iff)
qed simp

lemma remove_every: "wk_conns (fold (remove_conn h) (keys w) w) = []"
proof -
  have "map_of (wk_conns (fold (remove_conn h) (keys w) w)) = (\<lambda>_. None)"
    by (auto simp: remove_all keys_def fun_eq_iff map_of_eq_None_iff)
  then show ?thesis by (metis map_of_eq_empty_iff)
qed

text \<open>
  C8. Shutdown ends the loop. In any reachable state, an iteration that sees the shutdown flag once
  the grace period is over (or when there is none) stops the worker: every connection is torn
  down, both byte totals are zero and (no socket id having been drawn twice) the subscription
  index is empty; and a stopped worker does nothing more.
\<close>

theorem shutdown_stops_worker:
  assumes "host_ok h" and "foldl (worker_run h) (worker_new h sh n) ops = w" and "\<not> wk_stopped w"
    and "it_shutdown it" and "cf_shutdown_grace_ms (h_cfg h) = 0 \<or> it_expired it"
  shows "wk_stopped (worker_step h w it) \<and> wk_conns (worker_step h w it) = [] \<and> wk_inflight (worker_step h w it) = 0 \<and>
    wk_outbound (worker_step h w it) = 0 \<and>
    (inj_on (drawn_id h) {..<wk_drawn (worker_step h w it)} \<longrightarrow> gview (wk_subs (worker_step h w it)) = (\<lambda>_ _. None)) \<and>
    worker_step h (worker_step h w it) it' = worker_step h w it"
proof -
  let ?w = "worker_step h w it"
  have inv: "loop_inv h ?w" using reached_inv [OF assms(1)] assms(1,2) worker_step_loop by blast
  have st: "wk_stopped (shutdown_phase h it w)" "wk_conns (shutdown_phase h it w) = []"
    using assms(5) by (auto simp: shutdown_phase_def Let_def remove_every)
  then have w: "?w = shutdown_phase h it w" using assms(3,4) by (simp add: worker_step_def)
  have "gview (wk_subs ?w) k sid \<noteq> Some (tok, v)" if "fresh_ids h ?w" for k sid tok v
    using inv st(2) that unfolding loop_inv_def worker_inv_def indexed_def w
    by (cases k) (simp add: session_at_def)
  then have "gview (wk_subs ?w) k sid = None" if "fresh_ids h ?w" for k sid
    using that by (metis not_None_eq surj_pair)
  moreover have "worker_step h ?w it' = ?w" unfolding w using st(1) by (simp add: worker_step_def)
  ultimately show ?thesis using loop_totals [OF inv] st by (simp add: w fun_eq_iff tally_def fresh_ids_def)
qed

theorem shutdown_stops_worker_witness:
  "let w = foldl (worker_run example_host) (worker_new example_host no_connections example_node) [Iterate accepting];
       w' = worker_step example_host w (accepting\<lparr>it_shutdown := True\<rparr>)
   in map fst (wk_conns w) = [1] \<and> wk_stopped w' \<and> wk_conns w' = [] \<and> wk_inflight w' = 0"
proof -
  let ?w = "foldl (worker_run example_host) (worker_new example_host no_connections example_node) [Iterate accepting]"
  have w: "?w = worker_run example_host example_worker (Iterate accepting)"
    by (simp add: example_worker_def del: worker_run.simps)
  have "cf_shutdown_grace_ms (h_cfg example_host) = 0" by (simp add: example_host_def example_config_def)
  with shutdown_stops_worker [OF example_host_ok refl, of no_connections example_node "[Iterate accepting]"
      "accepting\<lparr>it_shutdown := True\<rparr>"] example_accepted_state(1,2)
  show ?thesis unfolding Let_def w by (simp del: worker_run.simps)
qed

text \<open>
  Where the interest and the outbound total part. A connection that is still in its opening
  handshake when the shutdown drain queues its error and close frames may be left with records
  that TLS could not write. The next event writes them while it reads the head, and then drops
  the writable interest without settling the byte count: the worker's outbound total keeps them,
  and the drain lasts for the whole grace period.
\<close>

lemma handshake_disarm_keeps_debt:
  assumes "c_out (en_conn e) = []" and "c_writable_armed (en_conn e)" and "io_registered (next_io e)"
  shows "\<exists>e'. arm_handshake_interest False now e = (Keep, e') \<and> \<not> c_writable_armed (en_conn e') \<and>
    outbound_bytes (en_conn e') = outbound_bytes (en_conn e)"
  using assms by (simp add: arm_handshake_interest_def set_writable_armed_def outbound_bytes_def)

end
