(* ===== verification/Rest_Limits.thy ===== *)
theory Rest_Limits
  imports Rate App
begin

text \<open>
  The rate limits of the HTTP API: one bucket for the node and, per application, one for
  published events and one for reads. The per-application buckets live in a cache that may drop
  an entry at any time; the entries it has dropped by the time of a check are an input.
\<close>


section \<open>State\<close>

record rate_headers =
  rh_limit :: nat
  rh_remaining :: nat
  rh_retry_after_secs :: nat

datatype rate_decision = Allowed | Limited rate_headers

record rest_rate_limited_counts =
  rl_counted_node :: nat
  rl_counted_app_events :: nat
  rl_counted_app_reads :: nat

type_synonym bucket_cache = "(string \<times> token_bucket) list"

record rest_rate_limits =
  rl_node_rate :: nat
  rl_node :: token_bucket
  rl_default_events :: nat
  rl_default_reads :: nat
  rl_events :: bucket_cache
  rl_reads :: bucket_cache
  rl_limited_node :: nat
  rl_limited_app_events :: nat
  rl_limited_app_reads :: nat

definition fresh_bucket :: "nat \<Rightarrow> token_bucket" where
  "fresh_bucket rate_per_second = token_bucket_new rate_per_second rate_per_second"

definition rest_rate_limits_new :: "nat \<Rightarrow> nat \<Rightarrow> nat \<Rightarrow> rest_rate_limits" where
  "rest_rate_limits_new node_rate events reads =
     \<lparr>rl_node_rate = node_rate, rl_node = token_bucket_new node_rate node_rate, rl_default_events = events,
      rl_default_reads = reads, rl_events = [], rl_reads = [], rl_limited_node = 0, rl_limited_app_events = 0,
      rl_limited_app_reads = 0\<rparr>"


section \<open>Operations\<close>

definition decide :: "u64 \<Rightarrow> nat \<Rightarrow> token_bucket \<Rightarrow> rate_decision \<times> token_bucket" where
  "decide now_ns cost b =
     (let (ok, b1) = take_at_ns now_ns cost b
      in if ok then (Allowed, b1)
         else (Limited \<lparr>rh_limit = tb_rate_per_second b1, rh_remaining = remaining_at_ns now_ns b1,
                        rh_retry_after_secs = max (retry_after_secs_at_ns now_ns cost b1) 1\<rparr>, b1))"

definition check_node :: "u64 \<Rightarrow> rest_rate_limits \<Rightarrow> rate_decision \<times> rest_rate_limits" where
  "check_node now_ns l =
     (if rl_node_rate l = 0 then (Allowed, l)
      else (let (d, b) = decide now_ns 1 (rl_node l); l1 = l\<lparr>rl_node := b\<rparr>
            in (d, if d = Allowed then l1 else l1\<lparr>rl_limited_node := rl_limited_node l1 + 1\<rparr>)))"

text \<open>\<open>dropped\<close> is the set of applications whose bucket the cache has dropped.\<close>

definition app_decision ::
  "string set \<Rightarrow> u64 \<Rightarrow> app \<Rightarrow> nat \<Rightarrow> nat \<Rightarrow> bucket_cache \<Rightarrow> rate_decision \<times> bucket_cache" where
  "app_decision dropped now_ns app configured cost cache =
     (if configured = 0 then (Allowed, cache)
      else (let cache1 = filter (\<lambda>(key, _). key \<notin> dropped) cache;
                cached = (case map_of cache1 (app_id app) of Some b \<Rightarrow> b | None \<Rightarrow> fresh_bucket configured);
                bucket = (if tb_rate_per_second cached = configured then cached else fresh_bucket configured);
                (d, b) = decide now_ns cost bucket
            in (d, AList.update (app_id app) b cache1)))"

definition check_app_events ::
  "string set \<Rightarrow> u64 \<Rightarrow> app \<Rightarrow> nat \<Rightarrow> rest_rate_limits \<Rightarrow> rate_decision \<times> rest_rate_limits" where
  "check_app_events dropped now_ns app cost l =
     (let configured = (case max_backend_events_per_second app of Some r \<Rightarrow> r | None \<Rightarrow> rl_default_events l);
          (d, c) = app_decision dropped now_ns app configured cost (rl_events l);
          l1 = l\<lparr>rl_events := c\<rparr>
      in (d, if d = Allowed then l1 else l1\<lparr>rl_limited_app_events := rl_limited_app_events l1 + 1\<rparr>))"

definition check_app_reads ::
  "string set \<Rightarrow> u64 \<Rightarrow> app \<Rightarrow> rest_rate_limits \<Rightarrow> rate_decision \<times> rest_rate_limits" where
  "check_app_reads dropped now_ns app l =
     (let configured = (case max_read_requests_per_second app of Some r \<Rightarrow> r | None \<Rightarrow> rl_default_reads l);
          (d, c) = app_decision dropped now_ns app configured 1 (rl_reads l);
          l1 = l\<lparr>rl_reads := c\<rparr>
      in (d, if d = Allowed then l1 else l1\<lparr>rl_limited_app_reads := rl_limited_app_reads l1 + 1\<rparr>))"

definition rest_counts :: "rest_rate_limits \<Rightarrow> rest_rate_limited_counts" where
  "rest_counts l =
     \<lparr>rl_counted_node = rl_limited_node l, rl_counted_app_events = rl_limited_app_events l,
      rl_counted_app_reads = rl_limited_app_reads l\<rparr>"


section \<open>What the buckets grant\<close>

text \<open>A sequence of publishes of several applications, and the events it grants to one of them.\<close>

fun granted_events :: "string \<Rightarrow> (u64 \<times> app \<times> nat) list \<Rightarrow> rest_rate_limits \<Rightarrow> nat \<times> rest_rate_limits" where
  "granted_events a [] l = (0, l)"
| "granted_events a ((now, app, cost) # ts) l =
     (let (d, l1) = check_app_events {} now app cost l; (g, l2) = granted_events a ts l1
      in ((if d = Allowed \<and> app_id app = a then cost else 0) + g, l2))"

definition bucket_of :: "nat \<Rightarrow> string \<Rightarrow> rest_rate_limits \<Rightarrow> token_bucket" where
  "bucket_of rate a l = (case map_of (rl_events l) a of Some b \<Rightarrow> b | None \<Rightarrow> fresh_bucket rate)"

lemma take_keeps_rate: "take_at_ns now cost b = (ok, b') \<Longrightarrow> tb_rate_per_second b' = tb_rate_per_second b"
  by (auto simp: take_at_ns_def Let_def split: if_splits)

lemma fresh_bucket_rate: "tb_rate_per_second (fresh_bucket rate) = rate"
  by (simp add: fresh_bucket_def token_bucket_new_def Let_def)

lemma check_events_bucket:
  assumes c: "check_app_events {} now app cost l = (d, l')" and "0 < rate"
    and r: "tb_rate_per_second (bucket_of rate a l) = rate"
    and conf: "app_id app = a \<Longrightarrow> max_backend_events_per_second app = Some rate"
  shows "app_id app \<noteq> a \<Longrightarrow> bucket_of rate a l' = bucket_of rate a l"
    and "app_id app = a \<Longrightarrow> take_at_ns now cost (bucket_of rate a l) = (d = Allowed, bucket_of rate a l')"
proof -
  show "app_id app \<noteq> a \<Longrightarrow> bucket_of rate a l' = bucket_of rate a l"
    using c by (auto simp: check_app_events_def app_decision_def bucket_of_def Let_def update_conv split: prod.splits if_splits)
  assume a: "app_id app = a"
  obtain ok b where t: "take_at_ns now cost (bucket_of rate a l) = (ok, b)" by fastforce
  have "app_decision {} now app rate cost (rl_events l) =
      (let (d, b) = decide now cost (bucket_of rate a l) in (d, AList.update a b (rl_events l)))"
    using assms(2) r a by (simp add: app_decision_def Let_def bucket_of_def split: option.split)
  with c conf [OF a] t show "take_at_ns now cost (bucket_of rate a l) = (d = Allowed, bucket_of rate a l')"
    by (auto simp: check_app_events_def decide_def bucket_of_def Let_def update_conv split: if_splits)
qed

lemma granted_run_takes:
  assumes "0 < rate" and "tb_rate_per_second (bucket_of rate a l) = rate"
    and "\<forall>(now, app, cost) \<in> set ts. app_id app = a \<longrightarrow> max_backend_events_per_second app = Some rate"
  shows "fst (granted_events a ts l) =
    fst (run_takes (map (\<lambda>(now, app, cost). (now, cost)) (filter (\<lambda>(now, app, cost). app_id app = a) ts)) (bucket_of rate a l))"
  using assms(2,3)
proof (induction ts arbitrary: l)
  case (Cons t ts)
  obtain now app cost where t: "t = (now, app, cost)" by (metis prod_cases3)
  obtain d l' where c: "check_app_events {} now app cost l = (d, l')" by fastforce
  have conf: "app_id app = a \<Longrightarrow> max_backend_events_per_second app = Some rate" using Cons.prems(2) t by auto
  note b = check_events_bucket [OF c assms(1) Cons.prems(1) conf]
  have g: "fst (granted_events a (t # ts) l) = (if d = Allowed \<and> app_id app = a then cost else 0) + fst (granted_events a ts l')"
    by (simp add: t c case_prod_unfold Let_def)
  have rest: "\<forall>(now, app, cost) \<in> set ts. app_id app = a \<longrightarrow> max_backend_events_per_second app = Some rate"
    using Cons.prems(2) by simp
  show ?case
  proof (cases "app_id app = a")
    case True
    have "tb_rate_per_second (bucket_of rate a l') = rate" using take_keeps_rate [OF b(2) [OF _ True]] True Cons.prems(1) by simp
    from Cons.IH [OF this rest] g b(2) [OF _ True] True show ?thesis by (simp add: t case_prod_unfold Let_def)
  next
    case False
    have "tb_rate_per_second (bucket_of rate a l') = rate" using b(1) [OF _ False] False Cons.prems(1) by simp
    from Cons.IH [OF this rest] g b(1) [OF _ False] False show ?thesis by (simp add: t)
  qed
qed simp

text \<open>
  C14. The publishing limit of an application. Over any sequence of publishes at non-decreasing
  times during which the cache drops no bucket, whatever other applications publish in between,
  the events granted to an application are at most its rate per second times the elapsed time, plus one second's worth for the burst and a
  relative rounding error of a few units in the last place for each of its requests.
\<close>

theorem app_event_rate_respected:
  assumes "0 < rate" and "sorted (map fst ts)" and "\<forall>(now, app, cost) \<in> set ts. start_ns \<le> now \<and> now \<le> end_ns"
    and "\<forall>(now, app, cost) \<in> set ts. app_id app = a \<longrightarrow> max_backend_events_per_second app = Some rate"
    and "requests = length (filter (\<lambda>(now, app, cost). app_id app = a) ts)" and "h = 1 / 2 ^ 53"
  shows "(of_nat (fst (granted_events a ts (rest_rate_limits_new node_rate events reads))) :: rat) \<le> of_nat rate
    + of_nat (unat end_ns - unat start_ns) * (of_nat rate / 1000000000 * (1 + h) ^ 4)
    + of_nat requests * (of_nat rate * (2 * h + h * h))"
proof -
  let ?l = "rest_rate_limits_new node_rate events reads"
  let ?ts = "map (\<lambda>(now, app, cost). (now, cost)) (filter (\<lambda>(now, app, cost). app_id app = a) ts)"
  have b: "bucket_of rate a ?l = token_bucket_new rate rate"
    by (simp add: bucket_of_def rest_rate_limits_new_def fresh_bucket_def)
  have "map fst ?ts = map fst (filter (\<lambda>(now, app, cost). app_id app = a) ts)" by (induction ts) auto
  then have s: "sorted (map fst ?ts)" using sorted_filter [OF assms(2)] by (simp only:)
  have "\<forall>t \<in> set ?ts. start_ns \<le> fst t \<and> fst t \<le> end_ns" using assms(3) by fastforce
  from rate_limit_respected [OF assms(1) s this prod.collapse [symmetric] assms(6), of rate]
    granted_run_takes [OF assms(1) _ assms(4), of ?l] fresh_bucket_rate [of rate]
  show ?thesis by (simp add: b fresh_bucket_def assms(5))
qed

definition metered_app :: app where
  "metered_app = \<lparr>app_name = ''demo'', app_id = ''a'', app_key = ''k'', app_secret = ''s'', app_enabled = True,
     client_messages_enabled = True, app_capacity = 0, max_backend_events_per_second = Some 2,
     max_read_requests_per_second = None, subscription_count_enabled = False, app_webhooks = [],
     has_channel_occupied_webhooks = False, has_channel_vacated_webhooks = False,
     has_member_added_webhooks = False, has_member_removed_webhooks = False,
     has_client_event_webhooks = False, has_cache_miss_webhooks = False,
     has_subscription_count_webhooks = False\<rparr>"

theorem app_event_rate_respected_witness:
  "fst (granted_events ''a'' (replicate 3 (0, metered_app, 1)) (rest_rate_limits_new 0 0 0)) \<le> 2"
proof -
  let ?g = "fst (granted_events ''a'' (replicate 3 (0, metered_app, 1)) (rest_rate_limits_new 0 0 0))"
  have "(of_nat ?g :: rat) \<le> 2 + 3 * (2 * (2 * (1 / 2 ^ 53) + 1 / 2 ^ 53 * (1 / 2 ^ 53)))"
    using app_event_rate_respected [of 2 "replicate 3 (0, metered_app, 1)" 0 0 "''a''" 3 "1 / 2 ^ 53" 0 0 0]
    by (simp add: metered_app_def numeral_3_eq_3 del: granted_events.simps)
  also have "\<dots> < of_nat 3" by simp
  finally have "?g < 3" by (simp only: of_nat_less_iff)
  then show ?thesis by simp
qed

end
