(* ===== verification/Rest.thy ===== *)
theory Rest
  imports Rest_Limits Sessions Handshake
begin

text \<open>
  The HTTP API: the error type and its rendering, the authentication of a request, the
  endpoints that publish events, list channels and users and terminate a user's connections,
  the administration endpoint and the probes. The HTTP framework hands over decoded parameters
  and a buffered body, or its own rejection.
\<close>


section \<open>Errors\<close>

record rest_error =
  re_status :: nat
  re_message :: string
  re_rate :: "rate_headers option"

definition rest_error_of :: "nat \<Rightarrow> string \<Rightarrow> rest_error" where
  "rest_error_of status message = \<lparr>re_status = status, re_message = message, re_rate = None\<rparr>"

abbreviation "not_found \<equiv> rest_error_of 404"
abbreviation "method_not_allowed \<equiv> rest_error_of 405"
abbreviation "bad_request \<equiv> rest_error_of 400"
abbreviation "unauthorized \<equiv> rest_error_of 401"
abbreviation "forbidden \<equiv> rest_error_of 403"
abbreviation "payload_too_large \<equiv> rest_error_of 413"
abbreviation "service_unavailable \<equiv> rest_error_of 503"

definition too_many_requests :: "string \<Rightarrow> rate_headers \<Rightarrow> rest_error" where
  "too_many_requests message rate = \<lparr>re_status = 429, re_message = message, re_rate = Some rate\<rparr>"

text \<open>The status, the headers and the body; a header replaces an earlier one of its name.\<close>

definition into_response :: "serde_json \<Rightarrow> rest_error \<Rightarrow> nat \<times> (string \<times> string) list \<times> string" where
  "into_response sj err =
     (let body = error_body sj (re_message err) (re_status err);
          h1 = [(''content-type'', ''application/json'')];
          h2 = (if re_status err = 503 then AList.update ''retry-after'' ''1'' h1 else h1);
          h3 = (case re_rate err of
                  None \<Rightarrow> h2
                | Some rate \<Rightarrow>
                    AList.update ''x-ratelimit-remaining'' (show_nat (rh_remaining rate))
                      (AList.update ''x-ratelimit-limit'' (show_nat (rh_limit rate))
                        (AList.update ''retry-after'' (show_nat (rh_retry_after_secs rate)) h2)))
      in (re_status err, h3, body))"


section \<open>State and requests\<close>

record rest_config =
  rc_rest_auth_window_secs :: nat
  rc_max_event_payload_bytes :: nat
  rc_max_event_name_length :: nat
  rc_max_channel_name_length :: nat
  rc_max_channels_per_publish :: nat
  rc_max_batch_events :: nat
  rc_cache_ttl_secs :: nat
  rc_app_admin_token :: "string option"

record trigger_body =
  tr_name :: string
  tr_data :: string
  tr_channels :: "string list option"
  tr_channel :: "string option"
  tr_socket_id :: "string option"
  tr_info :: "string option"

record batch_item =
  bi_name :: string
  bi_data :: string
  bi_channel :: string
  bi_socket_id :: "string option"
  bi_info :: "string option"

text \<open>
  What a handler is given: the libraries, the configuration, the answer of the application
  store, the clocks, the buckets the cache has dropped, and whether the saturation flag is wired.
  \<open>hv_batch\<close> is the JSON library's reading of a batch body.
\<close>

record rest_env =
  hv_json :: serde_json
  hv_batch :: "byte list \<Rightarrow> batch_item list option"
  hv_crypto :: crypto
  hv_unicode :: unicode
  hv_config :: rest_config
  hv_by_id :: "string \<Rightarrow> app_lookup_error + app_lookup"
  hv_now_unix :: nat
  hv_now_ns :: u64
  hv_dropped :: "string set"
  hv_saturation :: bool

record 's rest =
  rs_limits :: rest_rate_limits
  rs_node :: "'s node"
  rs_publish_failed :: "nat option"

text \<open>The framework's rejection of the query or of the body is a status with a text.\<close>

record rest_request =
  hr_app_id :: string
  hr_path :: string
  hr_query :: "(nat \<times> string) + (string \<times> string) list"
  hr_body :: "(nat \<times> string) + byte list"

definition from_rejection :: "(nat \<times> string) + 'a \<Rightarrow> rest_error + 'a" where
  "from_rejection r = (case r of Inl (status, message) \<Rightarrow> Inl (rest_error_of status message) | Inr x \<Rightarrow> Inr x)"

definition rest_saturated :: "rest_env \<Rightarrow> 's rest \<Rightarrow> bool" where
  "rest_saturated v s \<longleftrightarrow> hv_saturation v \<and> is_saturated (nd_fan (rs_node s))"


section \<open>Authentication\<close>

definition authenticate ::
  "rest_env \<Rightarrow> string \<Rightarrow> string \<Rightarrow> string \<Rightarrow> (string \<times> string) list \<Rightarrow> byte list \<Rightarrow> rest_error + app" where
  "authenticate v aid meth path params body =
     (case hv_by_id v aid of
        Inr (Found app) \<Rightarrow>
          (case rest_verify (hv_crypto v) (hv_unicode v) (app_key app) (app_secret app) meth path params body
                  (hv_now_unix v) (rc_rest_auth_window_secs (hv_config v)) of
             Inl err \<Rightarrow> Inl (unauthorized (rest_error_message (rc_rest_auth_window_secs (hv_config v)) err))
           | Inr _ \<Rightarrow> Inr app)
      | Inr Disabled \<Rightarrow> Inl (forbidden ''app is disabled'')
      | Inr NotFound \<Rightarrow> Inl (unauthorized GENERIC_AUTH_FAILURE)
      | Inl _ \<Rightarrow> Inl (service_unavailable ''app store temporarily unavailable''))"


text \<open>
  What the handlers begin with. Those that take a body unwrap the framework's rejections and
  authenticate; the reads have no body and pass the read limit.
\<close>

definition post_access :: "rest_env \<Rightarrow> rest_request \<Rightarrow> rest_error + byte list \<times> (string \<times> string) list \<times> app" where
  "post_access v r =
     (case from_rejection (hr_body r) of Inl err \<Rightarrow> Inl err | Inr body \<Rightarrow>
     (case from_rejection (hr_query r) of Inl err \<Rightarrow> Inl err | Inr params \<Rightarrow>
     (case authenticate v (hr_app_id r) ''POST'' (hr_path r) params body of
        Inl err \<Rightarrow> Inl err
      | Inr app \<Rightarrow> Inr (body, params, app))))"

definition read_access ::
  "rest_env \<Rightarrow> rest_request \<Rightarrow> 's rest \<Rightarrow> (rest_error + (string \<times> string) list \<times> app) \<times> 's rest" where
  "read_access v r s =
     (case from_rejection (hr_query r) of Inl err \<Rightarrow> (Inl err, s) | Inr params \<Rightarrow>
     (case authenticate v (hr_app_id r) ''GET'' (hr_path r) params [] of Inl err \<Rightarrow> (Inl err, s) | Inr app \<Rightarrow>
     (case check_app_reads (hv_dropped v) (hv_now_ns v) app (rs_limits s) of
        (Limited rate, l) \<Rightarrow> (Inl (too_many_requests ''Rate limit exceeded'' rate), s\<lparr>rs_limits := l\<rparr>)
      | (Allowed, l) \<Rightarrow> (Inr (params, app), s\<lparr>rs_limits := l\<rparr>))))"


section \<open>Publishing\<close>

definition wants :: "string option \<Rightarrow> string \<Rightarrow> bool" where
  "wants info attr = (case info of None \<Rightarrow> False | Some s \<Rightarrow> list_ex (\<lambda>a. trim_str a = attr) (split_on (CHR '','') s))"

definition valid_socket_id :: "string \<Rightarrow> bool" where
  "valid_socket_id s =
     (if s = [] \<or> CAPACITY < length s then False
      else case split_once (CHR ''.'') s of
             Some (a, b) \<Rightarrow> a \<noteq> [] \<and> b \<noteq> [] \<and> list_all is_ascii_digit a \<and> list_all is_ascii_digit b
           | None \<Rightarrow> False)"

text \<open>The fields of a body as the derived deserialiser reads them: \<open>null\<close> is an absent option.\<close>

definition opt_field :: "(json \<Rightarrow> 'a option) \<Rightarrow> json option \<Rightarrow> 'a option option" where
  "opt_field f v = (case v of None \<Rightarrow> Some None | Some Null \<Rightarrow> Some None | Some j \<Rightarrow> map_option Some (f j))"

fun as_string_list :: "json \<Rightarrow> string list option" where
  "as_string_list (Array vs) = those (map as_str vs)"
| "as_string_list _ = None"

definition trigger_of_value :: "json \<Rightarrow> trigger_body option" where
  "trigger_of_value doc =
     (case (Option.bind (json_get ''name'' doc) as_str, Option.bind (json_get ''data'' doc) as_str,
            opt_field as_string_list (json_get ''channels'' doc), opt_field as_str (json_get ''channel'' doc),
            opt_field as_str (json_get ''socket_id'' doc), opt_field as_str (json_get ''info'' doc)) of
        (Some name, Some data, Some channels, Some channel, Some sid, Some info) \<Rightarrow>
          Some \<lparr>tr_name = name, tr_data = data, tr_channels = channels, tr_channel = channel, tr_socket_id = sid,
                tr_info = info\<rparr>
      | _ \<Rightarrow> None)"

definition fill_field :: "(string \<Rightarrow> json) \<Rightarrow> (string \<times> string) list \<Rightarrow> string \<Rightarrow> (string \<times> json) list \<Rightarrow> (string \<times> json) list" where
  "fill_field wrap params key obj =
     (if map_of obj key \<noteq> None then obj
      else case map_of params key of Some v \<Rightarrow> bt_insert key (wrap v) obj | None \<Rightarrow> obj)"

definition merged_trigger_body :: "serde_json \<Rightarrow> byte list \<Rightarrow> (string \<times> string) list \<Rightarrow> rest_error + trigger_body" where
  "merged_trigger_body sj body params =
     (let bad = Inl (bad_request ''invalid request body'')
      in case (if body = [] then Some (Object []) else Option.bind (from_utf8 body) (from_str sj)) of
           Some (Object obj) \<Rightarrow>
             (let obj1 = fold (fill_field String params) [''name'', ''data'', ''channel'', ''socket_id'', ''info''] obj;
                  obj2 = fill_field (\<lambda>c. Array [String c]) params ''channels'' obj1
              in case trigger_of_value (Object obj2) of Some t \<Rightarrow> Inr t | None \<Rightarrow> bad)
         | _ \<Rightarrow> bad)"

definition channel_event :: "string \<Rightarrow> string \<Rightarrow> string \<Rightarrow> server_event" where
  "channel_event channel name data = ChannelEvent channel name (String data) None"

definition rest_deliver ::
  "rest_env \<Rightarrow> 's adapter \<Rightarrow> string \<Rightarrow> string \<Rightarrow> string \<Rightarrow> string \<Rightarrow> string option \<Rightarrow> 's rest
     \<Rightarrow> (rest_error + unit) \<times> 's rest" where
  "rest_deliver v ad aid channel name data sid s =
     (let event = channel_event channel name data
      in case strip_prefix SERVER_TO_USER_PREFIX channel of
           Some user \<Rightarrow>
             if user = [] then (Inr (), s)
             else (Inr (), s\<lparr>rs_node := ad_send_to_user ad aid user event (rs_node s)\<rparr>)
         | None \<Rightarrow>
             (let n1 = (if ci_cache (channel_info_of channel)
                        then ad_cache_set ad aid channel \<lparr>ce_event = name, ce_data = data\<rparr>
                               (rc_cache_ttl_secs (hv_config v) * 1000000000) (rs_node s)
                        else rs_node s);
                  (r, n2) = ad_broadcast ad aid channel event (map_option from_raw sid) n1;
                  s1 = s\<lparr>rs_node := n2\<rparr>
              in case r of
                   Inr _ \<Rightarrow> (Inr (), s1)
                 | Inl _ \<Rightarrow> (Inl (service_unavailable ''cluster publish failed''),
                            s1\<lparr>rs_publish_failed := map_option Suc (rs_publish_failed s1)\<rparr>)))"

fun deliver_each ::
  "rest_env \<Rightarrow> 's adapter \<Rightarrow> string \<Rightarrow> (string \<times> string \<times> string \<times> string option) list \<Rightarrow> 's rest
     \<Rightarrow> (rest_error + unit) \<times> 's rest" where
  "deliver_each v ad aid [] s = (Inr (), s)"
| "deliver_each v ad aid ((channel, name, data, sid) # items) s =
     (case rest_deliver v ad aid channel name data sid s of
        (Inl err, s1) \<Rightarrow> (Inl err, s1)
      | (Inr _, s1) \<Rightarrow> deliver_each v ad aid items s1)"

definition channel_attrs ::
  "'s adapter \<Rightarrow> string \<Rightarrow> string \<Rightarrow> string option \<Rightarrow> bool \<Rightarrow> 's node \<Rightarrow> (string \<times> json) list \<times> 's node" where
  "channel_attrs ad aid channel info subscription_count_on n =
     (let want_sub = wants info ''subscription_count'' \<and> subscription_count_on;
          want_uc = wants info ''user_count''
      in if want_sub \<or> want_uc
         then (let (c, n1) = ad_channel ad aid channel n;
                   a1 = (if want_sub then [(''subscription_count'', json_nat (sum_subscription_count c))] else []);
                   a2 = (case sum_user_count c of
                           Some uc \<Rightarrow> if want_uc then bt_insert ''user_count'' (json_nat uc) a1 else a1
                         | None \<Rightarrow> a1)
               in (a2, n1))
         else ([], n))"

text \<open>The attributes of several channels in turn, paired with the channel.\<close>

fun attrs_each ::
  "'s adapter \<Rightarrow> string \<Rightarrow> bool \<Rightarrow> (string \<times> string option) list \<Rightarrow> 's node \<Rightarrow> (string \<times> json) list \<times> 's node" where
  "attrs_each ad aid flag [] n = ([], n)"
| "attrs_each ad aid flag ((channel, info) # items) n =
     (let (attrs, n1) = channel_attrs ad aid channel info flag n;
          (rest, n2) = attrs_each ad aid flag items n1
      in ((channel, Object attrs) # rest, n2))"

definition publishable :: "rest_config \<Rightarrow> string \<Rightarrow> bool" where
  "publishable cfg channel \<longleftrightarrow>
     starts_with SERVER_TO_USER_PREFIX channel \<or> validate_channel_name channel (rc_max_channel_name_length cfg)"

text \<open>The checks of a trigger, in the order of the source; the channels it names.\<close>

definition check_trigger :: "rest_config \<Rightarrow> trigger_body \<Rightarrow> rest_error + string list" where
  "check_trigger cfg t =
     (if rc_max_event_payload_bytes cfg < length (tr_data t) then Inl (payload_too_large ''Event message over 10k'')
      else if rc_max_event_name_length cfg < length (tr_name t) then Inl (bad_request ''Event name too long'')
      else if (case tr_socket_id t of Some sid \<Rightarrow> \<not> valid_socket_id sid | None \<Rightarrow> False)
      then Inl (bad_request ''Invalid socket id'')
      else
        (case (tr_channels t, tr_channel t) of
           (None, None) \<Rightarrow> Inl (bad_request ''must provide channel or channels'')
         | (cs, c) \<Rightarrow>
           (let channels = (case cs of Some l \<Rightarrow> l | None \<Rightarrow> [the c])
            in if channels = [] \<or> rc_max_channels_per_publish cfg < length channels
               then Inl (bad_request ''invalid channel count'')
               else if \<not> list_all (publishable cfg) channels then Inl (bad_request ''Invalid channel name'')
               else if 1 \<le> length (filter (\<lambda>c. ci_auth (channel_info_of c) = PrivateEncrypted) channels) \<and> 1 < length channels
               then Inl (bad_request ''Cannot trigger to multiple channels when using encrypted channels'')
               else Inr channels)))"

definition post_events ::
  "rest_env \<Rightarrow> 's adapter \<Rightarrow> rest_request \<Rightarrow> 's rest \<Rightarrow> (rest_error + json) \<times> 's rest" where
  "post_events v ad r s =
     (case post_access v r of Inl err \<Rightarrow> (Inl err, s) | Inr (body, params, app) \<Rightarrow>
      if rest_saturated v s then (Inl (service_unavailable ''Server overloaded''), s)
      else
     (case check_app_events (hv_dropped v) (hv_now_ns v) app 1 (rs_limits s) of
        (Limited rate, l) \<Rightarrow> (Inl (too_many_requests ''Rate limit exceeded'' rate), s\<lparr>rs_limits := l\<rparr>)
      | (Allowed, l) \<Rightarrow>
        (let s1 = s\<lparr>rs_limits := l\<rparr>
         in case merged_trigger_body (hv_json v) body params of Inl err \<Rightarrow> (Inl err, s1) | Inr t \<Rightarrow>
           (case check_trigger (hv_config v) t of Inl err \<Rightarrow> (Inl err, s1) | Inr channels \<Rightarrow>
             (case deliver_each v ad (app_id app)
                     (map (\<lambda>c. (c, tr_name t, tr_data t, tr_socket_id t)) channels) s1 of
                (Inl err, s2) \<Rightarrow> (Inl err, s2)
              | (Inr _, s2) \<Rightarrow>
                if tr_info t = None then (Inr (Object []), s2)
                else (let (chans, n) = attrs_each ad (app_id app) (subscription_count_enabled app)
                              (map (\<lambda>c. (c, tr_info t)) channels) (rs_node s2)
                      in (Inr (Object [(''channels'', Object (fold (\<lambda>(c, a). bt_insert c a) chans []))]),
                          s2\<lparr>rs_node := n\<rparr>)))))))"

text \<open>A batch is checked as a whole before any of it is delivered.\<close>

definition check_batch :: "rest_config \<Rightarrow> batch_item list \<Rightarrow> rest_error + unit" where
  "check_batch cfg items =
     (if list_ex (\<lambda>i. rc_max_event_payload_bytes cfg < length (bi_data i)) items
      then Inl (payload_too_large ''Event message over 10k'')
      else if list_ex (\<lambda>i. rc_max_event_name_length cfg < length (bi_name i)) items
      then Inl (bad_request ''Event name too long'')
      else if \<not> list_all (\<lambda>i. publishable cfg (bi_channel i)) items then Inl (bad_request ''Invalid channel name'')
      else if list_ex (\<lambda>i. case bi_socket_id i of Some sid \<Rightarrow> \<not> valid_socket_id sid | None \<Rightarrow> False) items
      then Inl (bad_request ''Invalid socket id'')
      else Inr ())"

definition post_batch ::
  "rest_env \<Rightarrow> 's adapter \<Rightarrow> rest_request \<Rightarrow> 's rest \<Rightarrow> (rest_error + json) \<times> 's rest" where
  "post_batch v ad r s =
     (case post_access v r of Inl err \<Rightarrow> (Inl err, s) | Inr (body, params, app) \<Rightarrow>
      if rest_saturated v s then (Inl (service_unavailable ''Server overloaded''), s)
      else
     (case hv_batch v body of None \<Rightarrow> (Inl (bad_request ''invalid request body''), s) | Some items \<Rightarrow>
      if items = [] \<or> rc_max_batch_events (hv_config v) < length items then (Inl (bad_request ''invalid batch size''), s)
      else
     (case check_app_events (hv_dropped v) (hv_now_ns v) app (length items mod 2 ^ 32) (rs_limits s) of
        (Limited rate, l) \<Rightarrow> (Inl (too_many_requests ''Rate limit exceeded'' rate), s\<lparr>rs_limits := l\<rparr>)
      | (Allowed, l) \<Rightarrow>
        (let s1 = s\<lparr>rs_limits := l\<rparr>
         in case check_batch (hv_config v) items of Inl err \<Rightarrow> (Inl err, s1) | Inr _ \<Rightarrow>
             (case deliver_each v ad (app_id app)
                     (map (\<lambda>i. (bi_channel i, bi_name i, bi_data i, bi_socket_id i)) items) s1 of
                (Inl err, s2) \<Rightarrow> (Inl err, s2)
              | (Inr _, s2) \<Rightarrow>
                if list_all (\<lambda>i. bi_info i = None) items then (Inr (Object []), s2)
                else (let (attrs, n) = attrs_each ad (app_id app) (subscription_count_enabled app)
                              (map (\<lambda>i. (bi_channel i, bi_info i)) items) (rs_node s2)
                      in (Inr (Object [(''batch'', Array (map snd attrs))]), s2\<lparr>rs_node := n\<rparr>)))))))"


section \<open>Reading\<close>

definition want_param :: "(string \<times> string) list \<Rightarrow> string \<Rightarrow> bool" where
  "want_param params attr = wants (map_of params ''info'') attr"

definition summary_attrs :: "bool \<Rightarrow> bool \<Rightarrow> channel_summary \<Rightarrow> (string \<times> json) list" where
  "summary_attrs want_uc want_sub c =
     (let a1 = (case sum_user_count c of
                  Some uc \<Rightarrow> if want_uc then [(''user_count'', json_nat uc)] else []
                | None \<Rightarrow> [])
      in if want_sub then bt_insert ''subscription_count'' (json_nat (sum_subscription_count c)) a1 else a1)"

definition get_channels ::
  "rest_env \<Rightarrow> 's adapter \<Rightarrow> rest_request \<Rightarrow> 's rest \<Rightarrow> (rest_error + json) \<times> 's rest" where
  "get_channels v ad r s =
     (case read_access v r s of
        (Inl err, s1) \<Rightarrow> (Inl err, s1)
      | (Inr (params, app), s1) \<Rightarrow>
        (let prefix = map_of params ''filter_by_prefix''
         in if want_param params ''user_count'' \<and> \<not> (case prefix of Some p \<Rightarrow> starts_with ''presence-'' p | None \<Rightarrow> False)
            then (Inl (bad_request ''user_count is only allowed when filtering by presence channels''), s1)
            else if want_param params ''cache''
            then (Inl (bad_request ''cache is not available when listing channels''), s1)
            else (let (summaries, n) = ad_channels ad (app_id app) prefix (rs_node s1);
                      chans = fold (\<lambda>c. bt_insert (sum_name c)
                                (Object (summary_attrs (want_param params ''user_count'')
                                   (want_param params ''subscription_count'' \<and> subscription_count_enabled app) c)))
                              summaries []
                  in (Inr (Object [(''channels'', Object chans)]), s1\<lparr>rs_node := n\<rparr>))))"

definition get_channel ::
  "rest_env \<Rightarrow> 's adapter \<Rightarrow> string \<Rightarrow> rest_request \<Rightarrow> 's rest \<Rightarrow> (rest_error + json) \<times> 's rest" where
  "get_channel v ad channel r s =
     (case read_access v r s of
        (Inl err, s1) \<Rightarrow> (Inl err, s1)
      | (Inr (params, app), s1) \<Rightarrow>
        (let info = channel_info_of channel
         in if want_param params ''user_count'' \<and> ci_auth info \<noteq> Presence
            then (Inl (bad_request ''user_count is only available for presence channels''), s1)
            else if want_param params ''subscription_count'' \<and> ci_auth info = Presence
            then (Inl (bad_request ''subscription_count is not available for presence channels''), s1)
            else if want_param params ''cache'' \<and> \<not> ci_cache info
            then (Inl (bad_request ''cache is only available for cache channels''), s1)
            else (let (c, n1) = ad_channel ad (app_id app) channel (rs_node s1);
                      o1 = [(''occupied'', Bool (sum_occupied c))];
                      o2 = (if want_param params ''subscription_count'' \<and> subscription_count_enabled app
                            then bt_insert ''subscription_count'' (json_nat (sum_subscription_count c)) o1 else o1);
                      o3 = (case sum_user_count c of
                              Some uc \<Rightarrow> if want_param params ''user_count'' then bt_insert ''user_count'' (json_nat uc) o2 else o2
                            | None \<Rightarrow> o2);
                      (o4, n2) =
                        (if want_param params ''cache''
                         then (let (cached, n2) = ad_cache_get ad (app_id app) channel n1
                               in (bt_insert ''cache''
                                     (case cached of
                                        Some e \<Rightarrow> Object [(''data'', String (ce_data e)),
                                                          (''ttl'', json_nat (rc_cache_ttl_secs (hv_config v)))]
                                      | None \<Rightarrow> Null) o3, n2))
                         else (o3, n1))
                  in (Inr (Object o4), s1\<lparr>rs_node := n2\<rparr>))))"

definition get_users ::
  "rest_env \<Rightarrow> 's adapter \<Rightarrow> string \<Rightarrow> rest_request \<Rightarrow> 's rest \<Rightarrow> (rest_error + json) \<times> 's rest" where
  "get_users v ad channel r s =
     (case read_access v r s of
        (Inl err, s1) \<Rightarrow> (Inl err, s1)
      | (Inr (params, app), s1) \<Rightarrow>
        if ci_auth (channel_info_of channel) \<noteq> Presence
        then (Inl (bad_request ''Only presence channels allow this functionality''), s1)
        else (let (members, n) = ad_presence_members ad (app_id app) channel (rs_node s1)
              in (Inr (Object [(''users'', Array (map (\<lambda>m. Object [(''id'', String (pm_user_id m))]) members))]),
                  s1\<lparr>rs_node := n\<rparr>)))"


section \<open>Administration and probes\<close>

definition terminate_user_connections ::
  "rest_env \<Rightarrow> 's adapter \<Rightarrow> string \<Rightarrow> rest_request \<Rightarrow> 's rest \<Rightarrow> (rest_error + json) \<times> 's rest" where
  "terminate_user_connections v ad user r s =
     (case post_access v r of Inl err \<Rightarrow> (Inl err, s) | Inr (body, params, app) \<Rightarrow>
       (Inr (Object []), s\<lparr>rs_node := snd (ad_terminate_user ad (app_id app) user (rs_node s))\<rparr>))"

definition check_token :: "crypto \<Rightarrow> string \<Rightarrow> string \<Rightarrow> bool" where
  "check_token cr expected presented \<longleftrightarrow> length presented = length expected \<and> constant_time_eq cr presented expected"

text \<open>
  \<open>reads\<close> parses the body, or explains why it cannot; \<open>publish\<close> is the invalidation channel, if
  there is one, and its failure. \<open>auth\<close> is the Authorization header when it is text.
\<close>

definition post_invalidate ::
  "rest_env \<Rightarrow> (byte list \<Rightarrow> string + 'a) \<Rightarrow> (string \<Rightarrow> 'a \<Rightarrow> string option) option \<Rightarrow> string option \<Rightarrow> rest_request \<Rightarrow> rest_error + nat" where
  "post_invalidate v reads publish auth r =
     (case rc_app_admin_token (hv_config v) of
        None \<Rightarrow> Inl (not_found ''admin api disabled'')
      | Some expected \<Rightarrow>
        (case from_rejection (hr_body r) of Inl err \<Rightarrow> Inl err | Inr body \<Rightarrow>
          (let presented = (case Option.bind auth (strip_prefix ''Bearer '') of Some t \<Rightarrow> t | None \<Rightarrow> [])
           in if \<not> check_token (hv_crypto v) expected presented then Inl (unauthorized ''invalid admin token'')
              else case reads body of
                     Inl e \<Rightarrow> Inl (bad_request (''invalid body: '' @ e))
                   | Inr parsed \<Rightarrow>
                     (case publish of
                        None \<Rightarrow> Inl (service_unavailable ''invalidation requires PYLON_APP_CACHE_REDIS_URL'')
                      | Some p \<Rightarrow>
                        (case p (hr_app_id r) parsed of
                           Some e \<Rightarrow> Inl (service_unavailable (''invalidate publish failed: '' @ e))
                         | None \<Rightarrow> Inr 202)))))"

definition readiness :: "bool \<Rightarrow> bool \<Rightarrow> bool" where
  "readiness workers_up draining \<longleftrightarrow> workers_up \<and> \<not> draining"

definition get_health :: "nat \<times> string" where
  "get_health = (200, ''ok'')"

definition get_ready :: "bool \<Rightarrow> bool \<Rightarrow> nat \<times> string" where
  "get_ready workers_up draining =
     (if readiness workers_up draining then (200, ''ready'')
      else if draining then (503, ''draining'') else (503, ''starting''))"

text \<open>The middleware in front of the application endpoints.\<close>

definition node_rate_limit ::
  "u64 \<Rightarrow> ('s rest \<Rightarrow> (rest_error + json) \<times> 's rest) \<Rightarrow> 's rest \<Rightarrow> (rest_error + json) \<times> 's rest" where
  "node_rate_limit now_ns handler s =
     (case check_node now_ns (rs_limits s) of
        (Limited rate, l) \<Rightarrow> (Inl (too_many_requests ''Rate limit exceeded'' rate), s\<lparr>rs_limits := l\<rparr>)
      | (Allowed, l) \<Rightarrow> handler (s\<lparr>rs_limits := l\<rparr>))"

definition body_limit :: "rest_config \<Rightarrow> nat" where
  "body_limit cfg = min (2 ^ 64 - 1) (min (2 ^ 64 - 1) (rc_max_batch_events cfg * rc_max_event_payload_bytes cfg) + 64 * 1024)"

text \<open>
  The endpoint the router has matched for a method and a path, with the path's parameters; an
  unmatched path and an unsupported method have answers of their own.
\<close>

datatype endpoint =
    PostEvents
  | PostBatch
  | GetChannels
  | GetChannel string
  | GetUsers string
  | TerminateUser string

fun rest_handler ::
  "rest_env \<Rightarrow> 's adapter \<Rightarrow> endpoint \<Rightarrow> rest_request \<Rightarrow> 's rest \<Rightarrow> (rest_error + json) \<times> 's rest" where
  "rest_handler v ad PostEvents = post_events v ad"
| "rest_handler v ad PostBatch = post_batch v ad"
| "rest_handler v ad GetChannels = get_channels v ad"
| "rest_handler v ad (GetChannel c) = get_channel v ad c"
| "rest_handler v ad (GetUsers c) = get_users v ad c"
| "rest_handler v ad (TerminateUser u) = terminate_user_connections v ad u"

definition rest_api ::
  "rest_env \<Rightarrow> 's adapter \<Rightarrow> endpoint \<Rightarrow> rest_request \<Rightarrow> 's rest \<Rightarrow> (rest_error + json) \<times> 's rest" where
  "rest_api v ad ep r s = node_rate_limit (hv_now_ns v) (rest_handler v ad ep r) s"

definition not_found_fallback :: rest_error where
  "not_found_fallback = not_found ''Not found''"

definition method_not_allowed_fallback :: rest_error where
  "method_not_allowed_fallback = method_not_allowed ''Method not allowed''"


section \<open>Rejected requests\<close>

text \<open>The limiter and the authentication do not touch the node.\<close>

lemma read_access_node: "read_access v r s = (x, s') \<Longrightarrow> rs_node s' = rs_node s"
  by (auto simp: read_access_def split: sum.splits prod.splits rate_decision.splits)

text \<open>What the API asks of an adapter: a broadcast does not fail.\<close>

locale reliable_adapter =
  fixes ad :: "'s adapter"
  assumes broadcast_total: "fst (ad_broadcast ad aid channel event except n) = Inr ()"
begin

lemma deliver_total: "\<exists>s'. rest_deliver v ad aid channel name data sid s = (Inr (), s')"
proof (cases "strip_prefix SERVER_TO_USER_PREFIX channel")
  case None
  let ?n = "if ci_cache (channel_info_of channel)
            then ad_cache_set ad aid channel \<lparr>ce_event = name, ce_data = data\<rparr>
                   (rc_cache_ttl_secs (hv_config v) * 1000000000) (rs_node s)
            else rs_node s"
  obtain n2 where "ad_broadcast ad aid channel (channel_event channel name data) (map_option from_raw sid) ?n = (Inr (), n2)"
    by (metis broadcast_total prod.collapse)
  with None show ?thesis by (simp add: rest_deliver_def Let_def)
qed (simp add: rest_deliver_def Let_def)

lemma deliver_each_total: "\<exists>s'. deliver_each v ad aid items s = (Inr (), s')"
proof (induction items arbitrary: s)
  case (Cons item items)
  obtain channel name data sid where item: "item = (channel, name, data, sid)" by (metis prod_cases4)
  obtain s1 where "rest_deliver v ad aid channel name data sid s = (Inr (), s1)" using deliver_total by blast
  with Cons show ?case by (simp add: item)
qed simp

lemma deliver_each_ok [simp]: "deliver_each v ad aid items s \<noteq> (Inl err, s')"
  using deliver_each_total [of v aid items s] by auto

text \<open>An error leaves the node as it was: every check precedes the first delivery.\<close>

lemma post_events_error: "post_events v ad r s = (Inl err, s') \<Longrightarrow> rs_node s' = rs_node s"
  by (auto simp: post_events_def Let_def split: sum.splits prod.splits rate_decision.splits if_splits)

lemma post_batch_error: "post_batch v ad r s = (Inl err, s') \<Longrightarrow> rs_node s' = rs_node s"
  by (auto simp: post_batch_def Let_def split: sum.splits prod.splits rate_decision.splits if_splits option.splits)

lemma reads_error:
  "get_channels v ad r s = (Inl err, s') \<Longrightarrow> rs_node s' = rs_node s"
  "get_channel v ad c r s = (Inl err, s') \<Longrightarrow> rs_node s' = rs_node s"
  "get_users v ad c r s = (Inl err, s') \<Longrightarrow> rs_node s' = rs_node s"
  "terminate_user_connections v ad u r s = (Inl err, s') \<Longrightarrow> rs_node s' = rs_node s"
  by (auto simp: get_channels_def get_channel_def get_users_def terminate_user_connections_def Let_def
      split: sum.splits prod.splits if_splits dest: read_access_node)

lemma handler_error: "rest_handler v ad ep r s = (Inl err, s') \<Longrightarrow> rs_node s' = rs_node s"
  by (cases ep) (auto dest: post_events_error post_batch_error reads_error)

lemma api_error: "rest_api v ad ep r s = (Inl err, s') \<Longrightarrow> rs_node s' = rs_node s"
  by (auto simp: rest_api_def node_rate_limit_def split: prod.splits rate_decision.splits dest!: handler_error)

end

interpretation local_reliable: reliable_adapter "local_impl sj mk" for sj mk
  by unfold_locales (simp add: local_impl_def la_broadcast_def Let_def case_prod_unfold split: option.split)

text \<open>
  C13. A rejected request has no effect. Whatever the endpoint, when the API of a single node
  answers with an error, the node is as it was: no event has been delivered or cached, not even
  for a part of a batch, and no connection has been terminated.
\<close>

theorem rejected_request_has_no_effect:
  assumes "rest_api v (local_impl sj mk) ep r s = (Inl err, s')"
  shows "rs_node s' = rs_node s"
  using assms by (rule local_reliable.api_error)


section \<open>Signed requests\<close>

fun endpoint_posts :: "endpoint \<Rightarrow> bool" where
  "endpoint_posts PostEvents = True"
| "endpoint_posts PostBatch = True"
| "endpoint_posts (TerminateUser _) = True"
| "endpoint_posts _ = False"

lemma authenticate_ok:
  "authenticate v aid meth path params body = Inr app \<longleftrightarrow> hv_by_id v aid = Inr (Found app) \<and>
     rest_verify (hv_crypto v) (hv_unicode v) (app_key app) (app_secret app) meth path params body
       (hv_now_unix v) (rc_rest_auth_window_secs (hv_config v)) = Inr ()"
  by (auto simp: authenticate_def split: sum.splits app_lookup.splits)

lemma post_access_ok:
  "post_access v r = Inr (body, params, app) \<longleftrightarrow> hr_body r = Inr body \<and> hr_query r = Inr params \<and>
     authenticate v (hr_app_id r) ''POST'' (hr_path r) params body = Inr app"
  by (auto simp: post_access_def from_rejection_def split: sum.splits prod.splits)

lemma read_access_ok:
  "read_access v r s = (Inr (params, app), s') \<Longrightarrow> hr_query r = Inr params \<and>
     authenticate v (hr_app_id r) ''GET'' (hr_path r) params [] = Inr app"
  by (auto simp: read_access_def from_rejection_def split: sum.splits prod.splits rate_decision.splits)

lemma handler_post_access:
  assumes "rest_handler v ad ep r s = (res, s')" and "endpoint_posts ep" and "rs_node s' \<noteq> rs_node s"
  shows "\<exists>body params app. post_access v r = Inr (body, params, app)"
proof (cases "post_access v r")
  case (Inl err)
  with assms show ?thesis by (cases ep) (auto simp: post_events_def post_batch_def terminate_user_connections_def)
next
  case (Inr x)
  then show ?thesis by (cases x) auto
qed

lemma handler_read_access:
  assumes "rest_handler v ad ep r s = (res, s')" and "\<not> endpoint_posts ep" and "rs_node s' \<noteq> rs_node s"
  shows "\<exists>params app s1. read_access v r s = (Inr (params, app), s1)"
proof -
  obtain x s1 where a: "read_access v r s = (x, s1)" by fastforce
  show ?thesis
  proof (cases x)
    case (Inl err)
    with assms a read_access_node [OF a] show ?thesis
      by (cases ep) (auto simp: get_channels_def get_channel_def get_users_def)
  next
    case (Inr y)
    with a show ?thesis by (cases y) auto
  qed
qed

text \<open>
  C12. Only a signed request has an effect. When a request changes the node, the application it
  names exists and is enabled, and the request carries that application's key, a timestamp within
  the window, the digest of its body if it has one, and the keyed digest, under the
  application's secret, of this method, this path and all its other parameters.
\<close>

theorem effects_need_signature:
  assumes "rest_api v ad ep r s = (res, s')" and "rs_node s' \<noteq> rs_node s" and "ct_eq_compares (hv_crypto v)"
    and "\<forall>params. hr_query r = Inr params \<longrightarrow> distinct (map fst params)"
  shows "\<exists>app params body ts sgn. hv_by_id v (hr_app_id r) = Inr (Found app) \<and> hr_query r = Inr params \<and>
      (if endpoint_posts ep then hr_body r = Inr body else body = []) \<and>
      map_of params ''auth_version'' = Some ''1.0'' \<and>
      (map_of params ''auth_key'' = Some (app_key app) \<or> app_key app = [] \<and> map_of params ''auth_key'' = None) \<and>
      Option.bind (map_of params ''auth_timestamp'') parse_u64 = Some ts \<and>
      abs_diff (hv_now_unix v) ts \<le> rc_rest_auth_window_secs (hv_config v) \<and>
      (body \<noteq> [] \<longrightarrow> map_of params ''body_md5'' = Some (md5_hex (hv_crypto v) body)) \<and>
      set sgn = {(str_to_lowercase (hv_unicode v) k, x) | k x. (k, x) \<in> set params \<and>
                   str_to_lowercase (hv_unicode v) k \<noteq> ''auth_signature''} \<and>
      map_of params ''auth_signature'' = Some (hmac_sha256_hex (hv_crypto v) (app_secret app)
        (signing_string (hv_unicode v) (if endpoint_posts ep then ''POST'' else ''GET'') (hr_path r) sgn))"
proof -
  obtain l where h: "rest_handler v ad ep r (s\<lparr>rs_limits := l\<rparr>) = (res, s')"
    using assms(1,2) by (auto simp: rest_api_def node_rate_limit_def split: prod.splits rate_decision.splits)
  have ch: "rs_node s' \<noteq> rs_node (s\<lparr>rs_limits := l\<rparr>)" using assms(2) by simp
  have "\<exists>params body app. hr_query r = Inr params \<and> (if endpoint_posts ep then hr_body r = Inr body else body = []) \<and>
      authenticate v (hr_app_id r) (if endpoint_posts ep then ''POST'' else ''GET'') (hr_path r) params body = Inr app"
  proof (cases "endpoint_posts ep")
    case True
    then show ?thesis using handler_post_access [OF h True ch] by (auto simp: post_access_ok)
  next
    case False
    then show ?thesis using handler_read_access [OF h False ch] read_access_ok by fastforce
  qed
  then obtain params body app where a: "hr_query r = Inr params" "if endpoint_posts ep then hr_body r = Inr body else body = []"
    "hv_by_id v (hr_app_id r) = Inr (Found app)"
    "rest_verify (hv_crypto v) (hv_unicode v) (app_key app) (app_secret app) (if endpoint_posts ep then ''POST'' else ''GET'')
       (hr_path r) params body (hv_now_unix v) (rc_rest_auth_window_secs (hv_config v)) = Inr ()"
    unfolding authenticate_ok by blast
  from conjunct2 [OF rest_verify_sound [OF assms(3) assms(4) [THEN spec, THEN mp, OF a(1)] refl], THEN mp, OF a(4)] a(1-3)
  show ?thesis by blast
qed


section \<open>Publishing\<close>

definition trigger_channels :: "trigger_body \<Rightarrow> string list" where
  "trigger_channels t =
     (case tr_channels t of Some l \<Rightarrow> l | None \<Rightarrow> (case tr_channel t of Some c \<Rightarrow> [c] | None \<Rightarrow> []))"

lemma solo_encrypted:
  "\<not> (1 \<le> length (filter P cs) \<and> 1 < length cs) \<longleftrightarrow> (\<forall>c \<in> set cs. P c \<longrightarrow> cs = [c])"
proof (cases "length cs \<le> 1")
  case True
  then show ?thesis by (cases cs) auto
next
  case False
  then have "cs \<noteq> [c]" for c by auto
  moreover have "1 \<le> length (filter P cs) \<longleftrightarrow> (\<exists>c \<in> set cs. P c)" by (induction cs) auto
  ultimately show ?thesis using False by auto
qed

lemma check_trigger_ok:
  "check_trigger cfg t = Inr cs \<longleftrightarrow> cs = trigger_channels t \<and> length (tr_data t) \<le> rc_max_event_payload_bytes cfg \<and>
     length (tr_name t) \<le> rc_max_event_name_length cfg \<and> (\<forall>sid. tr_socket_id t = Some sid \<longrightarrow> valid_socket_id sid) \<and>
     trigger_channels t \<noteq> [] \<and> length (trigger_channels t) \<le> rc_max_channels_per_publish cfg \<and>
     (\<forall>c \<in> set (trigger_channels t). publishable cfg c) \<and>
     (\<forall>c \<in> set (trigger_channels t). ci_auth (channel_info_of c) = PrivateEncrypted \<longrightarrow> trigger_channels t = [c])"
  unfolding solo_encrypted [symmetric]
  by (auto simp: check_trigger_def trigger_channels_def Let_def list_all_iff not_less split: option.splits if_splits)

text \<open>The node after one event has gone to one channel.\<close>

definition published ::
  "rest_env \<Rightarrow> 's adapter \<Rightarrow> string \<Rightarrow> trigger_body \<Rightarrow> string \<Rightarrow> 's node \<Rightarrow> 's node" where
  "published v ad aid t channel n =
     rs_node (snd (rest_deliver v ad aid channel (tr_name t) (tr_data t) (tr_socket_id t)
                     \<lparr>rs_limits = rest_rate_limits_new 0 0 0, rs_node = n, rs_publish_failed = None\<rparr>))"

lemma deliver_node:
  "rs_node (snd (rest_deliver v ad aid channel name data sid s)) =
   rs_node (snd (rest_deliver v ad aid channel name data sid \<lparr>rs_limits = l, rs_node = rs_node s, rs_publish_failed = f\<rparr>))"
  by (simp add: rest_deliver_def Let_def case_prod_unfold split: option.split sum.split)

lemma attrs_each_local: "snd (attrs_each (local_impl sj mk) aid flag items n) = n"
  by (induction items) (auto simp: channel_attrs_def local_impl_def la_channel_def Let_def split: prod.split)

lemma deliver_each_node:
  "rs_node (snd (deliver_each v (local_impl sj mk) aid (map (\<lambda>c. (c, tr_name t, tr_data t, tr_socket_id t)) cs) s)) =
   fold (published v (local_impl sj mk) aid t) cs (rs_node s)"
proof (induction cs arbitrary: s)
  case (Cons c cs)
  obtain s1 where d: "rest_deliver v (local_impl sj mk) aid c (tr_name t) (tr_data t) (tr_socket_id t) s = (Inr (), s1)"
    using local_reliable.deliver_total by blast
  have "published v (local_impl sj mk) aid t c (rs_node s) = rs_node s1"
    using d by (simp add: published_def deliver_node [of _ _ _ _ _ _ _ s, symmetric])
  with Cons d show ?case by simp
qed simp

lemma post_events_accepted:
  assumes "post_access v r = Inr (body, params, app)" and "\<not> rest_saturated v s"
    and "check_app_events (hv_dropped v) (hv_now_ns v) app 1 (rs_limits s) = (Allowed, l)"
    and "merged_trigger_body (hv_json v) body params = Inr t" and "check_trigger (hv_config v) t = Inr cs"
  shows "\<exists>j s'. post_events v (local_impl sj mk) r s = (Inr j, s') \<and>
    rs_node s' = fold (published v (local_impl sj mk) (app_id app) t) cs (rs_node s)"
proof -
  let ?items = "map (\<lambda>c. (c, tr_name t, tr_data t, tr_socket_id t)) cs"
  obtain s2 where d: "deliver_each v (local_impl sj mk) (app_id app) ?items (s\<lparr>rs_limits := l\<rparr>) = (Inr (), s2)"
    using local_reliable.deliver_each_total by blast
  have n: "rs_node s2 = fold (published v (local_impl sj mk) (app_id app) t) cs (rs_node s)"
    using deliver_each_node [of v sj mk "app_id app" t cs "s\<lparr>rs_limits := l\<rparr>"] d by simp
  have a: "snd (attrs_each (local_impl sj mk) (app_id app) flag items (rs_node s2)) = rs_node s2" for flag items
    by (rule attrs_each_local)
  show ?thesis
    using assms d n a by (auto simp: post_events_def Let_def case_prod_unfold)
qed

text \<open>
  C11. When a publish is accepted, and what it does. On a single node, the trigger endpoint accepts
  a request exactly when it is authenticated, the node is not saturated, the application's rate
  allows it, its body and query make a trigger, the event's name and data are within their limits,
  the excluded socket id is well formed, and it names between one and the maximum number of
  channels, all of them valid, an encrypted one only alone. The event then goes to each of
  these channels, in order, once.
\<close>

theorem publish_accepted_exactly:
  assumes post: "post_events v (local_impl sj mk) r s = (res, s')"
  shows "(\<exists>j. res = Inr j) \<longleftrightarrow>
    (\<exists>body params app t cs. hr_body r = Inr body \<and> hr_query r = Inr params \<and>
       authenticate v (hr_app_id r) ''POST'' (hr_path r) params body = Inr app \<and> \<not> rest_saturated v s \<and>
       fst (check_app_events (hv_dropped v) (hv_now_ns v) app 1 (rs_limits s)) = Allowed \<and>
       merged_trigger_body (hv_json v) body params = Inr t \<and> cs = trigger_channels t \<and>
       length (tr_data t) \<le> rc_max_event_payload_bytes (hv_config v) \<and>
       length (tr_name t) \<le> rc_max_event_name_length (hv_config v) \<and>
       (\<forall>sid. tr_socket_id t = Some sid \<longrightarrow> valid_socket_id sid) \<and>
       cs \<noteq> [] \<and> length cs \<le> rc_max_channels_per_publish (hv_config v) \<and> (\<forall>c \<in> set cs. publishable (hv_config v) c) \<and>
       (\<forall>c \<in> set cs. ci_auth (channel_info_of c) = PrivateEncrypted \<longrightarrow> cs = [c]) \<and>
       rs_node s' = fold (published v (local_impl sj mk) (app_id app) t) cs (rs_node s))"
    (is "?acc \<longleftrightarrow> ?cond")
proof
  assume ?cond
  then obtain body params app t cs where c: "hr_body r = Inr body" "hr_query r = Inr params"
    "authenticate v (hr_app_id r) ''POST'' (hr_path r) params body = Inr app" "\<not> rest_saturated v s"
    "fst (check_app_events (hv_dropped v) (hv_now_ns v) app 1 (rs_limits s)) = Allowed"
    "merged_trigger_body (hv_json v) body params = Inr t" "check_trigger (hv_config v) t = Inr cs"
    unfolding check_trigger_ok by blast
  have "post_access v r = Inr (body, params, app)" using c(1-3) by (simp add: post_access_ok)
  moreover obtain l where "check_app_events (hv_dropped v) (hv_now_ns v) app 1 (rs_limits s) = (Allowed, l)"
    using c(5) by (metis prod.collapse)
  ultimately show ?acc using post_events_accepted [of v r body params app s l t cs sj mk] c(4,6,7) post by auto
next
  assume ?acc
  with post obtain body params app l t cs where c: "post_access v r = Inr (body, params, app)" "\<not> rest_saturated v s"
    "check_app_events (hv_dropped v) (hv_now_ns v) app 1 (rs_limits s) = (Allowed, l)"
    "merged_trigger_body (hv_json v) body params = Inr t" "check_trigger (hv_config v) t = Inr cs"
    by (auto simp: post_events_def Let_def split: sum.splits prod.splits rate_decision.splits if_splits)
  from post_events_accepted [OF c, of sj mk] post
  have "rs_node s' = fold (published v (local_impl sj mk) (app_id app) t) cs (rs_node s)" by auto
  with c show ?cond unfolding post_access_ok check_trigger_ok by auto
qed


section \<open>Excluding the sender\<close>

lemma show_nat_not_empty: "show_nat n \<noteq> []"
  by (simp add: show_nat.simps [of n])

lemma valid_socket_id_utf8:
  assumes "valid_socket_id s"
  shows "length s \<le> CAPACITY" and "utf8_valid (as_bytes s)"
proof -
  from assms show "length s \<le> CAPACITY" by (simp add: valid_socket_id_def split: if_splits)
  from assms obtain a b where s: "s = a @ CHR ''.'' # b" and d: "list_all is_ascii_digit a" "list_all is_ascii_digit b"
    by (auto simp: valid_socket_id_def split_once_Some_iff split: if_splits option.splits)
  show "utf8_valid (as_bytes s)"
    using d unfolding s by (intro utf8_valid_ascii) (auto simp: as_bytes_def list_all_iff dest: is_ascii_digit_byte)
qed

text \<open>
  C39. The socket excluded by a publish is the one it names. Every socket id the server hands out
  is accepted as the excluded socket, and a well-formed id excludes that connection only if it
  is its very id: none is shortened into the id of another.
\<close>

theorem excluded_socket_exact:
  assumes "a < 10 ^ 10" and "b < 10 ^ 10"
  shows "valid_socket_id (socket_id_as_str (generate a b)) \<and>
    (\<forall>sid. valid_socket_id sid \<longrightarrow> (from_raw sid = generate a b \<longleftrightarrow> sid = socket_id_as_str (generate a b)))"
proof (intro conjI allI impI)
  have g: "socket_id_as_str (generate a b) = show_nat a @ ''.'' @ show_nat b"
    using generate_roundtrip [OF assms assms] by blast
  have "list_all is_ascii_digit (show_nat n)" for n using show_nat_digits by (auto simp: list_all_iff)
  then show "valid_socket_id (socket_id_as_str (generate a b))"
    using generated_id_fits [OF assms] dot_notin_show_nat show_nat_not_empty
    by (simp add: g valid_socket_id_def split_once_append)
  fix sid assume v: "valid_socket_id sid"
  note ok = valid_socket_id_utf8 [OF v]
  have "sid = socket_id_as_str (from_raw sid)" using from_raw_as_str [OF ok] by simp
  then show "from_raw sid = generate a b \<longleftrightarrow> sid = socket_id_as_str (generate a b)"
    by (metis g generate_def)
qed


section \<open>What a probe learns\<close>

text \<open>
  C40. A request that does not know an application's key is told the same for an existing
  application as for an unknown one exactly when it gives version 1.0 of the signature scheme.
  With any other version, or none, the answer for an existing application is
  ``Invalid auth version'', so ids can be enumerated without any key.
\<close>

theorem unknown_app_hidden_iff:
  assumes "ct_eq_compares (hv_crypto v)" and "hv_by_id v known = Inr (Found app)" and "hv_by_id v unknown = Inr NotFound"
    and "map_of params ''auth_key'' \<noteq> Some (app_key app)" and "app_key app \<noteq> []"
  shows "authenticate v known meth path params body = authenticate v unknown meth path params body \<longleftrightarrow>
    map_of params ''auth_version'' = Some ''1.0''"
proof -
  have k: "\<not> constant_time_eq (hv_crypto v) (case map_of params ''auth_key'' of Some k \<Rightarrow> k | None \<Rightarrow> []) (app_key app)"
    using assms(4,5) unfolding constant_time_eq_iff [OF assms(1)] by (auto split: option.splits)
  then have "rest_verify (hv_crypto v) (hv_unicode v) (app_key app) (app_secret app) meth path params body
      (hv_now_unix v) (rc_rest_auth_window_secs (hv_config v)) =
      Inl (if map_of params ''auth_version'' = Some ''1.0'' then RestKeyMismatch else BadVersion)"
    by (simp add: rest_verify_def)
  with assms(2,3) show ?thesis by (simp add: authenticate_def rest_error_of_def GENERIC_AUTH_FAILURE_def)
qed


section \<open>An example request\<close>

definition rest_app :: app where
  "rest_app = metered_app\<lparr>max_backend_events_per_second := None\<rparr>"

definition example_rest_config :: rest_config where
  "example_rest_config = \<lparr>rc_rest_auth_window_secs = 600, rc_max_event_payload_bytes = 100, rc_max_event_name_length = 50,
     rc_max_channel_name_length = 50, rc_max_channels_per_publish = 10, rc_max_batch_events = 10, rc_cache_ttl_secs = 60,
     rc_app_admin_token = None\<rparr>"

definition example_rest_env :: rest_env where
  "example_rest_env = \<lparr>hv_json = example_json, hv_batch = (\<lambda>_. None), hv_crypto = example_crypto,
     hv_unicode = example_unicode, hv_config = example_rest_config,
     hv_by_id = (\<lambda>i. if i = ''a'' then Inr (Found rest_app) else Inr NotFound), hv_now_unix = 7, hv_now_ns = 0,
     hv_dropped = {}, hv_saturation = True\<rparr>"

definition publish_params :: "(string \<times> string) list" where
  "publish_params = [(''auth_key'', ''k''), (''auth_timestamp'', ''5''), (''auth_version'', ''1.0''),
     (''channel'', ''c''), (''data'', ''d''), (''name'', ''e'')]"

definition publish_request :: rest_request where
  "publish_request = \<lparr>hr_app_id = ''a'', hr_path = ''/apps/a/events'',
     hr_query = Inr ((''auth_signature'', hmac_sha256_hex example_crypto ''s''
       (signing_string example_unicode ''POST'' ''/apps/a/events'' publish_params)) # publish_params),
     hr_body = Inr []\<rparr>"

definition example_rest :: "unit local_adapter rest" where
  "example_rest = \<lparr>rs_limits = rest_rate_limits_new 0 0 0, rs_node = example_node, rs_publish_failed = None\<rparr>"

lemma publish_params_signed:
  "collect_signed example_unicode ((''auth_signature'', sg) # publish_params) [] =
     Some ((''auth_key'', ''k'') # (''auth_signature'', sg) # tl publish_params)"
  by code_simp

lemma publish_authenticated: "post_access example_rest_env publish_request = Inr ([], projr (hr_query publish_request), rest_app)"
proof -
  have ts: "parse_u64 ''5'' = Some 5" by code_simp
  have rm: "bt_remove ''auth_signature'' ((''auth_key'', ''k'') # (''auth_signature'', sg) # tl publish_params) = publish_params" for sg
    by code_simp
  have "constant_time_eq example_crypto x x" for x by (simp add: constant_time_eq_iff [OF example_crypto_compares])
  then show ?thesis
    using publish_params_signed ts rm [unfolded publish_params_def, simplified]
    by (simp add: post_access_ok authenticate_ok publish_request_def example_rest_env_def rest_verify_def example_rest_config_def
        rest_app_def metered_app_def publish_params_def abs_diff_def)
qed

lemma publish_trigger:
  "merged_trigger_body example_json [] ((''auth_signature'', sg) # publish_params) =
     Inr \<lparr>tr_name = ''e'', tr_data = ''d'', tr_channels = None, tr_channel = Some ''c'', tr_socket_id = None, tr_info = None\<rparr>"
  by code_simp

text \<open>A node with one worker, whose inbox takes the broadcasts.\<close>

definition worker_slot_new :: worker_slot where
  "worker_slot_new = \<lparr>ws_inbox = [], ws_cap = 4, ws_alive = True, ws_waker = True, ws_woken = False, ws_dropped = 0,
     ws_budget_saturated = False\<rparr>"

definition sink_node :: "unit local_adapter node" where
  "sink_node = example_node\<lparr>nd_fan := \<lparr>fan_workers = [worker_slot_new], fan_inbox_full = False, fan_bound = True\<rparr>,
     nd_state := set_broadcast_sink (nd_state example_node)\<rparr>"

definition sink_rest :: "unit local_adapter rest" where
  "sink_rest = example_rest\<lparr>rs_node := sink_node\<rparr>"

lemma publish_accepted_example:
  "\<exists>j s'. post_events example_rest_env (local_impl example_json example_moka) publish_request sink_rest = (Inr j, s') \<and>
     map (length \<circ> ws_inbox) (fan_workers (nd_fan (rs_node s'))) = [1]"
proof -
  let ?t = "\<lparr>tr_name = ''e'', tr_data = ''d'', tr_channels = None, tr_channel = Some ''c'', tr_socket_id = None, tr_info = None\<rparr>"
  let ?ad = "local_impl example_json example_moka"
  have q: "projr (hr_query publish_request) = (''auth_signature'', hmac_sha256_hex example_crypto ''s''
       (signing_string example_unicode ''POST'' ''/apps/a/events'' publish_params)) # publish_params"
    by (simp add: publish_request_def)
  have "\<not> rest_saturated example_rest_env sink_rest"
    by (simp add: rest_saturated_def sink_rest_def sink_node_def is_saturated_def worker_slot_new_def)
  moreover have "check_app_events (hv_dropped example_rest_env) (hv_now_ns example_rest_env) rest_app 1 (rs_limits sink_rest) =
      (Allowed, rs_limits sink_rest)"
    by (simp add: check_app_events_def app_decision_def rest_app_def metered_app_def sink_rest_def example_rest_def
        rest_rate_limits_new_def example_rest_env_def)
  moreover have "merged_trigger_body (hv_json example_rest_env) [] (projr (hr_query publish_request)) = Inr ?t"
    unfolding q using publish_trigger by (simp add: example_rest_env_def)
  moreover have "check_trigger (hv_config example_rest_env) ?t = Inr [''c'']" by code_simp
  ultimately obtain j s' where p: "post_events example_rest_env ?ad publish_request sink_rest = (Inr j, s')"
      "rs_node s' = fold (published example_rest_env ?ad (app_id rest_app) ?t) [''c''] (rs_node sink_rest)"
    using post_events_accepted [OF publish_authenticated] by blast
  have "strip_prefix SERVER_TO_USER_PREFIX ''c'' = None" "\<not> ci_cache (channel_info_of ''c'')" by code_simp+
  then have "map (length \<circ> ws_inbox) (fan_workers (nd_fan (rs_node s'))) = [1]"
    by (simp add: p(2) published_def rest_deliver_def sink_rest_def sink_node_def local_impl_def la_broadcast_def
        set_broadcast_sink_def sink_broadcast_def slot_offer_def worker_slot_new_def frames_for_active Let_def)
  with p(1) show ?thesis by (intro exI conjI)
qed

lemma sink_rest_api: "rest_api example_rest_env ad PostEvents publish_request sink_rest = post_events example_rest_env ad publish_request sink_rest"
  by (simp add: rest_api_def node_rate_limit_def check_node_def sink_rest_def example_rest_def rest_rate_limits_new_def)

lemma publish_params_distinct: "\<forall>params. hr_query publish_request = Inr params \<longrightarrow> distinct (map fst params)"
  by (auto simp: publish_request_def publish_params_def)

lemma example_rest_env_simps [simp]:
  "hv_by_id example_rest_env ''a'' = Inr (Found rest_app)" "hv_by_id example_rest_env ''x'' = Inr NotFound"
  "hv_crypto example_rest_env = example_crypto"
  by (simp_all add: example_rest_env_def)

text \<open>A request for an unknown application is refused, and the node is as it was.\<close>

theorem rejected_request_has_no_effect_witness:
  "\<exists>err s'. rest_api example_rest_env (local_impl example_json example_moka) PostEvents (publish_request\<lparr>hr_app_id := ''x''\<rparr>) sink_rest =
     (Inl err, s') \<and> rs_node s' = rs_node sink_rest"
proof -
  have "post_access example_rest_env (publish_request\<lparr>hr_app_id := ''x''\<rparr>) = Inl (rest_error_of 401 GENERIC_AUTH_FAILURE)"
    by (simp add: post_access_def from_rejection_def publish_request_def authenticate_def)
  then have "rest_api example_rest_env (local_impl example_json example_moka) PostEvents (publish_request\<lparr>hr_app_id := ''x''\<rparr>) sink_rest =
     (Inl (rest_error_of 401 GENERIC_AUTH_FAILURE), sink_rest)"
    by (simp add: rest_api_def node_rate_limit_def check_node_def sink_rest_def example_rest_def rest_rate_limits_new_def post_events_def)
  with rejected_request_has_no_effect [OF this] show ?thesis by blast
qed

text \<open>The signed publish reaches the worker, so its signature is in order.\<close>

theorem effects_need_signature_witness:
  "\<exists>res s' app ts. rest_api example_rest_env (local_impl example_json example_moka) PostEvents publish_request sink_rest = (res, s') \<and>
     rs_node s' \<noteq> rs_node sink_rest \<and> hv_by_id example_rest_env (hr_app_id publish_request) = Inr (Found app) \<and>
     abs_diff (hv_now_unix example_rest_env) ts \<le> rc_rest_auth_window_secs (hv_config example_rest_env)"
proof -
  obtain j s' where p: "rest_api example_rest_env (local_impl example_json example_moka) PostEvents publish_request sink_rest = (Inr j, s')"
      and l: "map (length \<circ> ws_inbox) (fan_workers (nd_fan (rs_node s'))) = [1]"
    using publish_accepted_example unfolding sink_rest_api by (elim exE conjE)
  have "map (length \<circ> ws_inbox) (fan_workers (nd_fan (rs_node sink_rest))) = [0]"
    by (simp add: sink_rest_def sink_node_def worker_slot_new_def)
  with l have n: "rs_node s' \<noteq> rs_node sink_rest" by auto
  have "ct_eq_compares (hv_crypto example_rest_env)" by (simp add: example_crypto_compares)
  from effects_need_signature [OF p n this publish_params_distinct]
  obtain app ts where "hv_by_id example_rest_env (hr_app_id publish_request) = Inr (Found app)"
      "abs_diff (hv_now_unix example_rest_env) ts \<le> rc_rest_auth_window_secs (hv_config example_rest_env)"
    by (elim exE conjE) (rule that)
  with p n show ?thesis by (intro exI conjI)
qed

text \<open>The signed publish is accepted, so it goes to the one channel it names.\<close>

theorem publish_accepted_exactly_witness:
  "\<exists>j s' (app :: app) t cs. post_events example_rest_env (local_impl example_json example_moka) publish_request sink_rest = (Inr j, s') \<and>
     cs = trigger_channels t \<and> cs \<noteq> [] \<and>
     rs_node s' = fold (published example_rest_env (local_impl example_json example_moka) (app_id app) t) cs (rs_node sink_rest)"
proof -
  obtain j s' where p: "post_events example_rest_env (local_impl example_json example_moka) publish_request sink_rest = (Inr j, s')"
    using publish_accepted_example by (elim exE conjE)
  from iffD1 [OF publish_accepted_exactly [OF p] exI, OF refl]
  obtain app :: app and t cs where "cs = trigger_channels t" "cs \<noteq> []"
      "rs_node s' = fold (published example_rest_env (local_impl example_json example_moka) (app_id app) t) cs (rs_node sink_rest)"
    by (elim exE conjE) (rule that)
  with p show ?thesis by (intro exI conjI)
qed

theorem excluded_socket_exact_witness: "valid_socket_id (socket_id_as_str (generate 12 345))"
  using excluded_socket_exact [of 12 345] by simp

theorem unknown_app_hidden_iff_witness:
  "authenticate example_rest_env ''a'' ''GET'' ''/apps'' [] [] \<noteq> authenticate example_rest_env ''x'' ''GET'' ''/apps'' [] []"
  using unknown_app_hidden_iff [of example_rest_env "''a''" rest_app "''x''" "[]" "''GET''" "''/apps''" "[]"]
  by (simp add: example_crypto_compares rest_app_def metered_app_def)

end
