(* ===== verification/Spec2Isabelle.thy ===== *)
theory Spec2Isabelle
  imports Channel_Kind Channel_Registry User_Registry Timer_Wheel Connection Auth Fanout Rate
    App Webhook Adapter Local_Adapter Ws_Handler Sessions Webhook_Edges
    Handshake Worker_Session Worker_Index Admission Worker_Run Rest
begin

text \<open>
  Verification of pylon, a WebSocket server that speaks the Pusher protocol. A client opens a
  WebSocket connection, subscribes to channels and may sign in as a user; a backend publishes
  events and reads the state of the channels over a signed HTTP API; the server reports edges,
  such as a channel becoming occupied, to the backend through webhooks.

  \<^bold>\<open>Parts and how they interact\<close>

  Every worker thread owns a set of connections and runs one event loop (\<open>src/transport\<close>). It
  parses frames, decodes commands (\<open>src/protocol\<close>) and hands them to the connection handlers
  (\<open>src/ws\<close>). The handlers check tokens (\<open>src/auth\<close>) and limits, and act on the shared state only
  through the adapter trait (\<open>src/adapter\<close>), whose single-node implementation keeps a registry of
  channels (\<open>src/channel\<close>) and one of users (\<open>src/user\<close>). A broadcast goes to the inbox of every
  worker, and each worker queues it onto its own subscribers. Events for one connection go
  to its mailbox. The HTTP API (\<open>src/http\<close>) uses the same adapter.

  \<^bold>\<open>Theories\<close>

  \<^item> \<open>Prelude\<close>: machine types, the parts of the Rust standard library in use, and the interfaces
    \<open>finite_map\<close> (interpreted for hash maps and ordered maps), \<open>machine\<close> (an invariant of a step
    function holds after every run) and \<open>refinement\<close> (a simulation lifts to runs).
  \<^item> \<open>Ws_Frame\<close> (\<open>transport/frame.rs\<close>): parsing, unmasking and encoding of frames. Round trip,
    stability under later input, limits, agreement with the mask of RFC 6455.
  \<^item> \<open>Protocol\<close>, \<open>Mailbox\<close>, \<open>Channel_Kind\<close> (\<open>protocol\<close>, \<open>connection/handle.rs\<close>, \<open>channel/kind.rs\<close>):
    socket ids, commands, events, negotiation; bounded mailboxes as a store; channel names.
    Decoding inverts printing.
  \<^item> \<open>Channel_State\<close>, \<open>Channel_Registry\<close> (\<open>channel/state.rs\<close>, \<open>registry.rs\<close>, \<open>presence/member.rs\<close>):
    subscribers, presence rosters with their caches, fan-out. Refinement of a plain list of
    subscriptions; exact joins, leaves and recipients.
  \<^item> \<open>User_Registry\<close> (\<open>user\<close>, \<open>adapter/app_registry.rs\<close>): sign-ins and watchlists. The three indexes
    agree; online and offline edges are exact.
  \<^item> \<open>Timer_Wheel\<close> (\<open>transport/timer.rs\<close>): refinement of the set of armed deadlines.
  \<^item> \<open>Auth\<close> (\<open>auth\<close>): tokens and request signatures. Accepted exactly when they are the signature of
    the message; messages of different purposes never coincide.
  \<^item> \<open>Rate\<close> (\<open>rate.rs\<close>, \<open>ws/rate.rs\<close>): the token bucket, floating-point rounding included.
  \<^item> \<open>App\<close>, \<open>Webhook\<close>, \<open>Fanout\<close> (\<open>app/mod.rs\<close>, \<open>webhook/event.rs\<close>, \<open>webhook/mod.rs\<close>,
    \<open>transport/fanout.rs\<close>): applications, triggers and their bounded queue, the worker inboxes.
  \<^item> \<open>Adapter\<close>, \<open>Local_Adapter\<close> (\<open>adapter/mod.rs\<close>, \<open>adapter/local.rs\<close>, \<open>channel/cache.rs\<close>): the trait as a
    record of operations, its contract as the locales \<open>adapter_laws\<close> and \<open>quiet_adapter\<close>, and
    their interpretation for the in-process adapter.
  \<^item> \<open>Ws_Handler\<close>, \<open>Sessions\<close>, \<open>Webhook_Edges\<close> (\<open>ws\<close>): every command and the clean-up on close, over an
    arbitrary adapter; any interleaving of connections. The registries hold exactly what the
    open connections say, membership needs a verified token, limits hold, and webhooks are
    raised exactly on the edges.
  \<^item> \<open>Connection\<close> (\<open>transport/conn.rs\<close>): outbound queue, eviction, controlled delay, flush over plain
    and encrypted sockets, reads, byte accounting. The wire carries whole frames in order.
  \<^item> \<open>Handshake\<close> (\<open>transport/handshake.rs\<close>): recognition of an upgrade and the responses.
  \<^item> \<open>Worker_Session\<close>, \<open>Worker_Index\<close>, \<open>Admission\<close>, \<open>Worker\<close>, \<open>Worker_Invariant\<close>, \<open>Worker_Run\<close>
    (\<open>transport/worker.rs\<close>): one connection on its worker, the subscription index and the fan-out
    over it, admission with its shared counters, the whole event loop, what each operation
    keeps, and runs of the loop interleaved with other threads up to the shutdown.
  \<^item> \<open>Rest_Limits\<close>, \<open>Rest\<close> (\<open>http/error.rs\<close>, \<open>http/rest\<close>, \<open>server/router.rs\<close>): the HTTP API. What is
    accepted, that an effect needs a signature, that an error leaves no effect (from the
    locale \<open>reliable_adapter\<close>, interpreted for the in-process adapter), the event rate.

  \<^bold>\<open>How the model corresponds to the code\<close>

  A struct is a record and an enum a datatype with the source's constructors; a method is a
  function from the state to its result and the next state; an early return or an error is a
  branch of a sum or option type. A 64-bit integer whose wrap-around or saturation matters is a
  word, other counters are natural numbers; \<open>f64\<close> is a rational number rounded to 53 bits. Shared
  objects (mailboxes, per-application counters) live in explicit stores. Text is the list of
  its UTF-8 bytes.

  Libraries are parameters: the JSON library, the cryptographic digests and comparison, Unicode
  lower-casing, the HTTP parser, SHA-1 and base64, the moka caches. A theorem that
  relies on one names what it relies on as a hypothesis, and its witness instantiates it.

  Loops over a socket are recursions over a script, the list of what the operating system and
  the TLS library will answer; an exhausted script is a socket that would block. Every
  function is therefore total and no fuel is involved; statements for all scripts are
  statements about every behaviour of the peer. An iteration of the event loop takes the
  ready events, the clock and the results of other threads as inputs.

  \<^bold>\<open>Simplifications\<close>

  \<^item> A hash map is iterated in the order of insertion. Properties speak of sets of recipients
    or are insensitive to that order.
  \<^item> A handler runs to completion before the next one: the interleaving of connections is at the
    level of commands. The races inside admission are modelled at the level of
    the atomic operations on the counters.
  \<^item> In \<open>Sessions\<close> a connection's own set of channels changes only by its commands. On a worker, the
    drain of a queued subscription error changes it too; that this can leave a subscriber
    behind in the registry is a result of \<open>Worker_Session\<close>, so the agreement of registries and
    connections holds for runs without such a drain.
  \<^item> Random socket ids may collide. The index of a worker is shown exact as long as the ids drawn
    so far are distinct; its totals and interests hold in any case.
  \<^item> The rate of an application is bounded as long as the cache keeps its bucket.

  \<^bold>\<open>Not modelled\<close>

  \<^item> \<open>http/rest/metrics.rs\<close>: text rendering of counters that nothing reads back.
  \<^item> \<open>webhook/dispatcher.rs\<close>, \<open>transport.rs\<close>, \<open>occupancy.rs\<close>: asynchronous tasks around an HTTP client
    and timers behind the queue of \<open>Webhook\<close>.
  \<^item> \<open>app/cache.rs\<close>, \<open>l2.rs\<close>, \<open>invalidation.rs\<close>, \<open>probe.rs\<close>, \<open>purger.rs\<close>, \<open>sql.rs\<close>, \<open>mongo.rs\<close>,
    \<open>static_file.rs\<close>: database, file and Redis clients; their answer is an argument.
  \<^item> \<open>adapter/redis\<close>, \<open>cluster\<close>: the clustered adapter, which runs scripts inside a Redis server, and
    the bridge to it. \<open>adapter/failing.rs\<close> is a test double.
  \<^item> \<open>server/config.rs\<close> but for its limits, \<open>server/resources.rs\<close>, \<open>server/shutdown.rs\<close>, \<open>main.rs\<close>:
    environment, sizing, signals and wiring.
  \<^item> \<open>transport/mod.rs\<close>, \<open>tls.rs\<close>, \<open>rest.rs\<close>: thread start-up, certificates and the hand-off of a
    socket to the HTTP framework; likewise the calls into the poll and the driving of the TLS
    handshake in \<open>conn.rs\<close> and \<open>worker.rs\<close>, whose outcomes are scripts.
\<close>

end
